(* ===== verification/Prelude_DTS.thy ===== *)
theory Prelude_DTS
  imports Main "HOL-Library.Word" "HOL-Library.Multiset"
begin

text \<open>
  Shared ground of the development: the machine types of the C++ code, memory as byte lists
  (\<open>memcpy\<close> into and out of a buffer), the little-endian layout of the scalars that the code
  copies with \<open>memcpy\<close>, C strings, decimal printing (\<open>std::to_string\<close>, \<open>%u\<close>, \<open>%llu\<close>) and
  \<open>snprintf\<close>. Nothing here is about one component; the component theories import it.
\<close>

unbundle bit_operations_syntax

type_synonym u8 = "8 word"
type_synonym u16 = "16 word"
type_synonym u32 = "32 word"
type_synonym u64 = "64 word"
type_synonym bytes = "u8 list"

named_theorems mem_simps \<open>reading and writing byte buffers\<close>
named_theorems unat_simps \<open>unsigned values of word arithmetic without overflow\<close>

section \<open>Unsigned arithmetic\<close>

lemma unat_add_u64 [unat_simps]:
  "unat a + unat b < 2 ^ 64 \<Longrightarrow> unat (a + b) = unat a + unat (b :: u64)"
  by (simp add: unat_word_ariths)

lemma unat_add_u32 [unat_simps]:
  "unat a + unat b < 2 ^ 32 \<Longrightarrow> unat (a + b) = unat a + unat (b :: u32)"
  by (simp add: unat_word_ariths)

lemma unat_sub_le [unat_simps]:
  "unat b \<le> unat a \<Longrightarrow> unat (a - b) = unat a - unat (b :: 'a::len word)"
  by (simp add: unat_sub word_le_nat_alt)

lemma unat_sub_wrap:
  fixes a b :: "'a::len word"
  assumes "unat a < unat b"
  shows "unat (a - b) = 2 ^ LENGTH('a) - (unat b - unat a)"
proof -
  have "unat (a - b) = 2 ^ LENGTH('a) + unat a - unat b"
    using assms by (simp add: unat_sub_if_size word_size)
  then show ?thesis using assms unsigned_less [of b] by simp
qed

lemma unat_lt_u8: "unat (x :: u8) < 256"
  using unsigned_less [of x] by simp

lemma unat_lt_u16: "unat (x :: u16) < 65536"
  using unsigned_less [of x] by simp

lemma unat_lt_u32: "unat (x :: u32) < 4294967296"
  using unsigned_less [of x] by simp

lemma unat_lt_u64: "unat (x :: u64) < 18446744073709551616"
  using unsigned_less [of x] by simp

lemma unat_ucast_32_64 [simp]: "unat (ucast (x :: u32) :: u64) = unat x"
  using unat_lt_u32 [of x] by (simp add: unsigned_ucast_eq take_bit_nat_eq_self)

lemma unat_ucast_16_32 [simp]: "unat (ucast (x :: u16) :: u32) = unat x"
  using unat_lt_u16 [of x] by (simp add: unsigned_ucast_eq take_bit_nat_eq_self)

text \<open>A key packed from two halves, \<open>(hi << n) | lo\<close>.\<close>

lemma unat_pack_32_32 [unat_simps]:
  "unat (push_bit 32 (ucast (a :: u32)) OR ucast (b :: u32) :: u64) = unat a * 4294967296 + unat b"
proof -
  have "push_bit 32 (ucast a) OR ucast b = push_bit 32 (ucast a) + (ucast b :: u64)"
    by (rule disjunctive_add [symmetric]) (auto simp: bit_simps dest: bit_imp_le_length)
  then show ?thesis using unat_lt_u32 [of a] unat_lt_u32 [of b]
    by (simp add: unat_word_ariths unsigned_push_bit_eq push_bit_eq_mult take_bit_nat_eq_self)
qed

lemma unat_pack_16_16 [unat_simps]:
  "unat (push_bit 16 (ucast (a :: u16)) OR ucast (b :: u16) :: u32) = unat a * 65536 + unat b"
proof -
  have "push_bit 16 (ucast a) OR ucast b = push_bit 16 (ucast a) + (ucast b :: u32)"
    by (rule disjunctive_add [symmetric]) (auto simp: bit_simps dest: bit_imp_le_length)
  then show ?thesis using unat_lt_u16 [of a] unat_lt_u16 [of b]
    by (simp add: unat_word_ariths unsigned_push_bit_eq push_bit_eq_mult take_bit_nat_eq_self)
qed

lemma pack_inj:
  assumes "a * (c :: nat) + b = a' * c + b'" "b < c" "b' < c"
  shows "a = a' \<and> b = b'"
proof -
  have "(a * c + b) div c = a" "(a' * c + b') div c = a'" "(a * c + b) mod c = b" "(a' * c + b') mod c = b'"
    using assms(2,3) by simp_all
  then show ?thesis using assms(1) by metis
qed

section \<open>Byte buffers\<close>

text \<open>\<open>mem_write buf off bs\<close> is \<open>memcpy(buf + off, bs, size)\<close>; \<open>mem_read\<close> reads \<open>n\<close> bytes.\<close>

definition mem_write :: "'a list \<Rightarrow> nat \<Rightarrow> 'a list \<Rightarrow> 'a list" where
  "mem_write buf off bs = take off buf @ bs @ drop (off + length bs) buf"

definition mem_read :: "'a list \<Rightarrow> nat \<Rightarrow> nat \<Rightarrow> 'a list" where
  "mem_read buf off n = take n (drop off buf)"

lemma length_mem_write [mem_simps]:
  "off + length bs \<le> length buf \<Longrightarrow> length (mem_write buf off bs) = length buf"
  by (simp add: mem_write_def)

lemma length_mem_read [mem_simps]:
  "off + n \<le> length buf \<Longrightarrow> length (mem_read buf off n) = n"
  by (simp add: mem_read_def)

lemma mem_write_Nil [simp]: "mem_write buf off [] = buf"
  by (simp add: mem_write_def)

lemma nth_mem_write:
  "off + length bs \<le> length buf \<Longrightarrow> i < length buf \<Longrightarrow>
   mem_write buf off bs ! i = (if off \<le> i \<and> i < off + length bs then bs ! (i - off) else buf ! i)"
  by (auto simp: mem_write_def nth_append)

lemma mem_read_write_same [mem_simps]:
  "off \<le> length buf \<Longrightarrow> mem_read (mem_write buf off bs) off (length bs) = bs"
  by (simp add: mem_read_def mem_write_def)

lemma nth_mem_read:
  "off + n \<le> length buf \<Longrightarrow> i < n \<Longrightarrow> mem_read buf off n ! i = buf ! (off + i)"
  by (simp add: mem_read_def)

lemma mem_read_write_before [mem_simps]:
  assumes "off + length bs \<le> length buf" "a + n \<le> off"
  shows "mem_read (mem_write buf off bs) a n = mem_read buf a n"
  using assms by (intro nth_equalityI)
    (auto simp: length_mem_read length_mem_write nth_mem_read nth_mem_write)

lemma mem_read_write_after [mem_simps]:
  assumes "off + length bs \<le> length buf" "off + length bs \<le> a" "a + n \<le> length buf"
  shows "mem_read (mem_write buf off bs) a n = mem_read buf a n"
  using assms by (intro nth_equalityI)
    (auto simp: length_mem_read length_mem_write nth_mem_read nth_mem_write)

lemma take_mem_write_before [mem_simps]:
  "off + length bs \<le> length buf \<Longrightarrow> n \<le> off \<Longrightarrow> take n (mem_write buf off bs) = take n buf"
  by (simp add: mem_write_def)

lemma take_mem_write_end [mem_simps]:
  "off \<le> length buf \<Longrightarrow> take (off + length bs) (mem_write buf off bs) = take off buf @ bs"
  by (simp add: mem_write_def)

lemma mem_read_append_left [mem_simps]:
  "off + n \<le> length xs \<Longrightarrow> mem_read (xs @ ys) off n = mem_read xs off n"
  by (simp add: mem_read_def)

lemma mem_read_append_right [mem_simps]:
  "length xs \<le> off \<Longrightarrow> mem_read (xs @ ys) off n = mem_read ys (off - length xs) n"
  by (simp add: mem_read_def)

lemma mem_read_take [mem_simps]:
  "off + n \<le> m \<Longrightarrow> mem_read (take m xs) off n = mem_read xs off n"
  by (simp add: mem_read_def drop_take)

lemma block_disjoint:
  assumes "a \<noteq> (b :: nat)" "n \<le> s"
  shows "a * s + n \<le> b * s \<or> b * s + n \<le> a * s"
proof -
  have *: "x * s + s \<le> y * s" if "x < y" for x y :: nat
  proof -
    have "Suc x * s \<le> y * s" using that by (intro mult_le_mono1) simp
    then show ?thesis by (simp add: add.commute)
  qed
  show ?thesis using * [of a b] * [of b a] assms by (cases a b rule: linorder_cases) auto
qed

lemma block_end:
  assumes "a < (c :: nat)" "n \<le> s"
  shows "a * s + n \<le> c * s"
proof -
  have "Suc a * s \<le> c * s" using assms(1) by (intro mult_le_mono1) simp
  then show ?thesis using assms(2) by simp
qed

section \<open>Little-endian scalars\<close>

text \<open>
  The code moves scalars between structs and byte buffers with \<open>memcpy\<close> in the machine's own
  order; the targets (x86-64, little-endian ARM) are little-endian.
\<close>

primrec le_bytes :: "nat \<Rightarrow> nat \<Rightarrow> bytes" where
  "le_bytes 0 v = []"
| "le_bytes (Suc n) v = of_nat (v mod 256) # le_bytes n (v div 256)"

primrec le_val :: "bytes \<Rightarrow> nat" where
  "le_val [] = 0"
| "le_val (b # bs) = unat b + 256 * le_val bs"

lemma length_le_bytes [simp]: "length (le_bytes n v) = n"
  by (induction n arbitrary: v) auto

lemma le_val_le_bytes [simp]: "v < 256 ^ n \<Longrightarrow> le_val (le_bytes n v) = v"
proof (induction n arbitrary: v)
  case (Suc n)
  then have "v div 256 < 256 ^ n" by (simp add: div_less_iff_less_mult mult.commute)
  then have "le_val (le_bytes n (v div 256)) = v div 256" by (rule Suc.IH)
  moreover have "unat (of_nat (v mod 256) :: u8) = v mod 256" by (simp add: unat_of_nat)
  ultimately show ?case by simp
qed simp

lemma le_val_bound: "le_val bs < 256 ^ length bs"
proof (induction bs)
  case (Cons b bs)
  then show ?case using unat_lt_u8 [of b] by simp
qed simp

lemma le_bytes_le_val: "length bs = n \<Longrightarrow> le_bytes n (le_val bs) = bs"
proof (induction bs arbitrary: n)
  case (Cons b bs)
  have "(unat b + 256 * le_val bs) mod 256 = unat b" using unat_lt_u8 [of b] by simp
  moreover have "(unat b + 256 * le_val bs) div 256 = le_val bs" using unat_lt_u8 [of b] by simp
  ultimately show ?case using Cons by auto
qed simp

definition le16 :: "u16 \<Rightarrow> bytes" where "le16 w = le_bytes 2 (unat w)"
definition le32 :: "u32 \<Rightarrow> bytes" where "le32 w = le_bytes 4 (unat w)"
definition le64 :: "u64 \<Rightarrow> bytes" where "le64 w = le_bytes 8 (unat w)"

definition get16 :: "bytes \<Rightarrow> nat \<Rightarrow> u16" where
  "get16 buf off = of_nat (le_val (mem_read buf off 2))"

definition get32 :: "bytes \<Rightarrow> nat \<Rightarrow> u32" where
  "get32 buf off = of_nat (le_val (mem_read buf off 4))"

definition get64 :: "bytes \<Rightarrow> nat \<Rightarrow> u64" where
  "get64 buf off = of_nat (le_val (mem_read buf off 8))"

lemma length_le [simp]: "length (le16 a) = 2" "length (le32 b) = 4" "length (le64 c) = 8"
  by (simp_all add: le16_def le32_def le64_def)

lemma le_val_le16: "le_val (le16 w) = unat w"
  using unat_lt_u16 [of w] by (simp add: le16_def)

lemma le_val_le32: "le_val (le32 w) = unat w"
  using unat_lt_u32 [of w] by (simp add: le32_def)

lemma le_val_le64: "le_val (le64 w) = unat w"
  using unat_lt_u64 [of w] by (simp add: le64_def)

lemma get16_eq: "mem_read buf off 2 = le16 w \<Longrightarrow> get16 buf off = w"
  by (simp add: get16_def le_val_le16)

lemma get32_eq: "mem_read buf off 4 = le32 w \<Longrightarrow> get32 buf off = w"
  by (simp add: get32_def le_val_le32)

lemma get64_eq: "mem_read buf off 8 = le64 w \<Longrightarrow> get64 buf off = w"
  by (simp add: get64_def le_val_le64)

lemma le32_inj: "le32 a = le32 b \<Longrightarrow> a = b"
  by (metis le_val_le32 word_unat_eq_iff)

section \<open>C strings and decimal text\<close>

text \<open>A \<open>const char*\<close> argument: \<open>None\<close> is the null pointer.\<close>

type_synonym cstr = "string option"

text \<open>\<open>std::string::c_str()\<close> seen through a C function ends at the first NUL.\<close>

definition c_str :: "string \<Rightarrow> string" where
  "c_str s = takeWhile (\<lambda>c. c \<noteq> CHR 0x00) s"

definition digit_char :: "nat \<Rightarrow> char" where
  "digit_char d = char_of (48 + d)"

fun dec_string :: "nat \<Rightarrow> string" where
  "dec_string n = (if n < 10 then [digit_char n] else dec_string (n div 10) @ [digit_char (n mod 10)])"

declare dec_string.simps [simp del]

primrec dec_val_acc :: "string \<Rightarrow> nat \<Rightarrow> nat" where
  "dec_val_acc [] a = a"
| "dec_val_acc (c # cs) a = dec_val_acc cs (10 * a + (of_char c - 48))"

lemma dec_val_acc_append: "dec_val_acc (xs @ ys) a = dec_val_acc ys (dec_val_acc xs a)"
  by (induction xs arbitrary: a) auto

lemma of_char_digit: "d < 10 \<Longrightarrow> (of_char (digit_char d) :: nat) = 48 + d"
  by (simp add: digit_char_def)

lemma dec_val_dec_string: "dec_val_acc (dec_string n) 0 = n"
proof (induction n rule: dec_string.induct)
  case (1 n)
  show ?case
  proof (cases "n < 10")
    case True
    then show ?thesis by (simp add: dec_string.simps [of n] of_char_digit)
  next
    case False
    with "1.IH" show ?thesis
      by (simp add: dec_string.simps [of n] dec_val_acc_append of_char_digit)
  qed
qed

lemma dec_string_inj: "dec_string a = dec_string b \<Longrightarrow> a = b"
  by (metis dec_val_dec_string)

lemma dec_string_digits: "c \<in> set (dec_string n) \<Longrightarrow> (of_char c :: nat) \<in> {48..57}"
proof (induction n rule: dec_string.induct)
  case (1 n)
  show ?case
  proof (cases "n < 10")
    case True
    with "1.prems" have "c = digit_char n" by (simp add: dec_string.simps [of n])
    with True show ?thesis by (simp add: of_char_digit)
  next
    case False
    with "1.prems" have "c \<in> set (dec_string (n div 10)) \<or> c = digit_char (n mod 10)"
      by (auto simp: dec_string.simps [of n])
    then show ?thesis using "1.IH" False by (auto simp: of_char_digit)
  qed
qed

lemma dec_string_nonempty [simp]: "dec_string n \<noteq> []"
  by (subst dec_string.simps) simp

lemma length_dec_string: "n < 10 ^ k \<Longrightarrow> 0 < k \<Longrightarrow> length (dec_string n) \<le> k"
proof (induction n arbitrary: k rule: dec_string.induct)
  case (1 n)
  show ?case
  proof (cases "n < 10")
    case False
    obtain j where k: "k = Suc j" using "1.prems"(2) by (cases k) auto
    have "n div 10 < 10 ^ j" using "1.prems"(1) k by (simp add: div_less_iff_less_mult mult.commute)
    moreover have "0 < j" using "1.prems"(1) False k by (cases j) auto
    ultimately have "length (dec_string (n div 10)) \<le> j" using "1.IH" False by blast
    with False k show ?thesis by (simp add: dec_string.simps [of n])
  qed (use "1.prems" in \<open>simp add: dec_string.simps [of n]\<close>)
qed

lemma length_dec32: "length (dec_string (unat (w :: u32))) \<le> 10"
proof -
  have "unat w < 10 ^ 10" using unat_lt_u32 [of w] by simp
  then show ?thesis by (rule length_dec_string) simp
qed

lemma length_dec_u64: "length (dec_string (unat (w :: u64))) \<le> 20"
proof -
  have "unat w < 10 ^ 20" using unat_lt_u64 [of w] by simp
  then show ?thesis by (rule length_dec_string) simp
qed

lemma length_dec_u16: "length (dec_string (unat (w :: u16))) \<le> 5"
proof -
  have "unat w < 10 ^ 5" using unat_lt_u16 [of w] by simp
  then show ?thesis by (rule length_dec_string) simp
qed

text \<open>
  \<open>snprintf(buf, cap, ...)\<close> of a text \<open>s\<close> with \<open>cap > 0\<close>: the buffer then holds the first
  \<open>cap - 1\<close> characters and a NUL, and the return value is the untruncated length.
\<close>

definition snprintf_text :: "nat \<Rightarrow> string \<Rightarrow> string" where
  "snprintf_text cap s = take (cap - 1) s"

text \<open>
  \<open>strtoull(s, &end, 10)\<close> of the C library: leading white space, an optional sign, digits. The value
  saturates at \<open>ULLONG_MAX\<close>, a minus sign negates it modulo \<open>2 ^ 64\<close>, and without any digit the
  result is 0 and \<open>end\<close> is the whole string.
\<close>

definition is_space :: "char \<Rightarrow> bool" where
  "is_space c \<longleftrightarrow> c = CHR '' '' \<or> c \<in> {CHR 0x09, CHR 0x0A, CHR 0x0B, CHR 0x0C, CHR 0x0D}"

definition is_digit :: "char \<Rightarrow> bool" where
  "is_digit c \<longleftrightarrow> 48 \<le> (of_char c :: nat) \<and> (of_char c :: nat) \<le> 57"

definition strtoull10 :: "string \<Rightarrow> u64 \<times> string" where
  "strtoull10 s = (let s1 = dropWhile is_space s;
       neg = (take 1 s1 = ''-'');
       s2 = (if take 1 s1 = ''-'' \<or> take 1 s1 = ''+'' then drop 1 s1 else s1);
       ds = takeWhile is_digit s2;
       v = dec_val_acc ds 0
     in if ds = [] then (0, s)
        else (if v \<ge> 2 ^ 64 then - 1 else if neg then - of_nat v else of_nat v, dropWhile is_digit s2))"

text \<open>\<open>strtol\<close> in base 10, saturating at the limits of \<open>long\<close>.\<close>

definition strtol10 :: "string \<Rightarrow> int" where
  "strtol10 s = (let s1 = dropWhile is_space s;
       neg = (take 1 s1 = ''-'');
       s2 = (if take 1 s1 = ''-'' \<or> take 1 s1 = ''+'' then drop 1 s1 else s1);
       v = int (dec_val_acc (takeWhile is_digit s2) 0)
     in if neg then max (- (2 ^ 63)) (- v) else min (2 ^ 63 - 1) v)"

lemma is_digit_dec_string: "list_all is_digit (dec_string n)"
  using dec_string_digits by (auto simp: list_all_iff is_digit_def)

lemma is_space_not_digit: "is_digit c \<Longrightarrow> \<not> is_space c \<and> c \<noteq> CHR ''-'' \<and> c \<noteq> CHR ''+''"
  by (auto simp: is_digit_def is_space_def)

text \<open>Printing a 64-bit number and reading it back.\<close>

lemma strtoull10_dec:
  assumes "n < 2 ^ 64" "rest = [] \<or> \<not> is_digit (hd rest)"
  shows "strtoull10 (dec_string n @ rest) = (of_nat n, rest)"
proof -
  obtain c cs where c: "dec_string n = c # cs" by (cases "dec_string n") auto
  have all: "\<forall>x \<in> set (dec_string n). is_digit x" using is_digit_dec_string [of n] by (simp add: list_all_iff)
  then have "is_digit c" by (simp add: c)
  from is_space_not_digit [OF this] have nsp: "\<not> is_space c" "c \<noteq> CHR ''-''" "c \<noteq> CHR ''+''" by auto
  have "takeWhile is_digit (dec_string n @ rest) = dec_string n"
    using all assms(2) by (cases rest) auto
  moreover have "dropWhile is_digit (dec_string n @ rest) = rest"
    using all assms(2) by (cases rest) auto
  moreover have "dropWhile is_space (dec_string n @ rest) = dec_string n @ rest" using nsp by (simp add: c)
  moreover have "take 1 (dec_string n @ rest) = [c]" by (simp add: c)
  ultimately show ?thesis
    using assms(1) nsp by (simp add: strtoull10_def Let_def dec_val_dec_string)
qed

section \<open>Lists\<close>

lemma find_unique:
  "v \<in> set xs \<Longrightarrow> P v \<Longrightarrow> (\<And>w. w \<in> set xs \<Longrightarrow> P w \<Longrightarrow> w = v) \<Longrightarrow> find P xs = Some v"
proof (induction xs)
  case (Cons x xs)
  show ?case
  proof (cases "P x")
    case True
    with Cons.prems(3) [of x] show ?thesis by simp
  next
    case False
    with Cons.prems(1,2) have "v \<in> set xs" by auto
    then have "find P xs = Some v"
      by (rule Cons.IH [OF _ Cons.prems(2)]) (rule Cons.prems(3), simp_all)
    with False show ?thesis by simp
  qed
qed simp

text \<open>A search is not disturbed by a change behind its result or at its result.\<close>

lemma find_change_other:
  "find P xs = Some x \<Longrightarrow> x \<noteq> z \<Longrightarrow> P z \<Longrightarrow> (\<And>y. y \<noteq> z \<Longrightarrow> P' y = P y) \<Longrightarrow> find P' xs = Some x"
  by (induction xs) (simp, metis find.simps(2) option.inject)

lemma find_change_same:
  "find P xs = Some x \<Longrightarrow> P' x \<Longrightarrow> (\<And>y. y \<noteq> x \<Longrightarrow> P' y = P y) \<Longrightarrow> find P' xs = Some x"
  by (induction xs) (simp, metis find.simps(2) option.inject)

lemma find_SomeD2: "find P xs = Some x \<Longrightarrow> x \<in> set xs \<and> P x"
  by (induction xs) (auto split: if_splits)

lemma sum_list_take_mono: "sum_list (take n xs) \<le> sum_list (xs :: nat list)"
  by (metis append_take_drop_id le_add1 sum_list_append)

lemma sum_list_take_Suc:
  "i < length xs \<Longrightarrow> sum_list (take (Suc i) xs) = sum_list (take i xs) + (xs ! i :: nat)"
  by (simp add: take_Suc_conv_app_nth)

end
