(* ===== verification/Interfaces.thy ===== *)
theory Interfaces
  imports Prelude_DTS
begin

text \<open>
  The contracts between components, as locales. A provider interprets a locale on its own
  definitions; what a client needs is proved once here, from the laws alone.

  \<^item> \<open>fifo\<close>: an ordered channel (the thread mailbox, the shared-memory ring).
  \<^item> \<open>registry\<close>: a table that refuses a second entry for a key (extractor table, command
    table, task table); \<open>open_registry\<close> adds that a free key is always accepted.
\<close>

section \<open>Ordered channels\<close>

text \<open>Offer messages one after another; a refused message ends the run with \<open>None\<close>.\<close>

fun put_all :: "('m \<Rightarrow> 's \<Rightarrow> 's option) \<Rightarrow> 'm list \<Rightarrow> 's \<Rightarrow> 's option" where
  "put_all put [] s = Some s"
| "put_all put (m # ms) s = (case put m s of None \<Rightarrow> None | Some s' \<Rightarrow> put_all put ms s')"

text \<open>Take up to \<open>n\<close> messages.\<close>

fun get_upto :: "('s \<Rightarrow> ('m \<times> 's) option) \<Rightarrow> nat \<Rightarrow> 's \<Rightarrow> 'm list \<times> 's" where
  "get_upto get 0 s = ([], s)"
| "get_upto get (Suc n) s =
     (case get s of None \<Rightarrow> ([], s)
      | Some (m, s') \<Rightarrow> (let (ms, s'') = get_upto get n s' in (m # ms, s'')))"

locale fifo =
  fixes inv :: "'s \<Rightarrow> bool"
    and content :: "'s \<Rightarrow> 'm list"
    and room :: "'m \<Rightarrow> 's \<Rightarrow> bool"
    and put :: "'m \<Rightarrow> 's \<Rightarrow> 's option"
    and get :: "'s \<Rightarrow> ('m \<times> 's) option"
  assumes put_room: "inv s \<Longrightarrow> room m s \<Longrightarrow>
      \<exists>s'. put m s = Some s' \<and> inv s' \<and> content s' = content s @ [m]"
    and get_empty: "inv s \<Longrightarrow> content s = [] \<Longrightarrow> get s = None"
    and get_first: "inv s \<Longrightarrow> content s = m # ms \<Longrightarrow>
      \<exists>s'. get s = Some (m, s') \<and> inv s' \<and> content s' = ms"
begin

text \<open>\<open>room_all ms s\<close>: every message of \<open>ms\<close> finds room when its turn comes.\<close>

lemma put_all_content:
  assumes "inv s" and "put_all put ms s = Some s'"
    and "\<And>t m n. inv t \<Longrightarrow> n < length ms \<Longrightarrow> m = ms ! n \<Longrightarrow> content t = content s @ take n ms \<Longrightarrow> room m t"
  shows "inv s' \<and> content s' = content s @ ms"
  using assms
proof (induction ms arbitrary: s)
  case (Cons m ms)
  have "room m s" using Cons.prems(3) [of s 0 m] Cons.prems(1) by simp
  then obtain t where t: "put m s = Some t" "inv t" "content t = content s @ [m]"
    using put_room Cons.prems(1) by blast
  have "inv s' \<and> content s' = content t @ ms"
  proof (rule Cons.IH [OF t(2)])
    show "put_all put ms t = Some s'" using Cons.prems(2) t(1) by simp
  next
    fix u k n assume "inv u" "n < length ms" "k = ms ! n" "content u = content t @ take n ms"
    then show "room k u" using Cons.prems(3) [of u "Suc n" k] t(3) by simp
  qed
  with t(3) show ?case by simp
qed simp

lemma get_upto_content:
  "inv s \<Longrightarrow> fst (get_upto get n s) = take n (content s) \<and> inv (snd (get_upto get n s)) \<and>
   content (snd (get_upto get n s)) = drop n (content s)"
proof (induction n arbitrary: s)
  case (Suc n)
  show ?case
  proof (cases "content s")
    case Nil
    with Suc.prems show ?thesis by (simp add: get_empty)
  next
    case (Cons m ms)
    then obtain t where "get s = Some (m, t)" "inv t" "content t = ms"
      using get_first Suc.prems by blast
    with Cons Suc.IH [of t] show ?thesis by (auto simp: Let_def split: prod.split)
  qed
qed simp

end

section \<open>Tables that refuse duplicates\<close>

text \<open>Register a list of entries in order, ignoring refusals as the callers do.\<close>

fun add_all :: "('v \<Rightarrow> 's \<Rightarrow> 's option) \<Rightarrow> 'v list \<Rightarrow> 's \<Rightarrow> 's" where
  "add_all add [] s = s"
| "add_all add (v # vs) s = add_all add vs (case add v s of None \<Rightarrow> s | Some s' \<Rightarrow> s')"

locale registry =
  fixes lookup :: "'s \<Rightarrow> 'k \<Rightarrow> 'v option"
    and key :: "'v \<Rightarrow> 'k"
    and add :: "'v \<Rightarrow> 's \<Rightarrow> 's option"
  assumes add_taken: "lookup s (key v) \<noteq> None \<Longrightarrow> add v s = None"
    and lookup_add: "add v s = Some s' \<Longrightarrow> lookup s' = (lookup s)(key v \<mapsto> v)"
begin

text \<open>What is registered is never replaced.\<close>

lemma lookup_add_all_old: "lookup s k = Some v \<Longrightarrow> lookup (add_all add vs s) k = Some v"
proof (induction vs arbitrary: s)
  case (Cons v' vs)
  have "lookup (case add v' s of None \<Rightarrow> s | Some s' \<Rightarrow> s') k = Some v"
    using Cons.prems lookup_add [of v' s] add_taken [of s v']
    by (cases "key v' = k") (auto split: option.splits)
  then show ?case using Cons.IH by simp
qed simp

text \<open>Nothing but the registered entries is ever found, each under its own key.\<close>

lemma lookup_add_all_sound:
  "lookup (add_all add vs s) k = Some v \<Longrightarrow> lookup s k = Some v \<or> (v \<in> set vs \<and> key v = k)"
proof (induction vs arbitrary: s)
  case (Cons v' vs)
  from Cons.prems Cons.IH [of "case add v' s of None \<Rightarrow> s | Some s' \<Rightarrow> s'"] lookup_add [of v' s]
  show ?case by (auto split: option.splits if_splits)
qed simp

end

locale open_registry = registry +
  assumes add_free: "lookup s (key v) = None \<Longrightarrow> \<exists>s'. add v s = Some s'"
begin

text \<open>The first registration of a key wins; nothing else is ever found.\<close>

lemma lookup_add_all:
  "lookup (add_all add vs s) k =
     (case lookup s k of Some v \<Rightarrow> Some v | None \<Rightarrow> find (\<lambda>v. key v = k) vs)"
proof (induction vs arbitrary: s)
  case (Cons v' vs)
  show ?case
  proof (cases "lookup s (key v')")
    case None
    then obtain t where t: "add v' s = Some t" using add_free by blast
    then have "lookup t = (lookup s)(key v' \<mapsto> v')" by (rule lookup_add)
    with Cons.IH [of t] t None show ?thesis by (auto split: option.splits)
  next
    case (Some w)
    then have "add v' s = None" by (simp add: add_taken)
    with Cons.IH [of s] Some show ?thesis by (auto split: option.splits)
  qed
qed (simp split: option.splits)

end

end
