(* ===== verification/Bucket_Segment.thy ===== *)
theory Bucket_Segment
  imports Interfaces
begin

text \<open>
  \<open>thirdparty/bucket/src/BucketSegment.cpp\<close>: a ring of bytes in shared memory with one reader
  and many writers. \<open>write_pos\<close> and \<open>read_pos\<close> grow monotonically; the physical offset is the
  position modulo the capacity. A message is a 4-byte length, the payload and padding.
\<close>

section \<open>Header and sizes\<close>

record segment =
  magic :: u32
  capacity :: u64
  write_pos :: u64
  read_pos :: u64
  wake_word :: u32
  drain_word :: u32
  owner_pid :: u32
  ring :: bytes

definition kMagic :: u32 where "kMagic = 0x42434B54"
definition kEntryAlign :: u64 where "kEntryAlign = 8"

definition align_down8 :: "u64 \<Rightarrow> u64" where
  "align_down8 v = v AND NOT (kEntryAlign - 1)"

text \<open>The bytes an entry occupies, as \<open>Write\<close> and \<open>Read\<close> both compute it (\<open>need\<close>, \<open>entry\<close>).\<close>

definition entry_size :: "u32 \<Rightarrow> u64" where
  "entry_size len = align_down8 (ucast len + 4) + kEntryAlign"

definition esz :: "nat \<Rightarrow> nat" where
  "esz n = (n + 4) div 8 * 8 + 8"

lemma align_down8_shift: "align_down8 v = push_bit 3 (drop_bit 3 v)"
proof -
  have m: "(7 :: u64) = mask 3" by (simp add: mask_eq_exp_minus_1)
  show ?thesis unfolding align_down8_def kEntryAlign_def
    by (simp add: m) (rule bit_eqI, auto simp: bit_push_bit_iff bit_drop_bit_eq bit_and_iff bit_not_iff_eq bit_mask_iff)
qed

lemma unat_align_down8: "unat (align_down8 v) = unat v div 8 * 8"
proof -
  have "unat (drop_bit 3 v) = unat v div 8" by (simp add: drop_bit_eq_div unat_div)
  moreover have "unat (8 * drop_bit 3 v) = 8 * unat (drop_bit 3 v) mod 2 ^ 64"
    by (simp add: unat_word_ariths)
  ultimately show ?thesis
    using unat_lt_u64 [of v] by (simp add: align_down8_shift push_bit_eq_mult mult.commute)
qed

lemma unat_entry_size: "unat (entry_size len) = esz (unat len)"
proof -
  have l: "unat len < 4294967296" by (rule unat_lt_u32)
  have "unat (ucast len + 4 :: u64) = unat len + 4"
    using l by (simp add: unat_word_ariths)
  then have "unat (align_down8 (ucast len + 4)) = (unat len + 4) div 8 * 8"
    by (simp add: unat_align_down8)
  moreover from this have "unat (align_down8 (ucast len + 4)) < 2 ^ 33" using l by simp
  ultimately show ?thesis
    by (simp add: entry_size_def esz_def kEntryAlign_def unat_word_ariths)
qed

lemma esz_props: "n + 4 < esz n" "esz n \<le> n + 12" "8 dvd esz n" "8 \<le> esz n"
  by (auto simp: esz_def)

lemma diff_esz_less: "p < w \<Longrightarrow> w - (p + esz n) < w - p"
  using esz_props(4) [of n] by linarith

section \<open>Copying into and out of the ring\<close>

text \<open>\<open>copy_in\<close> of \<open>Write\<close>: up to the end of the ring, then the rest from its start.\<close>

definition copy_in :: "nat \<Rightarrow> nat \<Rightarrow> bytes \<Rightarrow> bytes \<Rightarrow> bytes" where
  "copy_in c at src r =
     (let n = length src; seg = min (c - at) n; r' = mem_write r at (take seg src)
      in if seg < n then mem_write r' 0 (drop seg src) else r')"

text \<open>The two-part read of \<open>Read\<close>.\<close>

definition copy_out :: "nat \<Rightarrow> nat \<Rightarrow> nat \<Rightarrow> bytes \<Rightarrow> bytes" where
  "copy_out c at n r =
     (let seg = min (c - at) n
      in mem_read r at seg @ (if seg < n then mem_read r 0 (n - seg) else []))"

text \<open>The bytes at positions \<open>p, p + 1, ...\<close> seen cyclically.\<close>

definition cyc :: "nat \<Rightarrow> bytes \<Rightarrow> nat \<Rightarrow> nat \<Rightarrow> bytes" where
  "cyc c r p n = map (\<lambda>i. r ! ((p + i) mod c)) [0..<n]"

lemma length_cyc [simp]: "length (cyc c r p n) = n"
  by (simp add: cyc_def)

lemma cyc_add: "cyc c r p (m + n) = cyc c r p m @ cyc c r (p + m) n"
  by (rule nth_equalityI) (auto simp: cyc_def nth_append add.assoc)

lemma length_copy_in:
  "at < c \<Longrightarrow> length src \<le> c \<Longrightarrow> length r = c \<Longrightarrow> length (copy_in c at src r) = c"
  by (auto simp: copy_in_def Let_def length_mem_write min_def)

lemma nth_copy_in:
  assumes "at < c" "length src \<le> c" "length r = c" "j < c"
  shows "copy_in c at src r ! j =
    (if at \<le> j \<and> j < at + length src then src ! (j - at)
     else if j + c < at + length src then src ! (j + c - at) else r ! j)"
  using assms
  by (auto simp: copy_in_def Let_def min_def length_mem_write nth_mem_write not_less add.commute
      intro!: arg_cong [where f = "(!) src"])

lemma mod_window:
  assumes "x \<le> y" "y < x + c"
  shows "(y :: nat) mod c = (if x mod c + (y - x) < c then x mod c + (y - x) else x mod c + (y - x) - c)"
proof -
  have c: "0 < c" using assms by (cases c) auto
  have e: "y mod c = (x mod c + (y - x)) mod c"
    using assms(1) mod_add_left_eq [of x c "y - x"] by simp
  have "x mod c < c" "y - x < c" using c assms by auto
  moreover have "(a + b) mod c = (if a + b < c then a + b else a + b - c)" if "a < c" "b < c" for a b
    using that by (auto simp: le_mod_geq)
  ultimately show ?thesis unfolding e by blast
qed

text \<open>Writing at position \<open>p\<close>: position \<open>p + i\<close> holds the new byte, every other position less
  than a lap away keeps its byte.\<close>

lemma copy_in_at:
  assumes "i < length src" "length src \<le> c" "length r = c"
  shows "copy_in c (p mod c) src r ! ((p + i) mod c) = src ! i"
proof -
  have c: "0 < c" using assms by (cases c) auto
  then have "p mod c < c" "(p + i) mod c < c" by auto
  then show ?thesis
    using assms mod_window [of p "p + i" c] by (auto simp: nth_copy_in)
qed

lemma copy_in_elsewhere:
  assumes "length src \<le> c" "length r = c" "0 < c"
    and "x < p \<and> p + length src \<le> x + c \<or> p + length src \<le> x \<and> x < p + c"
  shows "copy_in c (p mod c) src r ! (x mod c) = r ! (x mod c)"
  using assms(4)
proof
  assume a: "p + length src \<le> x \<and> x < p + c"
  have "p mod c < c" "x mod c < c" using assms(3) by auto
  then show ?thesis using a assms mod_window [of p x c] by (auto simp: nth_copy_in)
next
  assume a: "x < p \<and> p + length src \<le> x + c"
  show ?thesis
  proof (cases "length src = 0")
    case True
    then show ?thesis by (simp add: copy_in_def Let_def)
  next
    case False
    with a have "p < x + c" by linarith
    moreover have "p mod c < c" "x mod c < c" using assms(3) by auto
    ultimately show ?thesis using a assms mod_window [of x p c] by (auto simp: nth_copy_in)
  qed
qed

lemma cyc_copy_in_same:
  assumes "length src \<le> c" "length r = c"
  shows "cyc c (copy_in c (p mod c) src r) p (length src) = src"
  using assms by (intro nth_equalityI) (auto simp: cyc_def copy_in_at)

lemma cyc_copy_in_other:
  assumes "length src \<le> c" "length r = c" "0 < c"
    and "q + n \<le> p \<and> p + length src \<le> q + c \<or> p + length src \<le> q \<and> q + n \<le> p + c"
  shows "cyc c (copy_in c (p mod c) src r) q n = cyc c r q n"
  unfolding cyc_def using assms
  by (intro map_cong refl copy_in_elsewhere) auto

lemma copy_out_nth:
  assumes "at < c" "n \<le> c" "length r = c"
  shows "length (copy_out c at n r) = n"
    and "i < n \<Longrightarrow> copy_out c at n r ! i = r ! (if at + i < c then at + i else at + i - c)"
  using assms
  by (auto simp: copy_out_def Let_def nth_append length_mem_read nth_mem_read min_def add.commute)

lemma copy_out_cyc:
  assumes "n \<le> c" "length r = c" "0 < c"
  shows "copy_out c (p mod c) n r = cyc c r p n"
proof (rule nth_equalityI)
  have at: "p mod c < c" using assms by simp
  note nth = copy_out_nth [OF at assms(1,2)]
  show "length (copy_out c (p mod c) n r) = length (cyc c r p n)" by (simp add: nth)
  fix i assume "i < length (copy_out c (p mod c) n r)"
  then have i: "i < n" by (simp add: nth)
  have "p + i < p + c" using i assms(1) by simp
  then have "(p + i) mod c = (if p mod c + i < c then p mod c + i else p mod c + i - c)"
    using mod_window [of p "p + i" c] by simp
  then show "copy_out c (p mod c) n r ! i = cyc c r p n ! i"
    using nth(2) [OF i] i by (simp add: cyc_def)
qed

section \<open>Waiting\<close>

text \<open>
  A wait ends when its condition holds or its deadline passes. What the waiting thread sees is
  an argument: the values of \<open>read_pos\<close> (for the writer) or of the whole shared state (for the
  reader) at its successive loads before the deadline; the end of the list is the deadline.
\<close>

fun wait_drain_loop :: "u64 \<Rightarrow> u64 \<Rightarrow> u64 list \<Rightarrow> u64 option" where
  "wait_drain_loop cap wpos [] = None"
| "wait_drain_loop cap wpos (r # rs) =
     (if kEntryAlign \<le> cap - (wpos - r) then Some r else wait_drain_loop cap wpos rs)"

text \<open>The first check precedes the first wait. The result is the \<open>read_pos\<close> that let it pass.\<close>

definition wait_drain :: "segment \<Rightarrow> u64 list \<Rightarrow> u64 option" where
  "wait_drain s seen =
     (if kEntryAlign \<le> capacity s - (write_pos s - read_pos s) then Some (read_pos s)
      else wait_drain_loop (capacity s) (write_pos s) seen)"

fun wait_wake :: "u64 \<Rightarrow> segment list \<Rightarrow> segment list option" where
  "wait_wake cur [] = None"
| "wait_wake cur (s # ss) = (if cur < write_pos s then Some ss else wait_wake cur ss)"

lemma wait_wake_shorter: "wait_wake cur ss = Some ss' \<Longrightarrow> length ss' < length ss"
  by (induction cur ss rule: wait_wake.induct) (auto split: if_splits)

section \<open>Write\<close>

text \<open>The outcome of \<open>pthread_mutex_lock\<close> on the robust mutex in the header.\<close>

datatype lock_result = Locked | OwnerDead | LockFailed

text \<open>Length word and payload, in the two shapes the code distinguishes.\<close>

definition store_entry :: "nat \<Rightarrow> nat \<Rightarrow> bytes \<Rightarrow> bytes \<Rightarrow> bytes" where
  "store_entry c off data r =
     (let hdr = le32 (of_nat (length data))
      in if off + 4 \<le> c then copy_in c (off + 4) data (mem_write r off hdr)
         else copy_in c ((off + 4) mod c) data (copy_in c off hdr r))"

definition publish :: "bytes \<Rightarrow> segment \<Rightarrow> segment" where
  "publish data s =
     s\<lparr>ring := store_entry (unat (capacity s)) (unat (write_pos s mod capacity s)) data (ring s),
       write_pos := write_pos s + entry_size (of_nat (length data)),
       wake_word := wake_word s + 1\<rparr>"

definition Write :: "lock_result \<Rightarrow> u64 list \<Rightarrow> bytes \<Rightarrow> segment \<Rightarrow> bool \<times> segment" where
  "Write lk seen data s =
     (if magic s \<noteq> kMagic then (False, s)
      else if capacity s < entry_size (of_nat (length data)) then (False, s)
      else if lk = LockFailed then (False, s)
      else (case wait_drain s seen of
              None \<Rightarrow> (False, s)
            | Some r \<Rightarrow> (True, publish data (s\<lparr>read_pos := r\<rparr>))))"

section \<open>Read\<close>

text \<open>
  One pass of the loop in \<open>Read\<close> over the shared state. \<open>out\<close> receives at most \<open>max\<close> bytes;
  \<open>len\<close> is the length word of the entry, even when it is greater.
\<close>

datatype read_result =
    NoEntry
  | Incomplete
  | Entry bytes u32 u64 segment

definition read_entry :: "u64 \<Rightarrow> u32 \<Rightarrow> segment \<Rightarrow> read_result" where
  "read_entry cur mx s =
     (if write_pos s - cur < 4 then NoEntry
      else
        let c = unat (capacity s);
            hdr_len = (of_nat (le_val (copy_out c (unat (cur mod capacity s)) 4 (ring s))) :: u32);
            entry = entry_size hdr_len
        in if write_pos s - cur < entry then Incomplete
           else
             let off = unat ((cur + 4) mod capacity s);
                 n = min (unat hdr_len) (unat mx)
             in Entry (if hdr_len = 0 then [] else copy_out c off n (ring s)) hdr_len (cur + entry)
                  (s\<lparr>read_pos := cur + entry, drain_word := drain_word s + 1\<rparr>))"

text \<open>
  The whole \<open>Read\<close>: the list holds the shared state at each load of \<open>write_pos\<close>, in order.
  \<open>None\<close> is the \<open>false\<close> of an expired deadline or an incomplete entry.
\<close>

function Read_loop :: "u64 \<Rightarrow> u32 \<Rightarrow> segment list \<Rightarrow> (bytes \<times> u32 \<times> u64 \<times> segment) option" where
  "Read_loop cur mx [] = None"
| "Read_loop cur mx (s # ss) =
     (case read_entry cur mx s of
        Entry data n cur' s' \<Rightarrow> Some (data, n, cur', s')
      | Incomplete \<Rightarrow> None
      | NoEntry \<Rightarrow> (case wait_wake cur ss of None \<Rightarrow> None | Some ss' \<Rightarrow> Read_loop cur mx ss'))"
  by pat_completeness auto
termination
  by (relation "measure (\<lambda>(cur, mx, ss). length ss)") (auto dest: wait_wake_shorter)

definition Read :: "u64 \<Rightarrow> u32 \<Rightarrow> segment list \<Rightarrow> (bytes \<times> u32 \<times> u64 \<times> segment) option" where
  "Read cur mx ss =
     (case ss of [] \<Rightarrow> None
      | s # _ \<Rightarrow> if magic s \<noteq> kMagic then None else Read_loop cur mx ss)"

section \<open>Creating, opening and claiming a segment\<close>

text \<open>
  POSIX shared memory is a name table. The system calls that may fail for reasons outside the
  program (\<open>ftruncate\<close>, \<open>mmap\<close>, \<open>fstat\<close>) are one flag.
\<close>

type_synonym shm = "string \<rightharpoonup> segment"

definition fresh_segment :: "u64 \<Rightarrow> segment" where
  "fresh_segment cap =
     \<lparr>magic = kMagic, capacity = cap, write_pos = 0, read_pos = 0, wake_word = 0,
      drain_word = 0, owner_pid = 0, ring = replicate (unat cap) 0\<rparr>"

definition Create :: "bool \<Rightarrow> cstr \<Rightarrow> u64 \<Rightarrow> shm \<Rightarrow> segment option \<times> shm" where
  "Create os_ok name cap m =
     (case name of
        None \<Rightarrow> (None, m)
      | Some nm \<Rightarrow>
          if take 1 nm \<noteq> ''/'' \<or> cap < 1024 \<or> cap mod kEntryAlign \<noteq> 0 then (None, m)
          else if m nm \<noteq> None then (None, m)
          else if \<not> os_ok then (None, m(nm := None))
          else (Some (fresh_segment cap), m(nm \<mapsto> fresh_segment cap)))"

text \<open>\<open>Open\<close> checks the magic word, the capacity and the size of the mapping.\<close>

definition Open :: "bool \<Rightarrow> string \<Rightarrow> shm \<Rightarrow> segment option" where
  "Open os_ok nm m =
     (case m nm of
        None \<Rightarrow> None
      | Some s \<Rightarrow>
          if \<not> os_ok then None
          else if magic s \<noteq> kMagic \<or> capacity s = 0 \<or> length (ring s) \<noteq> unat (capacity s) then None
          else Some s)"

definition Remove :: "string \<Rightarrow> shm \<Rightarrow> bool \<times> shm" where
  "Remove nm m = (m nm \<noteq> None, m(nm := None))"

text \<open>
  \<open>ClaimOwnership\<close> run by process \<open>me\<close> with read cursor \<open>cur\<close>; \<open>alive\<close> is what \<open>kill(pid, 0)\<close>
  reports. The result is the return value, the segment and the cursor.
\<close>

definition ClaimOwnership ::
  "(u32 \<Rightarrow> bool) \<Rightarrow> lock_result \<Rightarrow> u32 \<Rightarrow> u64 \<Rightarrow> segment \<Rightarrow> bool \<times> segment \<times> u64" where
  "ClaimOwnership alive lk me cur s =
     (if magic s \<noteq> kMagic then (False, s, cur)
      else if lk = LockFailed then (False, s, cur)
      else
        let owner = owner_pid s;
            owner_dead = (owner \<noteq> 0 \<and> owner \<noteq> me \<and> \<not> alive owner)
        in if owner = 0 \<or> owner_dead
           then (True, s\<lparr>write_pos := 0, read_pos := 0, owner_pid := me\<rparr>, 0)
           else (owner = me, s, cur))"

end
