(* ===== verification/Bucket_Queue.thy ===== *)
theory Bucket_Queue
  imports Bucket_Segment
begin

text \<open>
  The ring as a queue of messages: what it holds between \<open>read_pos\<close> and \<open>write_pos\<close>, the
  invariant every operation keeps while a writer finds room for its whole entry, and what
  happens when it does not.
\<close>

section \<open>The messages a ring holds\<close>

definition word_at :: "nat \<Rightarrow> bytes \<Rightarrow> nat \<Rightarrow> nat" where
  "word_at c r p = le_val (cyc c r p 4)"

function entries :: "nat \<Rightarrow> bytes \<Rightarrow> nat \<Rightarrow> nat \<Rightarrow> bytes list" where
  "entries c r p w =
     (if w \<le> p then []
      else cyc c r (p + 4) (word_at c r p) # entries c r (p + esz (word_at c r p)) w)"
  by pat_completeness auto
termination
  by (relation "measure (\<lambda>(c, r, p, w). w - p)") (auto intro: diff_esz_less)

function wf_entries :: "nat \<Rightarrow> bytes \<Rightarrow> nat \<Rightarrow> nat \<Rightarrow> bool" where
  "wf_entries c r p w =
     (if w \<le> p then p = w
      else p + esz (word_at c r p) \<le> w \<and> wf_entries c r (p + esz (word_at c r p)) w)"
  by pat_completeness auto
termination
  by (relation "measure (\<lambda>(c, r, p, w). w - p)") (auto intro: diff_esz_less)

declare entries.simps [simp del] wf_entries.simps [simp del]

lemma entries_done: "w \<le> p \<Longrightarrow> entries c r p w = []"
  by (simp add: entries.simps)

lemma entries_step: "p < w \<Longrightarrow>
    entries c r p w = cyc c r (p + 4) (word_at c r p) # entries c r (p + esz (word_at c r p)) w"
  by (simp add: entries.simps [of c r p])

lemma wf_entries_done: "w \<le> p \<Longrightarrow> wf_entries c r p w \<longleftrightarrow> p = w"
  by (simp add: wf_entries.simps)

lemma wf_entries_step: "p < w \<Longrightarrow>
    wf_entries c r p w \<longleftrightarrow> p + esz (word_at c r p) \<le> w \<and> wf_entries c r (p + esz (word_at c r p)) w"
  by (simp add: wf_entries.simps [of c r p])

definition contents :: "segment \<Rightarrow> bytes list" where
  "contents s = entries (unat (capacity s)) (ring s) (unat (read_pos s)) (unat (write_pos s))"

definition used :: "segment \<Rightarrow> nat" where
  "used s = unat (write_pos s) - unat (read_pos s)"

definition seg_inv :: "segment \<Rightarrow> bool" where
  "seg_inv s \<longleftrightarrow> magic s = kMagic \<and> length (ring s) = unat (capacity s) \<and>
     1024 \<le> unat (capacity s) \<and> 8 dvd unat (capacity s) \<and>
     8 dvd unat (read_pos s) \<and> 8 dvd unat (write_pos s) \<and>
     unat (read_pos s) \<le> unat (write_pos s) \<and> used s \<le> unat (capacity s) \<and>
     wf_entries (unat (capacity s)) (ring s) (unat (read_pos s)) (unat (write_pos s))"

text \<open>The whole entry of \<open>m\<close> fits into the free bytes (and the 64-bit position does not wrap).\<close>

definition room :: "bytes \<Rightarrow> segment \<Rightarrow> bool" where
  "room m s \<longleftrightarrow> length m < 2 ^ 32 \<and> used s + esz (length m) \<le> unat (capacity s) \<and>
     unat (write_pos s) + esz (length m) < 2 ^ 64"

lemma entries_cong:
  assumes "wf_entries c r p w" and "\<And>x. p \<le> x \<Longrightarrow> x < w \<Longrightarrow> r' ! (x mod c) = r ! (x mod c)"
  shows "entries c r' p w = entries c r p w \<and> wf_entries c r' p w"
  using assms
proof (induction c r p w rule: entries.induct)
  case (1 c r p w)
  show ?case
  proof (cases "w \<le> p")
    case True
    with "1.prems" show ?thesis by (simp add: entries.simps wf_entries.simps)
  next
    case False
    let ?n = "word_at c r p"
    have e: "p + esz ?n \<le> w" "wf_entries c r (p + esz ?n) w"
      using "1.prems"(1) False by (simp_all add: wf_entries.simps [of c r p])
    have z: "?n + 4 < esz ?n" by (rule esz_props)
    have h: "cyc c r' p 4 = cyc c r p 4"
      unfolding cyc_def using z e(1) by (intro map_cong refl "1.prems"(2)) auto
    have b: "cyc c r' (p + 4) ?n = cyc c r (p + 4) ?n"
      unfolding cyc_def using z e(1) by (intro map_cong refl "1.prems"(2)) auto
    have "entries c r' (p + esz ?n) w = entries c r (p + esz ?n) w \<and> wf_entries c r' (p + esz ?n) w"
      by (rule "1.IH" [OF False e(2)]) (use "1.prems"(2) in simp)
    with h b e(1) False show ?thesis
      by (simp add: entries.simps [of c _ p] wf_entries.simps [of c _ p] word_at_def)
  qed
qed

lemma entries_snoc:
  assumes "wf_entries c r p w" and "w < w'" and "w' = w + esz (word_at c r w)"
  shows "wf_entries c r p w' \<and> entries c r p w' = entries c r p w @ [cyc c r (w + 4) (word_at c r w)]"
  using assms
proof (induction c r p w rule: entries.induct)
  case (1 c r p w)
  show ?case
  proof (cases "w \<le> p")
    case True
    with "1.prems" have "p = w" by (simp add: wf_entries.simps)
    with "1.prems"(2,3) show ?thesis
      by (simp add: entries_done wf_entries_done entries_step [of w] wf_entries_step [of w])
  next
    case False
    let ?n = "word_at c r p"
    have e: "p + esz ?n \<le> w" "wf_entries c r (p + esz ?n) w"
      using "1.prems"(1) False by (simp_all add: wf_entries.simps [of c r p])
    from "1.IH" [OF False e(2) "1.prems"(2,3)] e(1) False "1.prems"(2) show ?thesis
      by (simp add: entries.simps [of c r p] wf_entries.simps [of c r p])
  qed
qed

lemma entries_first:
  assumes "wf_entries c r p w" "p < w"
  shows "entries c r p w = cyc c r (p + 4) (word_at c r p) # entries c r (p + esz (word_at c r p)) w"
    and "p + esz (word_at c r p) \<le> w" and "wf_entries c r (p + esz (word_at c r p)) w"
  using assms by (simp_all add: entries.simps [of c r p] wf_entries.simps [of c r p])

section \<open>Storing one entry\<close>

text \<open>Positions are multiples of 8, so the length word never straddles the end of the ring.\<close>

lemma header_fits:
  assumes "8 dvd w" "8 dvd c" "0 < (c :: nat)"
  shows "w mod c + 8 \<le> c"
proof -
  have "8 dvd w mod c" using assms(1,2) by (simp add: dvd_mod)
  moreover have "w mod c < c" using assms(3) by simp
  ultimately show ?thesis using assms(2) by (elim dvdE) auto
qed

lemma store_entry_copies:
  assumes "8 dvd w" "8 dvd c" "0 < c" "length r = c"
  shows "store_entry c (w mod c) m r =
    copy_in c ((w + 4) mod c) m (copy_in c (w mod c) (le32 (of_nat (length m))) r)"
proof -
  have f: "w mod c + 8 \<le> c" using header_fits assms by blast
  then have "(w + 4) mod c = w mod c + 4"
    using mod_window [of w "w + 4" c] by auto
  moreover have "copy_in c (w mod c) (le32 (of_nat (length m))) r = mem_write r (w mod c) (le32 (of_nat (length m)))"
    using f by (simp add: copy_in_def Let_def)
  ultimately show ?thesis using f by (simp add: store_entry_def Let_def)
qed

lemma store_entry_effect:
  assumes "8 dvd w" "8 dvd c" "0 < c" "length r = c" "4 + length m \<le> c" "length m < 2 ^ 32"
  defines "r' \<equiv> store_entry c (w mod c) m r"
  shows "length r' = c" and "word_at c r' w = length m" and "cyc c r' (w + 4) (length m) = m"
    and "\<And>x. x < w \<Longrightarrow> w + 4 + length m \<le> x + c \<Longrightarrow> r' ! (x mod c) = r ! (x mod c)"
proof -
  let ?h = "le32 (of_nat (length m))"
  let ?r1 = "copy_in c (w mod c) ?h r"
  have r': "r' = copy_in c ((w + 4) mod c) m ?r1"
    unfolding r'_def using assms by (intro store_entry_copies) auto
  have l1: "length ?r1 = c" using assms by (intro length_copy_in) auto
  show "length r' = c" unfolding r' using assms l1 by (intro length_copy_in) auto
  show "cyc c r' (w + 4) (length m) = m"
    unfolding r' using assms l1 by (intro cyc_copy_in_same) auto
  have "cyc c r' w 4 = cyc c ?r1 w 4"
    unfolding r' using assms l1 by (intro cyc_copy_in_other) auto
  moreover have "cyc c ?r1 w 4 = ?h"
    using cyc_copy_in_same [of ?h c r w] assms by simp
  ultimately show "word_at c r' w = length m"
    using assms(6) by (simp add: word_at_def le_val_le32 unat_of_nat take_bit_nat_eq_self)
  fix x assume x: "x < w" "w + 4 + length m \<le> x + c"
  have "r' ! (x mod c) = ?r1 ! (x mod c)"
    unfolding r' using x assms l1 by (intro copy_in_elsewhere) auto
  also have "\<dots> = r ! (x mod c)"
    using x assms copy_in_elsewhere [of ?h c r x w] by simp
  finally show "r' ! (x mod c) = r ! (x mod c)" .
qed

section \<open>Write appends, Read takes the first\<close>

lemma unat_of_nat_len: "n < 2 ^ 32 \<Longrightarrow> unat (of_nat n :: u32) = n"
  by (simp add: unat_of_nat take_bit_nat_eq_self)

lemma free_word:
  assumes "seg_inv s"
  shows "unat (write_pos s - read_pos s) = used s"
    and "unat (capacity s - (write_pos s - read_pos s)) = unat (capacity s) - used s"
proof -
  show u: "unat (write_pos s - read_pos s) = used s"
    using assms by (simp add: seg_inv_def used_def unat_sub_le)
  show "unat (capacity s - (write_pos s - read_pos s)) = unat (capacity s) - used s"
    using assms u by (simp add: seg_inv_def unat_sub_le)
qed

text \<open>The wake-up words are not part of what the ring holds.\<close>

lemma seg_inv_words [simp]:
  "seg_inv (s\<lparr>wake_word := x\<rparr>) = seg_inv s" "contents (s\<lparr>wake_word := x\<rparr>) = contents s"
  "room m (s\<lparr>wake_word := x\<rparr>) = room m s"
  "seg_inv (s\<lparr>drain_word := x\<rparr>) = seg_inv s" "contents (s\<lparr>drain_word := x\<rparr>) = contents s"
  "room m (s\<lparr>drain_word := x\<rparr>) = room m s"
  by (simp_all add: seg_inv_def contents_def room_def used_def)

text \<open>Bytes outside the unread part do not matter.\<close>

lemma ring_kept:
  assumes "seg_inv s" "length r = unat (capacity s)"
    and "\<And>x. unat (read_pos s) \<le> x \<Longrightarrow> x < unat (write_pos s) \<Longrightarrow>
      r ! (x mod unat (capacity s)) = ring s ! (x mod unat (capacity s))"
  shows "seg_inv (s\<lparr>ring := r\<rparr>)" "contents (s\<lparr>ring := r\<rparr>) = contents s"
    "room m (s\<lparr>ring := r\<rparr>) = room m s"
proof -
  let ?c = "unat (capacity s)" and ?w = "unat (write_pos s)" and ?p = "unat (read_pos s)"
  have "entries ?c r ?p ?w = entries ?c (ring s) ?p ?w \<and> wf_entries ?c r ?p ?w"
    by (rule entries_cong) (use assms in \<open>auto simp: seg_inv_def\<close>)
  then show "seg_inv (s\<lparr>ring := r\<rparr>)" "contents (s\<lparr>ring := r\<rparr>) = contents s" "room m (s\<lparr>ring := r\<rparr>) = room m s"
    using assms(1,2) by (simp_all add: seg_inv_def contents_def room_def used_def)
qed

text \<open>An entry that lies complete behind the write position becomes a message when the position moves over it.\<close>

lemma published:
  assumes inv: "seg_inv s" and room: "room m s"
    and stored: "cyc (unat (capacity s)) (ring s) (unat (write_pos s)) (4 + length m) = le32 (of_nat (length m)) @ m"
  defines "s' \<equiv> s\<lparr>write_pos := write_pos s + entry_size (of_nat (length m))\<rparr>"
  shows "seg_inv s'" "contents s' = contents s @ [m]" "unat (write_pos s') = unat (write_pos s) + esz (length m)"
proof -
  let ?c = "unat (capacity s)" and ?w = "unat (write_pos s)" and ?p = "unat (read_pos s)"
  have i: "8 dvd ?w" "?p \<le> ?w" "wf_entries ?c (ring s) ?p ?w" using inv by (auto simp: seg_inv_def)
  have m: "length m < 2 ^ 32" "?w - ?p + esz (length m) \<le> ?c" "?w + esz (length m) < 2 ^ 64"
    using room by (simp_all add: room_def used_def)
  have z: "length m + 4 < esz (length m)" "8 dvd esz (length m)" by (rule esz_props)+
  show w': "unat (write_pos s') = ?w + esz (length m)"
    using m by (simp add: s'_def unat_add_u64 unat_entry_size unat_of_nat_len)
  have "cyc ?c (ring s) ?w 4 = le32 (of_nat (length m))" "cyc ?c (ring s) (?w + 4) (length m) = m"
    using stored by (simp_all add: cyc_add append_eq_append_conv)
  then have w: "word_at ?c (ring s) ?w = length m" "cyc ?c (ring s) (?w + 4) (length m) = m"
    using m(1) by (simp_all add: word_at_def le_val_le32 unat_of_nat_len)
  have e: "wf_entries ?c (ring s) ?p (?w + esz (length m)) \<and>
      entries ?c (ring s) ?p (?w + esz (length m)) = entries ?c (ring s) ?p ?w @ [m]"
    using entries_snoc [OF i(3), of "?w + esz (length m)", unfolded w] z(1) by linarith
  have f: "ring s' = ring s" "read_pos s' = read_pos s" "capacity s' = capacity s" "magic s' = magic s"
    by (simp_all add: s'_def)
  have "8 dvd ?w + esz (length m)" "?p \<le> ?w + esz (length m)" "?w + esz (length m) - ?p \<le> ?c"
    using i(1,2) z(2) m(2) by auto
  moreover have "magic s = kMagic" "length (ring s) = ?c" "1024 \<le> ?c" "8 dvd ?c" "8 dvd ?p"
    using inv by (auto simp: seg_inv_def)
  ultimately show "seg_inv s'" using e unfolding seg_inv_def used_def f w' by (intro conjI) simp_all
  show "contents s' = contents s @ [m]" using e by (simp only: contents_def f w')
qed

lemma publish_inv:
  assumes inv: "seg_inv s" and room: "room m s"
  shows "seg_inv (publish m s) \<and> contents (publish m s) = contents s @ [m]"
proof -
  let ?c = "unat (capacity s)" and ?w = "unat (write_pos s)"
  let ?r' = "store_entry ?c (?w mod ?c) m (ring s)" and ?t = "s\<lparr>ring := store_entry ?c (?w mod ?c) m (ring s)\<rparr>"
  have i: "8 dvd ?w" "8 dvd ?c" "0 < ?c" "length (ring s) = ?c" using inv by (auto simp: seg_inv_def)
  have m: "length m < 2 ^ 32" "?w - unat (read_pos s) + esz (length m) \<le> ?c"
    using room by (simp_all add: room_def used_def)
  have z: "length m + 4 < esz (length m)" by (rule esz_props)
  note st = store_entry_effect [OF i, of m]
  have fit: "4 + length m \<le> ?c" using z m by linarith
  have kept: "seg_inv ?t" "contents ?t = contents s" "room m ?t = room m s"
    by (rule ring_kept [OF inv st(1) [OF fit m(1)]], rule st(4) [OF fit m(1)], use z m in simp_all)+
  have word: "cyc ?c ?r' ?w 4 = le32 (of_nat (length m))"
    using st(2) [OF fit m(1)] le_bytes_le_val [of "cyc ?c ?r' ?w 4" 4] m(1)
    by (simp add: word_at_def le32_def unat_of_nat_len)
  have "cyc (unat (capacity ?t)) (ring ?t) (unat (write_pos ?t)) (4 + length m) = le32 (of_nat (length m)) @ m"
    using word st(3) [OF fit m(1)] by (simp add: cyc_add)
  then have "seg_inv (?t\<lparr>write_pos := write_pos s + entry_size (of_nat (length m))\<rparr>) \<and>
      contents (?t\<lparr>write_pos := write_pos s + entry_size (of_nat (length m))\<rparr>) = contents s @ [m]"
    using published [of ?t m] kept room by simp
  moreover have "publish m s =
      (?t\<lparr>write_pos := write_pos s + entry_size (of_nat (length m))\<rparr>)\<lparr>wake_word := wake_word s + 1\<rparr>"
    by (simp add: publish_def unat_mod)
  ultimately show ?thesis by (simp only: seg_inv_words simp_thms)
qed

lemma room_Write:
  assumes inv: "seg_inv s" and room: "room m s" and lk: "lk \<noteq> LockFailed"
  shows "Write lk seen m s = (True, publish m s)"
proof -
  have z: "8 \<le> esz (length m)" by (rule esz_props)
  have m: "length m < 2 ^ 32" "used s + esz (length m) \<le> unat (capacity s)"
    using room by (simp_all add: room_def)
  have "\<not> capacity s < entry_size (of_nat (length m))"
    using m by (simp add: word_less_nat_alt unat_entry_size unat_of_nat_len)
  moreover have "kEntryAlign \<le> capacity s - (write_pos s - read_pos s)"
    using m z free_word [OF inv] by (simp add: kEntryAlign_def word_le_nat_alt)
  ultimately show ?thesis
    using inv lk by (simp add: Write_def seg_inv_def wait_drain_def)
qed

lemma take_cyc: "n \<le> k \<Longrightarrow> cyc c r p n = take n (cyc c r p k)"
  by (simp add: cyc_def take_map)

lemma word_at_bound: "word_at c r p < 2 ^ 32"
  using le_val_bound [of "cyc c r p 4"] by (simp add: word_at_def)

lemma seg_inv_empty: "seg_inv s \<Longrightarrow> contents s = [] \<longleftrightarrow> read_pos s = write_pos s"
  by (auto simp: contents_def seg_inv_def entries_done entries_step word_unat_eq_iff
      dest: le_neq_implies_less)

lemma read_entry_empty: "seg_inv s \<Longrightarrow> contents s = [] \<Longrightarrow> read_entry (read_pos s) mx s = NoEntry"
  using seg_inv_empty by (simp add: read_entry_def)

text \<open>Moving the read position over the first entry takes the first message out.\<close>

lemma consumed:
  assumes inv: "seg_inv s" and ne: "read_pos s \<noteq> write_pos s"
    and n: "n = word_at (unat (capacity s)) (ring s) (unat (read_pos s))"
    and s': "s' = s\<lparr>read_pos := read_pos s + entry_size (of_nat n)\<rparr>"
  shows "seg_inv s'" "contents s = cyc (unat (capacity s)) (ring s) (unat (read_pos s) + 4) n # contents s'"
    "unat (read_pos s') = unat (read_pos s) + esz n" "unat (read_pos s) + esz n \<le> unat (write_pos s)"
proof -
  let ?c = "unat (capacity s)" and ?w = "unat (write_pos s)" and ?p = "unat (read_pos s)"
  have i: "8 dvd ?p" "wf_entries ?c (ring s) ?p ?w" "?w - ?p \<le> ?c" "?p \<le> ?w" "?p \<noteq> ?w"
    using inv ne by (auto simp: seg_inv_def used_def word_unat_eq_iff)
  then have pw: "?p < ?w" by simp
  note f = entries_first [OF i(2) pw, folded n]
  have es: "unat (entry_size (of_nat n :: u32)) = esz n"
    using word_at_bound n by (simp only: unat_entry_size unat_of_nat_len)
  show p': "unat (read_pos s') = ?p + esz n"
    using es f(2) unat_lt_u64 [of "write_pos s"] unfolding s' by (simp, subst unat_add_u64) auto
  have g: "ring s' = ring s" "write_pos s' = write_pos s" "capacity s' = capacity s" "magic s' = magic s"
    by (simp_all add: s')
  have "8 dvd ?p + esz n" "?w - (?p + esz n) \<le> ?c" using i(1,3) esz_props(3) [of n] by auto
  then show "seg_inv s'" using inv f(2,3) unfolding seg_inv_def used_def g p' by simp
  show "contents s = cyc ?c (ring s) (?p + 4) n # contents s'" using f(1) by (simp only: contents_def g p')
  show "?p + esz n \<le> ?w" by (rule f(2))
qed

lemma read_entry_first:
  assumes inv: "seg_inv s" and c: "contents s = m # ms"
  shows "\<exists>s'. read_entry (read_pos s) mx s =
      Entry (take (unat mx) m) (of_nat (length m)) (read_pos s') s' \<and> seg_inv s' \<and> contents s' = ms
      \<and> length m < 2 ^ 32 \<and> write_pos s' = write_pos s \<and> capacity s' = capacity s
      \<and> ring s' = ring s"
proof -
  let ?c = "unat (capacity s)" and ?w = "unat (write_pos s)" and ?p = "unat (read_pos s)"
  define n where "n = word_at ?c (ring s) ?p"
  let ?t = "s\<lparr>read_pos := read_pos s + entry_size (of_nat n)\<rparr>"
  let ?s' = "s\<lparr>read_pos := read_pos s + entry_size (of_nat n), drain_word := drain_word s + 1\<rparr>"
  have i: "8 dvd ?c" "0 < ?c" "length (ring s) = ?c" using inv by (auto simp: seg_inv_def)
  have "read_pos s \<noteq> write_pos s" using c seg_inv_empty [OF inv] by auto
  note t = consumed [OF inv this n_def refl]
  have m: "m = cyc ?c (ring s) (?p + 4) n" "ms = contents ?t" using c t(2) by simp_all
  have n: "length m = n" using m(1) by simp
  have nb: "n < 2 ^ 32" unfolding n_def by (rule word_at_bound)
  have z: "n + 4 < esz n" "n + 4 \<le> ?c"
    using esz_props(1) [of n] t(4) inv by (auto simp: seg_inv_def used_def)
  have es: "unat (entry_size (of_nat n)) = esz n" using nb by (simp only: unat_entry_size unat_of_nat_len)
  have d: "unat (write_pos s - read_pos s) = ?w - ?p" using free_word [OF inv] by (simp add: used_def)
  have d4: "\<not> write_pos s - read_pos s < 4" "\<not> write_pos s - read_pos s < entry_size (of_nat n)"
    using d es t(4) z(1) by (simp_all add: word_less_nat_alt)
  have h: "copy_out ?c (unat (read_pos s mod capacity s)) 4 (ring s) = cyc ?c (ring s) ?p 4"
    using i z(2) by (simp add: unat_mod copy_out_cyc)
  have p4: "unat (read_pos s + 4) = ?p + 4"
    using t(4) z unat_lt_u64 [of "write_pos s"] by (subst unat_add_u64) auto
  have body: "copy_out ?c (unat ((read_pos s + 4) mod capacity s)) k (ring s) = take k m" if "k \<le> n" for k
    unfolding m(1) using that i z(2) p4 by (simp add: unat_mod copy_out_cyc take_cyc [of k n])
  have "(if (of_nat n :: u32) = 0 then [] else
      copy_out ?c (unat ((read_pos s + 4) mod capacity s)) (min n (unat mx)) (ring s)) = take (unat mx) m"
    using body [of "min n (unat mx)"] nb n by (auto simp: word_unat_eq_iff unat_of_nat_len min_def)
  then have "read_entry (read_pos s) mx s = Entry (take (unat mx) m) (of_nat (length m)) (read_pos ?s') ?s'"
    using d4 nb by (simp add: read_entry_def Let_def h n unat_of_nat_len n_def [symmetric] flip: word_at_def)
  moreover have "?s' = ?t\<lparr>drain_word := drain_word s + 1\<rparr>" by simp
  then have "seg_inv ?s'" "contents ?s' = ms" using t(1) m(2) by (simp_all only: seg_inv_words)
  ultimately show ?thesis using nb n by (intro exI [of _ ?s']) simp
qed

section \<open>The ring as an ordered channel\<close>

text \<open>A writer that finds room at once, and a reader that finds a message at once.\<close>

definition ring_put :: "bytes \<Rightarrow> segment \<Rightarrow> segment option" where
  "ring_put m s = (case Write Locked [] m s of (ok, s') \<Rightarrow> if ok then Some s' else None)"

definition ring_get :: "u32 \<Rightarrow> segment \<Rightarrow> (bytes \<times> segment) option" where
  "ring_get mx s = (case Read (read_pos s) mx [s] of None \<Rightarrow> None | Some (m, n, cur, s') \<Rightarrow> Some (m, s'))"

definition seg_inv_max :: "u32 \<Rightarrow> segment \<Rightarrow> bool" where
  "seg_inv_max mx s \<longleftrightarrow> seg_inv s \<and> (\<forall>m \<in> set (contents s). length m \<le> unat mx)"

definition room_max :: "u32 \<Rightarrow> bytes \<Rightarrow> segment \<Rightarrow> bool" where
  "room_max mx m s \<longleftrightarrow> room m s \<and> length m \<le> unat mx"

interpretation ring_q: fifo "seg_inv_max mx" contents "room_max mx" ring_put "ring_get mx" for mx
proof
  fix s m assume "seg_inv_max mx s" "room_max mx m s"
  then show "\<exists>s'. ring_put m s = Some s' \<and> seg_inv_max mx s' \<and> contents s' = contents s @ [m]"
    using publish_inv [of s m]
    by (auto simp: seg_inv_max_def room_max_def ring_put_def room_Write)
next
  fix s assume "seg_inv_max mx s" "contents s = []"
  then show "ring_get mx s = None"
    by (auto simp: seg_inv_max_def ring_get_def Read_def read_entry_empty)
next
  fix s m ms assume a: "seg_inv_max mx s" "contents s = m # ms"
  then have "seg_inv s" "magic s = kMagic" "length m \<le> unat mx" "\<forall>x \<in> set ms. length x \<le> unat mx"
    by (auto simp: seg_inv_max_def seg_inv_def)
  then show "\<exists>s'. ring_get mx s = Some (m, s') \<and> seg_inv_max mx s' \<and> contents s' = ms"
    using read_entry_first [of s m ms mx] a(2)
    by (auto simp: seg_inv_max_def ring_get_def Read_def)
qed

lemma used_publish:
  assumes "seg_inv s" "room m s"
  shows "used (publish m s) = used s + esz (length m)"
    and "unat (write_pos (publish m s)) = unat (write_pos s) + esz (length m)"
proof -
  have "unat (write_pos s + entry_size (of_nat (length m))) = unat (write_pos s) + esz (length m)"
    using assms by (simp add: room_def unat_add_u64 unat_entry_size unat_of_nat_len)
  then show "used (publish m s) = used s + esz (length m)"
    and "unat (write_pos (publish m s)) = unat (write_pos s) + esz (length m)"
    using assms by (auto simp: publish_def used_def seg_inv_def)
qed

lemma publish_fields [simp]:
  "capacity (publish m s) = capacity s" "magic (publish m s) = magic s"
  "owner_pid (publish m s) = owner_pid s" "read_pos (publish m s) = read_pos s"
  by (simp_all add: publish_def)

lemma put_all_ring:
  assumes "seg_inv_max mx s" "\<forall>m \<in> set ms. length m \<le> unat mx"
    and "used s + (\<Sum>m\<leftarrow>ms. esz (length m)) \<le> unat (capacity s)"
    and "unat (write_pos s) + (\<Sum>m\<leftarrow>ms. esz (length m)) < 2 ^ 64"
  shows "\<exists>s'. put_all ring_put ms s = Some s' \<and> seg_inv_max mx s' \<and> contents s' = contents s @ ms"
  using assms
proof (induction ms arbitrary: s)
  case (Cons m ms)
  have r: "room_max mx m s"
    using Cons.prems unat_lt_u32 [of mx] by (auto simp: room_max_def room_def)
  then have inv: "seg_inv s" "room m s" using Cons.prems(1) by (auto simp: seg_inv_max_def room_max_def)
  have put: "ring_put m s = Some (publish m s)" using inv by (simp add: ring_put_def room_Write)
  have i': "seg_inv_max mx (publish m s)" "contents (publish m s) = contents s @ [m]"
    using ring_q.put_room [OF Cons.prems(1) r] put by auto
  have "\<exists>s'. put_all ring_put ms (publish m s) = Some s' \<and> seg_inv_max mx s' \<and>
      contents s' = contents (publish m s) @ ms"
    using Cons.prems inv by (intro Cons.IH i'(1)) (auto simp: used_publish)
  then show ?case using put i'(2) by auto
qed simp

section \<open>Properties\<close>

text \<open>C3: Messages that fit into the free part of the ring come out of it whole and in the order
  they were written, after the messages that were already unread: writing \<open>ms\<close> one after
  another and then reading as many messages as are stored gives exactly the unread messages
  followed by \<open>ms\<close>.\<close>

theorem ring_delivers_in_order:
  assumes "seg_inv_max mx s" "\<forall>m \<in> set ms. length m \<le> unat mx"
    and "used s + (\<Sum>m\<leftarrow>ms. esz (length m)) \<le> unat (capacity s)"
    and "unat (write_pos s) + (\<Sum>m\<leftarrow>ms. esz (length m)) < 2 ^ 64"
  shows "\<exists>s'. put_all ring_put ms s = Some s' \<and>
     fst (get_upto (ring_get mx) (length (contents s) + length ms) s') = contents s @ ms"
proof -
  obtain s' where s': "put_all ring_put ms s = Some s'" "seg_inv_max mx s'" "contents s' = contents s @ ms"
    using put_all_ring [OF assms] by blast
  then show ?thesis
    using ring_q.get_upto_content [OF s'(2), of "length (contents s) + length ms"] by auto
qed

lemma seg_inv_fresh:
  assumes "1024 \<le> unat cap" "8 dvd unat cap"
  shows "seg_inv (fresh_segment cap) \<and> contents (fresh_segment cap) = []"
  using assms by (simp add: seg_inv_def contents_def fresh_segment_def used_def entries_done wf_entries_done)

theorem ring_delivers_in_order_witness:
  "\<exists>s'. put_all ring_put [[1, 2, 3], [], [4]] (fresh_segment 1024) = Some s' \<and>
     fst (get_upto (ring_get 65536) 3 s') = [[1, 2, 3], [], [4]]"
proof -
  have f: "seg_inv_max 65536 (fresh_segment 1024)" "contents (fresh_segment 1024) = []"
    using seg_inv_fresh [of 1024] by (auto simp: seg_inv_max_def)
  have "\<exists>s'. put_all ring_put [[1, 2, 3], [], [4]] (fresh_segment 1024) = Some s' \<and>
     fst (get_upto (ring_get 65536) (length (contents (fresh_segment 1024)) + length [[1, 2, 3], [], [4 :: u8]]) s')
       = contents (fresh_segment 1024) @ [[1, 2, 3], [], [4]]"
    by (rule ring_delivers_in_order [OF f(1)]) (simp_all add: fresh_segment_def used_def esz_def)
  then show ?thesis
    by (simp add: f(2) numeral_3_eq_3 del: get_upto.simps put_all.simps)
qed

text \<open>\<open>Write\<close> refines enqueueing: when the whole entry fits, it returns true, keeps the
  invariant and appends exactly the message, whatever the state of the mutex allows (fresh or
  taken over from a dead writer); when it returns false the segment is untouched.\<close>

theorem Write_refines_enqueue:
  "(seg_inv s \<and> room m s \<and> lk \<noteq> LockFailed \<longrightarrow>
      fst (Write lk seen m s) \<and> seg_inv (snd (Write lk seen m s)) \<and>
      contents (snd (Write lk seen m s)) = contents s @ [m]) \<and>
   (\<not> fst (Write lk seen m s) \<longrightarrow> snd (Write lk seen m s) = s)"
proof
  show "seg_inv s \<and> room m s \<and> lk \<noteq> LockFailed \<longrightarrow>
      fst (Write lk seen m s) \<and> seg_inv (snd (Write lk seen m s)) \<and>
      contents (snd (Write lk seen m s)) = contents s @ [m]"
    using publish_inv room_Write by simp
  show "\<not> fst (Write lk seen m s) \<longrightarrow> snd (Write lk seen m s) = s"
    by (simp add: Write_def split: option.split)
qed

theorem Write_refines_enqueue_witness:
  "fst (Write OwnerDead [] [7, 8] (fresh_segment 1024)) \<and>
   contents (snd (Write OwnerDead [] [7, 8] (fresh_segment 1024))) = [[7, 8]]"
proof -
  have "seg_inv (fresh_segment 1024)" "contents (fresh_segment 1024) = []"
    using seg_inv_fresh [of 1024] by auto
  moreover have "room [7, 8] (fresh_segment 1024)"
    by (simp add: room_def fresh_segment_def used_def esz_def)
  ultimately show ?thesis
    using Write_refines_enqueue [of "fresh_segment 1024" "[7, 8]" OwnerDead "[]"] by simp
qed

text \<open>\<open>Read\<close> refines dequeueing: with a message present it returns the first unread message
  cut to the reader's buffer together with the true length, and consumes that message even
  when it was cut; with nothing present and no publication before the deadline it returns
  false.\<close>

theorem Read_refines_dequeue:
  assumes "seg_inv s"
  shows "case contents s of
     [] \<Rightarrow> Read (read_pos s) mx [s] = None
   | m # ms \<Rightarrow> (\<exists>s'. Read (read_pos s) mx (s # later) =
          Some (take (unat mx) m, of_nat (length m), read_pos s', s') \<and>
        seg_inv s' \<and> contents s' = ms)"
proof (cases "contents s")
  case Nil
  with assms show ?thesis by (simp add: Read_def read_entry_empty)
next
  case (Cons m ms)
  then obtain s' where "read_entry (read_pos s) mx s =
      Entry (take (unat mx) m) (of_nat (length m)) (read_pos s') s'" "seg_inv s'" "contents s' = ms"
    using read_entry_first [OF assms Cons, of mx] by blast
  with Cons assms show ?thesis by (simp add: Read_def seg_inv_def)
qed

theorem Read_refines_dequeue_witness:
  "\<exists>s'. Read 0 2 [publish [7, 8, 9] (fresh_segment 1024)] = Some ([7, 8], 3, read_pos s', s') \<and>
     contents s' = []"
proof -
  have f: "seg_inv (fresh_segment 1024)" "contents (fresh_segment 1024) = []"
    using seg_inv_fresh [of 1024] by auto
  have "room [7, 8, 9] (fresh_segment 1024)"
    by (simp add: room_def fresh_segment_def used_def esz_def)
  then have p: "seg_inv (publish [7, 8, 9] (fresh_segment 1024))"
    "contents (publish [7, 8, 9] (fresh_segment 1024)) = [[7, 8, 9]]"
    using publish_inv [OF f(1)] f(2) by auto
  show ?thesis
    using Read_refines_dequeue [OF p(1), of 2 "[]"] p(2) by (auto simp: fresh_segment_def)
qed

lemma Write_overrun:
  assumes "seg_inv s" "lk \<noteq> LockFailed" "length m < 2 ^ 32"
    and free: "8 \<le> unat (capacity s) - used s" and "esz (length m) \<le> unat (capacity s)"
    and over: "unat (capacity s) < used s + esz (length m)"
    and "unat (write_pos s) + esz (length m) < 2 ^ 64"
  shows "fst (Write lk seen m s)"
    and "unat (capacity s) < used (snd (Write lk seen m s))"
    and "\<forall>i < length m. unat (read_pos s) + unat (capacity s) \<le> unat (write_pos s) + 4 + i \<longrightarrow>
      ring (snd (Write lk seen m s)) !
        ((unat (write_pos s) + 4 + i - unat (capacity s)) mod unat (capacity s)) = m ! i"
    and "wait_drain (snd (Write lk seen m s)) seen' = Some (read_pos s)"
proof -
  let ?c = "unat (capacity s)" and ?w = "unat (write_pos s)"
  have i: "8 dvd ?w" "8 dvd ?c" "0 < ?c" "length (ring s) = ?c"
    using assms(1) by (auto simp: seg_inv_def)
  have W: "Write lk seen m s = (True, publish m s)"
  proof -
    have "\<not> capacity s < entry_size (of_nat (length m))"
      using assms(3,5) by (simp add: word_less_nat_alt unat_entry_size unat_of_nat_len)
    moreover have "kEntryAlign \<le> capacity s - (write_pos s - read_pos s)"
      using free free_word [OF assms(1)] by (simp add: kEntryAlign_def word_le_nat_alt)
    ultimately show ?thesis
      using assms(1,2) by (simp add: Write_def seg_inv_def wait_drain_def)
  qed
  then show "fst (Write lk seen m s)" by simp
  have w': "unat (write_pos (publish m s)) = ?w + esz (length m)"
    using assms(3,7) by (simp add: publish_def unat_add_u64 unat_entry_size unat_of_nat_len)
  then have u': "used (publish m s) = used s + esz (length m)"
    using assms(1) by (auto simp: used_def seg_inv_def)
  then show "unat (capacity s) < used (snd (Write lk seen m s))" using W over by simp
  have fit: "4 + length m \<le> ?c" using esz_props(1) [of "length m"] assms(5) by linarith
  have r: "ring (publish m s) = store_entry ?c (?w mod ?c) m (ring s)"
    by (simp add: publish_def unat_mod)
  show "\<forall>i < length m. unat (read_pos s) + ?c \<le> ?w + 4 + i \<longrightarrow>
      ring (snd (Write lk seen m s)) ! ((?w + 4 + i - ?c) mod ?c) = m ! i"
  proof (intro allI impI)
    fix k assume k: "k < length m" "unat (read_pos s) + ?c \<le> ?w + 4 + k"
    have "cyc ?c (ring (publish m s)) (?w + 4) (length m) ! k = m ! k"
      using store_entry_effect(3) [OF i fit assms(3)] r by simp
    then have "ring (publish m s) ! ((?w + 4 + k) mod ?c) = m ! k"
      using k(1) by (simp add: cyc_def)
    moreover have "(?w + 4 + k - ?c) mod ?c = (?w + 4 + k) mod ?c"
      using k(2) by (intro le_mod_geq [symmetric]) simp
    ultimately show "ring (snd (Write lk seen m s)) ! ((?w + 4 + k - ?c) mod ?c) = m ! k"
      using W by simp
  qed
  have d: "unat (write_pos (publish m s) - read_pos (publish m s)) = used (publish m s)"
    using w' assms(1) by (simp add: used_def seg_inv_def unat_sub_le)
  have "unat (capacity s - (write_pos (publish m s) - read_pos s)) = 2 ^ 64 - (used (publish m s) - ?c)"
    using d u' over unat_sub_wrap [of "capacity s" "write_pos (publish m s) - read_pos s"] by simp
  moreover have "used (publish m s) - ?c \<le> 2 ^ 33"
    using u' esz_props(2) [of "length m"] assms(1,3) by (auto simp: seg_inv_def)
  ultimately have "kEntryAlign \<le> capacity s - (write_pos (publish m s) - read_pos s)"
    by (simp add: kEntryAlign_def word_le_nat_alt)
  then show "wait_drain (snd (Write lk seen m s)) seen' = Some (read_pos s)"
    using W by (simp add: wait_drain_def)
qed

text \<open>C12: The wait in \<open>Write\<close> is too weak: it asks for 8 free bytes, not for the size of the entry.
  Whenever at least 8 bytes are free but the entry does not fit, \<open>Write\<close> still returns true,
  its bytes run over the oldest unread ones, the positions are then further apart than the
  capacity, and from then on the unsigned free-space test underflows, so no writer ever waits.\<close>

theorem Write_overruns_unread:
  assumes "seg_inv s" "lk \<noteq> LockFailed" "length m < 2 ^ 32"
    and "8 \<le> unat (capacity s) - used s" and "esz (length m) \<le> unat (capacity s)"
    and "unat (capacity s) < used s + esz (length m)"
    and "unat (write_pos s) + esz (length m) < 2 ^ 64"
  shows "fst (Write lk seen m s) \<and>
    unat (capacity s) < used (snd (Write lk seen m s)) \<and>
    (\<forall>i < length m. unat (read_pos s) + unat (capacity s) \<le> unat (write_pos s) + 4 + i \<longrightarrow>
      ring (snd (Write lk seen m s)) !
        ((unat (write_pos s) + 4 + i - unat (capacity s)) mod unat (capacity s)) = m ! i) \<and>
    wait_drain (snd (Write lk seen m s)) seen' = Some (read_pos s)"
  using Write_overrun [OF assms] by blast

text \<open>The same on a concrete run: 1000 bytes of 1 and then 100 bytes of 2 through a ring of 1024
  bytes; both writes return true and the reader does not get the first message.\<close>

lemma publish_write_pos: "write_pos (publish m s) = write_pos s + entry_size (of_nat (length m))"
  by (simp add: publish_def)

definition overrun_first :: segment where
  "overrun_first = snd (Write Locked [] (replicate 1000 1) (fresh_segment 1024))"

lemma overrun_first_facts:
  "seg_inv overrun_first" "contents overrun_first = [replicate 1000 1]"
  "used overrun_first = 1008" "capacity overrun_first = 1024" "read_pos overrun_first = 0"
  "unat (write_pos overrun_first) = 1008"
proof -
  have f: "seg_inv (fresh_segment 1024)" "contents (fresh_segment 1024) = []"
    using seg_inv_fresh [of 1024] by auto
  have r: "room (replicate 1000 1) (fresh_segment 1024)"
    by (simp add: room_def fresh_segment_def used_def esz_def)
  have W: "overrun_first = publish (replicate 1000 1) (fresh_segment 1024)"
    by (simp add: overrun_first_def room_Write [OF f(1) r])
  show "seg_inv overrun_first" "contents overrun_first = [replicate 1000 1]"
    using publish_inv [OF f(1) r] f(2) W by auto
  have z: "used (fresh_segment 1024) = 0" "unat (write_pos (fresh_segment 1024)) = 0" "esz 1000 = 1008"
    by (simp_all add: fresh_segment_def used_def esz_def)
  show "used overrun_first = 1008" "unat (write_pos overrun_first) = 1008"
    using used_publish [OF f(1) r] by (simp_all add: W z)
  show "capacity overrun_first = 1024" "read_pos overrun_first = 0"
    by (simp_all add: W fresh_segment_def)
qed

theorem Write_overruns_unread_witness:
  "fst (Write Locked [] (replicate 100 2) overrun_first) \<and>
   1024 < used (snd (Write Locked [] (replicate 100 2) overrun_first)) \<and>
   ring (snd (Write Locked [] (replicate 100 2) overrun_first)) ! 0 = 2 \<and>
   ring (snd (Write Locked [] (replicate 100 2) overrun_first)) ! 4 = 2"
proof -
  note f = overrun_first_facts
  have p: "seg_inv overrun_first" "Locked \<noteq> LockFailed" "length (replicate 100 (2 :: u8)) < 2 ^ 32"
    "8 \<le> unat (capacity overrun_first) - used overrun_first"
    "esz (length (replicate 100 (2 :: u8))) \<le> unat (capacity overrun_first)"
    "unat (capacity overrun_first) < used overrun_first + esz (length (replicate 100 (2 :: u8)))"
    "unat (write_pos overrun_first) + esz (length (replicate 100 (2 :: u8))) < 2 ^ 64"
    using f by (simp_all add: esz_def)
  note o = Write_overruns_unread [OF p]
  have "ring (snd (Write Locked [] (replicate 100 2) overrun_first)) ! 0 = 2"
    using conjunct1 [OF conjunct2 [OF conjunct2 [OF o]], rule_format, of 12] f by simp
  moreover have "ring (snd (Write Locked [] (replicate 100 2) overrun_first)) ! 4 = 2"
    using conjunct1 [OF conjunct2 [OF conjunct2 [OF o]], rule_format, of 16] f by simp
  ultimately show ?thesis using o f(4) by simp
qed

text \<open>A segment made by \<open>Create\<close> has no owner recorded, and neither writing nor reading records
  one; so another process that opens it may always claim it, although its creator is alive,
  and the claim discards every unread message. Once a live process has claimed it, a claim by
  any other process is refused and changes nothing.\<close>

theorem ClaimOwnership_takes_live_segment:
  assumes "magic s = kMagic" "lk \<noteq> LockFailed"
  shows "owner_pid (fresh_segment cap) = 0 \<and> owner_pid (snd (Write lk seen m s)) = owner_pid s \<and>
    (owner_pid s = 0 \<longrightarrow>
      (\<exists>s'. ClaimOwnership alive lk me cur s = (True, s', 0) \<and> contents s' = [] \<and> owner_pid s' = me)) \<and>
    (owner_pid s \<noteq> 0 \<and> owner_pid s \<noteq> me \<and> alive (owner_pid s) \<longrightarrow>
      ClaimOwnership alive lk me cur s = (False, s, cur))"
  using assms
  by (auto simp: ClaimOwnership_def Let_def contents_def entries_done fresh_segment_def Write_def publish_def
      split: option.split)

theorem ClaimOwnership_takes_live_segment_witness:
  "\<exists>s'. ClaimOwnership (\<lambda>_. True) Locked 42 0 overrun_first = (True, s', 0) \<and> contents s' = []"
proof -
  have m: "magic overrun_first = kMagic" using overrun_first_facts(1) by (simp add: seg_inv_def)
  have "owner_pid overrun_first = 0"
    using ClaimOwnership_takes_live_segment [of "fresh_segment 1024" Locked 0 "[]" "replicate 1000 1"]
    by (simp add: overrun_first_def fresh_segment_def)
  then show ?thesis
    using ClaimOwnership_takes_live_segment [OF m, of Locked 0 "[]" "[]" "\<lambda>_. True" 42 0] by auto
qed

text \<open>\<open>Create\<close> accepts exactly an absent name beginning with a slash and a capacity of at least
  1024 that is a multiple of 8; what it creates can be opened by name and is an empty ring,
  a second \<open>Create\<close> of the name fails, and after \<open>Remove\<close> the name is free again.\<close>

theorem Create_Open_Remove:
  "((\<exists>s m'. Create True (Some nm) cap shm = (Some s, m')) \<longleftrightarrow>
      take 1 nm = ''/'' \<and> 1024 \<le> cap \<and> cap mod 8 = 0 \<and> shm nm = None) \<and>
   (Create True (Some nm) cap shm = (Some s, m') \<longrightarrow>
     Open True nm m' = Some s \<and> seg_inv s \<and> contents s = [] \<and>
     fst (Create ok (Some nm) cap' m') = None \<and>
     Remove nm m' = (True, shm))"
proof
  show "(\<exists>s m'. Create True (Some nm) cap shm = (Some s, m')) \<longleftrightarrow>
      take 1 nm = ''/'' \<and> 1024 \<le> cap \<and> cap mod 8 = 0 \<and> shm nm = None"
    unfolding Create_def kEntryAlign_def option.case not_less [symmetric]
    by (cases "cap mod 8 = 0") (simp_all del: mod_0_imp_dvd)
  show "Create True (Some nm) cap shm = (Some s, m') \<longrightarrow>
     Open True nm m' = Some s \<and> seg_inv s \<and> contents s = [] \<and>
     fst (Create ok (Some nm) cap' m') = None \<and> Remove nm m' = (True, shm)"
  proof
    assume "Create True (Some nm) cap shm = (Some s, m')"
    then have s: "s = fresh_segment cap" "m' = shm(nm \<mapsto> s)" "\<not> cap < 1024" "cap mod 8 = 0" "shm nm = None"
      unfolding Create_def kEntryAlign_def option.case by (auto split: if_splits)
    have c: "1024 \<le> unat cap" using s(3) by (simp add: word_less_nat_alt)
    have "unat cap mod 8 = 0" using arg_cong [OF s(4), of unat] by (simp add: unat_mod)
    then have inv: "seg_inv s \<and> contents s = []" using seg_inv_fresh s(1) c by (simp add: dvd_eq_mod_eq_0)
    have "capacity s \<noteq> 0" using s(1) c by (auto simp: fresh_segment_def)
    then have "Open True nm m' = Some s" using inv s(2) by (simp add: Open_def seg_inv_def)
    moreover have "Remove nm m' = (True, shm)" using s(2,5) by (auto simp: Remove_def)
    moreover have "fst (Create ok (Some nm) cap' m') = None" using s(2) by (simp add: Create_def)
    ultimately show "Open True nm m' = Some s \<and> seg_inv s \<and> contents s = [] \<and>
     fst (Create ok (Some nm) cap' m') = None \<and> Remove nm m' = (True, shm)"
      using inv by blast
  qed
qed

theorem Create_Open_Remove_witness:
  "Open True ''/bucket_7411'' (Map.empty(''/bucket_7411'' \<mapsto> fresh_segment 4096)) = Some (fresh_segment 4096)"
  using Create_Open_Remove [of "''/bucket_7411''" 4096 Map.empty "fresh_segment 4096"
      "Map.empty(''/bucket_7411'' \<mapsto> fresh_segment 4096)" True 4096]
  by (simp add: Create_def kEntryAlign_def)

end
