(* ===== verification/Bucket_Race.thy ===== *)
theory Bucket_Race
  imports Bucket_Queue
begin

text \<open>
  The ring under its real schedule: several writers and the reader of one segment run at the same
  time (\<open>BucketSegment::Write\<close>, \<open>Read\<close>, \<open>wait_drain\<close>, \<open>wait_wake\<close>), and a step is one access to the
  shared memory, one byte of a copy, or one call of the mutex or of the futex. A writer may die at
  any step. The deadline is an argument of a step: whether the thread's clock has passed it.
\<close>

section \<open>Threads\<close>

text \<open>
  Where a writer stands. \<open>W_drain\<close> loads the positions in \<open>wait_drain\<close>, \<open>W_expected\<close> its
  \<open>drain_word\<close>, \<open>W_futex\<close> is the call of \<open>FUTEX_WAIT\<close>; in \<open>W_copy d w k\<close> the first \<open>k\<close> bytes of the
  entry lie in the ring at position \<open>w\<close>; \<open>W_word\<close> and \<open>W_wake\<close> increment \<open>wake_word\<close> and wake.
\<close>

datatype writer =
    W_out
  | W_lock bytes
  | W_drain bytes
  | W_expected bytes
  | W_futex bytes u32
  | W_asleep bytes
  | W_copy bytes u64 nat
  | W_word
  | W_wake
  | W_unlock bool
  | W_ret bool
  | W_dead

text \<open>
  Where the reader stands: \<open>R_load\<close> loads \<open>write_pos\<close> in \<open>Read\<close>, \<open>R_check\<close> in \<open>wait_wake\<close>; \<open>R_head\<close> and
  \<open>R_body\<close> hold the bytes copied so far.
\<close>

datatype reader =
    R_out
  | R_load
  | R_check
  | R_expected
  | R_futex u32
  | R_asleep
  | R_head u64 bytes
  | R_body u32 bytes
  | R_word
  | R_wake
  | R_ret bool

text \<open>The robust mutex: free, held by a writer, or left locked by a dead one.\<close>

datatype robust = Free | Held nat | Orphaned

text \<open>
  The segment, the threads, and the reader's \<open>read_pos_\<close> and buffer size. \<open>rc_sent\<close> and \<open>rc_got\<close> record
  what was published and what \<open>Read\<close> returned, in order.
\<close>

record race =
  rc_seg :: segment
  rc_lock :: robust
  rc_writers :: "writer list"
  rc_reader :: reader
  rc_cur :: u64
  rc_max :: u32
  rc_sent :: "bytes list"
  rc_got :: "(bytes \<times> u32) list"

text \<open>The bytes of an entry: length word and payload.\<close>

definition entry_bytes :: "bytes \<Rightarrow> bytes" where
  "entry_bytes d = le32 (of_nat (length d)) @ d"

definition put_byte :: "u64 \<Rightarrow> nat \<Rightarrow> u8 \<Rightarrow> segment \<Rightarrow> segment" where
  "put_byte w k b g = g\<lparr>ring := (ring g)[(unat (w mod capacity g) + k) mod unat (capacity g) := b]\<rparr>"

definition get_byte :: "u64 \<Rightarrow> nat \<Rightarrow> segment \<Rightarrow> u8" where
  "get_byte p k g = ring g ! ((unat (p mod capacity g) + k) mod unat (capacity g))"

definition set_writer :: "nat \<Rightarrow> writer \<Rightarrow> race \<Rightarrow> race" where
  "set_writer i p s = s\<lparr>rc_writers := (rc_writers s)[i := p]\<rparr>"

definition wake_reader :: "race \<Rightarrow> race" where
  "wake_reader s = (if rc_reader s = R_asleep then s\<lparr>rc_reader := R_check\<rparr> else s)"

fun woken :: "writer \<Rightarrow> writer" where
  "woken (W_asleep d) = W_drain d"
| "woken p = p"

definition wake_writers :: "race \<Rightarrow> race" where
  "wake_writers s = s\<lparr>rc_writers := map woken (rc_writers s)\<rparr>"

section \<open>Steps\<close>

text \<open>A call of \<open>Write\<close>, up to the mutex.\<close>

definition call_write :: "nat \<Rightarrow> bytes \<Rightarrow> race \<Rightarrow> race" where
  "call_write i d s =
     (if magic (rc_seg s) \<noteq> kMagic then set_writer i (W_ret False) s
      else if capacity (rc_seg s) < entry_size (of_nat (length d)) then set_writer i (W_ret False) s
      else set_writer i (W_lock d) s)"

text \<open>One step of writer \<open>i\<close> from where it stands; \<open>None\<close> when it is blocked.\<close>

fun write_step :: "nat \<Rightarrow> bool \<Rightarrow> writer \<Rightarrow> race \<Rightarrow> race option" where
  "write_step i late (W_lock d) s =
     (case rc_lock s of Held j \<Rightarrow> None | _ \<Rightarrow> Some (set_writer i (W_drain d) (s\<lparr>rc_lock := Held i\<rparr>)))"
| "write_step i late (W_drain d) s =
     (let g = rc_seg s in
      if kEntryAlign \<le> capacity g - (write_pos g - read_pos g) then Some (set_writer i (W_copy d (write_pos g) 0) s)
      else Some (set_writer i (W_expected d) s))"
| "write_step i late (W_expected d) s =
     Some (set_writer i (if late then W_unlock False else W_futex d (drain_word (rc_seg s))) s)"
| "write_step i late (W_futex d e) s =
     Some (set_writer i (if drain_word (rc_seg s) = e then W_asleep d else W_drain d) s)"
| "write_step i late (W_asleep d) s = (if late then Some (set_writer i (W_drain d) s) else None)"
| "write_step i late (W_copy d w k) s =
     (let g = rc_seg s in
      if k < length (entry_bytes d)
      then Some (set_writer i (W_copy d w (Suc k)) (s\<lparr>rc_seg := put_byte w k (entry_bytes d ! k) g\<rparr>))
      else Some (set_writer i W_word (s\<lparr>rc_seg := g\<lparr>write_pos := w + entry_size (of_nat (length d))\<rparr>, rc_sent := rc_sent s @ [d]\<rparr>)))"
| "write_step i late W_word s =
     Some (set_writer i W_wake (s\<lparr>rc_seg := (rc_seg s)\<lparr>wake_word := wake_word (rc_seg s) + 1\<rparr>\<rparr>))"
| "write_step i late W_wake s = Some (set_writer i (W_unlock True) (wake_reader s))"
| "write_step i late (W_unlock ok) s = Some (set_writer i (W_ret ok) (s\<lparr>rc_lock := Free\<rparr>))"
| "write_step i late _ s = None"

text \<open>One step of the reader; the length word decides how much is copied.\<close>

fun read_step :: "bool \<Rightarrow> reader \<Rightarrow> race \<Rightarrow> race option" where
  "read_step late R_load s =
     (let w = write_pos (rc_seg s) in Some (s\<lparr>rc_reader := if 4 \<le> w - rc_cur s then R_head w [] else R_check\<rparr>))"
| "read_step late R_check s =
     Some (s\<lparr>rc_reader := if rc_cur s < write_pos (rc_seg s) then R_load else R_expected\<rparr>)"
| "read_step late R_expected s =
     Some (s\<lparr>rc_reader := if late then R_ret False else R_futex (wake_word (rc_seg s))\<rparr>)"
| "read_step late (R_futex e) s = Some (s\<lparr>rc_reader := if wake_word (rc_seg s) = e then R_asleep else R_check\<rparr>)"
| "read_step late R_asleep s = (if late then Some (s\<lparr>rc_reader := R_check\<rparr>) else None)"
| "read_step late (R_head w bs) s =
     (if length bs < 4 then Some (s\<lparr>rc_reader := R_head w (bs @ [get_byte (rc_cur s) (length bs) (rc_seg s)])\<rparr>)
      else let n = of_nat (le_val bs) :: u32 in
        Some (s\<lparr>rc_reader := if w - rc_cur s < entry_size n then R_ret False else R_body n []\<rparr>))"
| "read_step late (R_body n bs) s =
     (if length bs < min (unat n) (unat (rc_max s))
      then Some (s\<lparr>rc_reader := R_body n (bs @ [get_byte (rc_cur s + 4) (length bs) (rc_seg s)])\<rparr>)
      else let p = rc_cur s + entry_size n in
        Some (s\<lparr>rc_cur := p, rc_seg := (rc_seg s)\<lparr>read_pos := p\<rparr>, rc_got := rc_got s @ [(bs, n)], rc_reader := R_word\<rparr>))"
| "read_step late R_word s =
     Some (s\<lparr>rc_seg := (rc_seg s)\<lparr>drain_word := drain_word (rc_seg s) + 1\<rparr>, rc_reader := R_wake\<rparr>)"
| "read_step late R_wake s = Some (wake_writers s\<lparr>rc_reader := R_ret True\<rparr>)"
| "read_step late _ s = None"

text \<open>A writer that dies inside its critical section leaves the mutex orphaned.\<close>

definition crash :: "nat \<Rightarrow> race \<Rightarrow> race" where
  "crash i s = set_writer i W_dead (s\<lparr>rc_lock := if rc_lock s = Held i then Orphaned else rc_lock s\<rparr>)"

text \<open>\<open>Lock_fails i\<close>: the mutex refuses writer \<open>i\<close> with an error of its own.\<close>

datatype event = Call_write nat bytes | Writer nat bool | Lock_fails nat | Crash nat | Call_read | Reader bool

definition idle_writer :: "writer \<Rightarrow> bool" where
  "idle_writer p \<longleftrightarrow> p = W_out \<or> p = W_ret True \<or> p = W_ret False"

definition idle_reader :: "reader \<Rightarrow> bool" where
  "idle_reader p \<longleftrightarrow> p = R_out \<or> p = R_ret True \<or> p = R_ret False"

text \<open>One event of the schedule; \<open>None\<close> when it cannot happen.\<close>

fun race_step :: "event \<Rightarrow> race \<Rightarrow> race option" where
  "race_step (Call_write i d) s =
     (if i < length (rc_writers s) \<and> idle_writer (rc_writers s ! i) \<and> length d < 2 ^ 32 then Some (call_write i d s) else None)"
| "race_step (Writer i late) s =
     (if i < length (rc_writers s) then write_step i late (rc_writers s ! i) s else None)"
| "race_step (Lock_fails i) s =
     (if i < length (rc_writers s) then
        case rc_writers s ! i of W_lock d \<Rightarrow> Some (set_writer i (W_ret False) s) | _ \<Rightarrow> None else None)"
| "race_step (Crash i) s = (if i < length (rc_writers s) then Some (crash i s) else None)"
| "race_step Call_read s =
     (if idle_reader (rc_reader s) then
        Some (s\<lparr>rc_reader := if magic (rc_seg s) \<noteq> kMagic then R_ret False else R_load\<rparr>) else None)"
| "race_step (Reader late) s = read_step late (rc_reader s) s"

fun race_run :: "event list \<Rightarrow> race \<Rightarrow> race option" where
  "race_run [] s = Some s"
| "race_run (e # es) s = (case race_step e s of None \<Rightarrow> None | Some s' \<Rightarrow> race_run es s')"

text \<open>A new segment, \<open>n\<close> writers and a reader with a buffer of \<open>mx\<close> bytes.\<close>

definition new_race :: "u64 \<Rightarrow> nat \<Rightarrow> u32 \<Rightarrow> race" where
  "new_race cap n mx = \<lparr>rc_seg = fresh_segment cap, rc_lock = Free, rc_writers = replicate n W_out, rc_reader = R_out,
     rc_cur = 0, rc_max = mx, rc_sent = [], rc_got = []\<rparr>"

text \<open>Each writer that is past its wait has room for its whole entry; the code waits for 8 bytes only.\<close>

definition fits :: "race \<Rightarrow> bool" where
  "fits s \<longleftrightarrow> list_all (\<lambda>p. case p of W_copy d w k \<Rightarrow> room d (rc_seg s) | _ \<Rightarrow> True) (rc_writers s)"

fun orderly :: "event list \<Rightarrow> race \<Rightarrow> bool" where
  "orderly [] s \<longleftrightarrow> fits s"
| "orderly (e # es) s \<longleftrightarrow> fits s \<and> (case race_step e s of None \<Rightarrow> True | Some s' \<Rightarrow> orderly es s')"

section \<open>The invariant\<close>

fun critical :: "writer \<Rightarrow> bool" where
  "critical W_out = False"
| "critical (W_lock d) = False"
| "critical (W_ret ok) = False"
| "critical W_dead = False"
| "critical _ = True"

text \<open>What a copying writer has stored behind the write position.\<close>

fun writer_ok :: "segment \<Rightarrow> writer \<Rightarrow> bool" where
  "writer_ok g (W_copy d w k) \<longleftrightarrow> w = write_pos g \<and> k \<le> length (entry_bytes d) \<and>
     cyc (unat (capacity g)) (ring g) (unat w) k = take k (entry_bytes d)"
| "writer_ok g _ \<longleftrightarrow> True"

definition first_len :: "segment \<Rightarrow> nat" where
  "first_len g = word_at (unat (capacity g)) (ring g) (unat (read_pos g))"

definition first_bytes :: "segment \<Rightarrow> nat \<Rightarrow> nat \<Rightarrow> bytes" where
  "first_bytes g k n = cyc (unat (capacity g)) (ring g) (unat (read_pos g) + k) n"

text \<open>What the reader has copied is the beginning of the first unread entry.\<close>

fun reader_ok :: "segment \<Rightarrow> u32 \<Rightarrow> reader \<Rightarrow> bool" where
  "reader_ok g mx (R_head w bs) \<longleftrightarrow> read_pos g \<noteq> write_pos g \<and> unat (read_pos g) + esz (first_len g) \<le> unat w \<and>
     length bs \<le> 4 \<and> bs = first_bytes g 0 (length bs)"
| "reader_ok g mx (R_body n bs) \<longleftrightarrow> read_pos g \<noteq> write_pos g \<and> n = of_nat (first_len g) \<and>
     length bs \<le> min (unat n) (unat mx) \<and> bs = first_bytes g 4 (length bs)"
| "reader_ok g mx _ \<longleftrightarrow> True"

text \<open>What \<open>Read\<close> returns of a message: at most \<open>mx\<close> bytes, and its true length.\<close>

definition clip :: "u32 \<Rightarrow> bytes \<Rightarrow> bytes \<times> u32" where
  "clip mx m = (take (unat mx) m, of_nat (length m))"

definition lock_ok :: "robust \<Rightarrow> writer list \<Rightarrow> bool" where
  "lock_ok l ws \<longleftrightarrow> (\<forall>i < length ws. critical (ws ! i) \<longleftrightarrow> l = Held i) \<and> (\<forall>i. l = Held i \<longrightarrow> i < length ws)"

definition flow_ok :: "race \<Rightarrow> bool" where
  "flow_ok s \<longleftrightarrow> length (rc_got s) \<le> length (rc_sent s) \<and> contents (rc_seg s) = drop (length (rc_got s)) (rc_sent s) \<and>
     rc_got s = map (clip (rc_max s)) (take (length (rc_got s)) (rc_sent s))"

definition race_inv :: "race \<Rightarrow> bool" where
  "race_inv s \<longleftrightarrow> seg_inv (rc_seg s) \<and> rc_cur s = read_pos (rc_seg s) \<and> lock_ok (rc_lock s) (rc_writers s) \<and>
     (\<forall>p \<in> set (rc_writers s). writer_ok (rc_seg s) p) \<and> reader_ok (rc_seg s) (rc_max s) (rc_reader s) \<and> flow_ok s"

lemma race_invD:
  assumes "race_inv s"
  shows "seg_inv (rc_seg s)" "rc_cur s = read_pos (rc_seg s)" "lock_ok (rc_lock s) (rc_writers s)"
    "p \<in> set (rc_writers s) \<Longrightarrow> writer_ok (rc_seg s) p" "reader_ok (rc_seg s) (rc_max s) (rc_reader s)" "flow_ok s"
  using assms by (auto simp: race_inv_def)

text \<open>Steps that leave the segment alone.\<close>

lemma set_writer_fields [simp]:
  "rc_seg (set_writer i p s) = rc_seg s" "rc_lock (set_writer i p s) = rc_lock s" "rc_reader (set_writer i p s) = rc_reader s"
  "rc_cur (set_writer i p s) = rc_cur s" "rc_max (set_writer i p s) = rc_max s" "rc_sent (set_writer i p s) = rc_sent s"
  "rc_got (set_writer i p s) = rc_got s" "rc_writers (set_writer i p s) = (rc_writers s)[i := p]"
  by (simp_all add: set_writer_def)

lemma lock_ok_set:
  assumes "lock_ok l ws" "i < length ws" "critical p \<longleftrightarrow> l' = Held i" "\<And>j. j \<noteq> i \<Longrightarrow> l' = Held j \<longleftrightarrow> l = Held j"
  shows "lock_ok l' (ws[i := p])"
  using assms by (auto simp: lock_ok_def nth_list_update)

lemma inv_writer:
  assumes "race_inv s" "i < length (rc_writers s)" "writer_ok (rc_seg s) p"
    and "critical p \<longleftrightarrow> l = Held i" "\<And>j. j \<noteq> i \<Longrightarrow> l = Held j \<longleftrightarrow> rc_lock s = Held j"
  shows "race_inv (set_writer i p (s\<lparr>rc_lock := l\<rparr>))"
  using race_invD [OF assms(1)] lock_ok_set [OF race_invD(3) [OF assms(1)] assms(2,4,5)] assms(3)
  by (auto simp: race_inv_def flow_ok_def dest!: subsetD [OF set_update_subset_insert])

lemma inv_writer_same:
  assumes "race_inv s" "i < length (rc_writers s)" "writer_ok (rc_seg s) p" "critical p \<longleftrightarrow> critical (rc_writers s ! i)"
  shows "race_inv (set_writer i p s)"
proof -
  have "critical p \<longleftrightarrow> rc_lock s = Held i" using race_invD(3) [OF assms(1)] assms(2,4) by (simp add: lock_ok_def)
  then show ?thesis using inv_writer [OF assms(1-3), of "rc_lock s"] by simp
qed

lemma inv_reader: "race_inv s \<Longrightarrow> reader_ok (rc_seg s) (rc_max s) p \<Longrightarrow> race_inv (s\<lparr>rc_reader := p\<rparr>)"
  by (simp add: race_inv_def flow_ok_def)

lemma writer_ok_words [simp]:
  "writer_ok (g\<lparr>wake_word := x\<rparr>) p = writer_ok g p" "writer_ok (g\<lparr>drain_word := x\<rparr>) p = writer_ok g p"
  by (cases p; simp)+

lemma reader_ok_words [simp]:
  "reader_ok (g\<lparr>wake_word := x\<rparr>) mx q = reader_ok g mx q" "reader_ok (g\<lparr>drain_word := x\<rparr>) mx q = reader_ok g mx q"
  by (cases q; simp add: first_len_def first_bytes_def)+

lemma inv_words:
  assumes "race_inv s"
  shows "race_inv (s\<lparr>rc_seg := (rc_seg s)\<lparr>wake_word := x\<rparr>\<rparr>)" "race_inv (s\<lparr>rc_seg := (rc_seg s)\<lparr>drain_word := x\<rparr>\<rparr>)"
  using assms by (simp_all add: race_inv_def flow_ok_def)

lemma woken_ok [simp]: "critical (woken p) = critical p" "writer_ok g (woken p) = writer_ok g p"
  by (cases p; simp)+

lemma inv_wakes:
  assumes "race_inv s"
  shows "race_inv (wake_reader s)" "race_inv (wake_writers s)"
  using assms by (auto simp: wake_reader_def wake_writers_def race_inv_def flow_ok_def lock_ok_def)

text \<open>A byte stored behind the write position, within the room of the entry.\<close>

lemma mod_distinct: "x < y \<Longrightarrow> y < x + c \<Longrightarrow> x mod c \<noteq> (y :: nat) mod c"
  using mod_window [of x y c] by (auto split: if_splits)

lemma put_byte_fields [simp]:
  "capacity (put_byte w k b g) = capacity g" "magic (put_byte w k b g) = magic g" "read_pos (put_byte w k b g) = read_pos g"
  "write_pos (put_byte w k b g) = write_pos g" "length (ring (put_byte w k b g)) = length (ring g)"
  by (simp_all add: put_byte_def)

lemma put_byte_ring:
  "ring (put_byte w k b g) = (ring g)[(unat w + k) mod unat (capacity g) := b]"
  by (simp add: put_byte_def unat_mod mod_add_left_eq)

lemma put_byte_elsewhere:
  "x < unat w + k \<Longrightarrow> unat w + k < x + unat (capacity g) \<Longrightarrow>
   ring (put_byte w k b g) ! (x mod unat (capacity g)) = ring g ! (x mod unat (capacity g))"
  using mod_distinct [of x "unat w + k" "unat (capacity g)"] by (simp add: put_byte_ring)

lemma cyc_put_byte:
  assumes "q + n \<le> unat w + k" "unat w + k < q + unat (capacity g)"
  shows "cyc (unat (capacity g)) (ring (put_byte w k b g)) q n = cyc (unat (capacity g)) (ring g) q n"
  unfolding cyc_def using assms by (intro map_cong refl put_byte_elsewhere) auto

lemma room_reach:
  assumes "seg_inv g" "room d g" "k < length (entry_bytes d)"
  shows "unat (write_pos g) + k < unat (read_pos g) + unat (capacity g)" "unat (read_pos g) \<le> unat (write_pos g)"
    "0 < unat (capacity g)"
  using assms esz_props(1) [of "length d"] by (auto simp: seg_inv_def room_def used_def entry_bytes_def)

lemma put_byte_keeps:
  fixes b :: u8
  assumes "seg_inv g" "room d g" "k < length (entry_bytes d)"
  defines "g' \<equiv> put_byte (write_pos g) k b g"
  shows "seg_inv g'" "contents g' = contents g" "room m g' = room m g"
proof -
  note r = room_reach [OF assms(1-3)]
  have g': "g' = g\<lparr>ring := ring g'\<rparr>" by (simp add: g'_def put_byte_def)
  have "ring g' ! (x mod unat (capacity g)) = ring g ! (x mod unat (capacity g))"
    if "unat (read_pos g) \<le> x" "x < unat (write_pos g)" for x
    unfolding g'_def using that r by (intro put_byte_elsewhere) auto
  moreover have "length (ring g') = unat (capacity g)" using assms(1) by (simp add: g'_def seg_inv_def)
  ultimately show "seg_inv g'" "contents g' = contents g" "room m g' = room m g"
    using ring_kept [OF assms(1), of "ring g'"] g' by (metis, metis, metis)
qed

lemma put_byte_stored:
  assumes "seg_inv g" "room d g" "k < length (entry_bytes d)"
  shows "cyc (unat (capacity g)) (ring (put_byte (write_pos g) k b g)) (unat (write_pos g)) (Suc k) =
    cyc (unat (capacity g)) (ring g) (unat (write_pos g)) k @ [b]"
proof -
  note r = room_reach [OF assms]
  have "length (ring g) = unat (capacity g)" using assms(1) by (simp add: seg_inv_def)
  then have "cyc (unat (capacity g)) (ring (put_byte (write_pos g) k b g)) (unat (write_pos g) + k) 1 = [b]"
    using r(3) by (simp add: cyc_def put_byte_ring)
  moreover have "cyc (unat (capacity g)) (ring (put_byte (write_pos g) k b g)) (unat (write_pos g)) k =
      cyc (unat (capacity g)) (ring g) (unat (write_pos g)) k"
    using r by (intro cyc_put_byte) auto
  ultimately show ?thesis using cyc_add [of _ _ "unat (write_pos g)" k 1] by simp
qed

text \<open>The first entry lies in the unread part, so the reader's copy is not disturbed.\<close>

lemma first_entry:
  assumes "seg_inv g" "read_pos g \<noteq> write_pos g"
  shows "unat (read_pos g) + esz (first_len g) \<le> unat (write_pos g)" "first_len g < 2 ^ 32"
    "contents g = first_bytes g 4 (first_len g) # contents (g\<lparr>read_pos := read_pos g + entry_size (of_nat (first_len g))\<rparr>)"
    "seg_inv (g\<lparr>read_pos := read_pos g + entry_size (of_nat (first_len g))\<rparr>)"
  using consumed [OF assms refl refl] word_at_bound by (simp_all add: first_len_def first_bytes_def)

lemma first_bytes_put:
  assumes "seg_inv g" "room d g" "k < length (entry_bytes d)" "unat (read_pos g) + j + n \<le> unat (write_pos g)"
  shows "first_bytes (put_byte (write_pos g) k b g) j n = first_bytes g j n"
  using room_reach [OF assms(1-3)] assms(4) by (auto simp: first_bytes_def intro!: cyc_put_byte)

lemma first_len_word: "first_len g = le_val (first_bytes g 0 4)"
  by (simp add: first_len_def first_bytes_def word_at_def)

lemma put_byte_reader:
  assumes "seg_inv g" "room d g" "k < length (entry_bytes d)" "reader_ok g mx q"
  shows "reader_ok (put_byte (write_pos g) k b g) mx q"
proof (cases "read_pos g = write_pos g")
  case True
  with assms(4) show ?thesis by (cases q) auto
next
  case False
  have e: "unat (read_pos g) + esz (first_len g) \<le> unat (write_pos g)" "first_len g + 4 < esz (first_len g)"
    using first_entry(1) [OF assms(1) False] esz_props(1) by auto
  have f: "first_bytes (put_byte (write_pos g) k b g) 0 n = first_bytes g 0 n" if "n \<le> 4" for n
    using e that by (intro first_bytes_put [OF assms(1-3)]) auto
  have f4: "first_bytes (put_byte (write_pos g) k b g) 4 n = first_bytes g 4 n" if "n \<le> first_len g" for n
    using e that by (intro first_bytes_put [OF assms(1-3)]) auto
  have l: "first_len (put_byte (write_pos g) k b g) = first_len g" using f [of 4] by (simp add: first_len_word)
  have n: "unat (of_nat (first_len g) :: u32) = first_len g"
    using first_entry(2) [OF assms(1) False] by (simp add: unat_of_nat_len)
  show ?thesis using assms(4) by (cases q) (auto simp: l n f f4)
qed

section \<open>Steps that change the ring\<close>

lemma others_ok:
  assumes "race_inv s" "i < length (rc_writers s)" "critical (rc_writers s ! i)" "writer_ok g p"
  shows "\<forall>q \<in> set ((rc_writers s)[i := p]). writer_ok g q"
proof -
  have "writer_ok g (rc_writers s ! j)" if "j < length (rc_writers s)" "j \<noteq> i" for j
  proof -
    have "\<not> critical (rc_writers s ! j)"
      using race_invD(3) [OF assms(1)] assms(2,3) that unfolding lock_ok_def by (metis robust.inject)
    then show ?thesis by (cases "rc_writers s ! j") auto
  qed
  with assms(4) show ?thesis by (metis in_set_conv_nth length_list_update nth_list_update_eq nth_list_update_neq)
qed

lemma writer_at: "race_inv s \<Longrightarrow> i < length (rc_writers s) \<Longrightarrow> writer_ok (rc_seg s) (rc_writers s ! i)"
  by (simp add: race_inv_def)

lemma fits_copy:
  "fits s \<Longrightarrow> i < length (rc_writers s) \<Longrightarrow> rc_writers s ! i = W_copy d w k \<Longrightarrow> room d (rc_seg s)"
  by (force simp: fits_def list_all_iff in_set_conv_nth)

lemma lock_ok_same:
  "lock_ok l ws \<Longrightarrow> i < length ws \<Longrightarrow> critical p \<longleftrightarrow> critical (ws ! i) \<Longrightarrow> lock_ok l (ws[i := p])"
  by (rule lock_ok_set) (auto simp: lock_ok_def)

lemma inv_store:
  assumes inv: "race_inv s" and "fits s" and i: "i < length (rc_writers s)" "rc_writers s ! i = W_copy d w k"
    and k: "k < length (entry_bytes d)"
  shows "race_inv (set_writer i (W_copy d w (Suc k)) (s\<lparr>rc_seg := put_byte w k (entry_bytes d ! k) (rc_seg s)\<rparr>))"
proof -
  let ?g = "rc_seg s" and ?g' = "put_byte w k (entry_bytes d ! k) (rc_seg s)"
  note I = race_invD [OF inv]
  have r: "room d ?g" by (rule fits_copy [OF assms(2) i])
  have w: "w = write_pos ?g" "cyc (unat (capacity ?g)) (ring ?g) (unat w) k = take k (entry_bytes d)"
    using writer_at [OF inv i(1)] i(2) by auto
  note keep = put_byte_keeps [OF I(1) r k, where b = "entry_bytes d ! k", folded w(1)]
  have "writer_ok ?g' (W_copy d w (Suc k))"
    using w k put_byte_stored [OF I(1) r k, of "entry_bytes d ! k"] by (simp add: take_Suc_conv_app_nth)
  then have "\<forall>q \<in> set ((rc_writers s)[i := W_copy d w (Suc k)]). writer_ok ?g' q"
    using others_ok [OF inv i(1), of ?g' "W_copy d w (Suc k)"] i(2) by (simp del: writer_ok.simps)
  moreover have "reader_ok ?g' (rc_max s) (rc_reader s)" using put_byte_reader [OF I(1) r k I(5)] w(1) by simp
  moreover have "lock_ok (rc_lock s) ((rc_writers s)[i := W_copy d w (Suc k)])"
    using lock_ok_same [OF I(3) i(1)] i(2) by simp
  ultimately show ?thesis using I(2,6) keep by (simp add: race_inv_def flow_ok_def)
qed

lemma inv_publish:
  assumes inv: "race_inv s" and "fits s" and i: "i < length (rc_writers s)" "rc_writers s ! i = W_copy d w k"
    and k: "\<not> k < length (entry_bytes d)"
  shows "race_inv (set_writer i W_word (s\<lparr>rc_seg := (rc_seg s)\<lparr>write_pos := w + entry_size (of_nat (length d))\<rparr>,
      rc_sent := rc_sent s @ [d]\<rparr>))"
proof -
  let ?g = "rc_seg s" and ?g' = "(rc_seg s)\<lparr>write_pos := w + entry_size (of_nat (length d))\<rparr>"
  note I = race_invD [OF inv]
  have r: "room d ?g" by (rule fits_copy [OF assms(2) i])
  have w: "w = write_pos ?g" "cyc (unat (capacity ?g)) (ring ?g) (unat w) (4 + length d) = entry_bytes d"
    using writer_at [OF inv i(1)] i(2) k by (auto simp: entry_bytes_def)
  note new = published [OF I(1) r w(2) [unfolded w(1) entry_bytes_def], folded w(1)]
  have "read_pos ?g \<noteq> w + entry_size (of_nat (length d))"
    using new(3) esz_props(4) [of "length d"] room_reach(2) [OF I(1) r, of 0] w(1) by (auto simp: entry_bytes_def)
  then have "reader_ok ?g' (rc_max s) (rc_reader s)"
    using I(5) by (cases "rc_reader s") (auto simp: first_len_def first_bytes_def)
  moreover have "\<forall>q \<in> set ((rc_writers s)[i := W_word]). writer_ok ?g' q"
    using others_ok [OF inv i(1), of ?g' W_word] i(2) by simp
  moreover have "lock_ok (rc_lock s) ((rc_writers s)[i := W_word])" using lock_ok_same [OF I(3) i(1)] i(2) by simp
  ultimately show ?thesis using I(2,6) new(1,2) by (simp add: race_inv_def flow_ok_def)
qed

text \<open>The reader.\<close>

lemma first_bytes_Suc: "first_bytes g k (Suc n) = first_bytes g k n @ [ring g ! ((unat (read_pos g) + k + n) mod unat (capacity g))]"
  by (simp add: first_bytes_def cyc_def)

lemma get_byte_ring: "get_byte p k g = ring g ! ((unat p + k) mod unat (capacity g))"
  by (simp add: get_byte_def unat_mod mod_add_left_eq)

lemma inv_head:
  assumes inv: "race_inv s" and r: "rc_reader s = R_head w bs" and s': "read_step late (R_head w bs) s = Some s'"
  shows "race_inv s'"
proof -
  let ?g = "rc_seg s"
  note I = race_invD [OF inv]
  have o: "read_pos ?g \<noteq> write_pos ?g" "unat (read_pos ?g) + esz (first_len ?g) \<le> unat w" "length bs \<le> 4"
    "bs = first_bytes ?g 0 (length bs)"
    using I(5) r by auto
  show ?thesis
  proof (cases "length bs < 4")
    case True
    then have "reader_ok ?g (rc_max s) (R_head w (bs @ [get_byte (rc_cur s) (length bs) ?g]))"
      using o I(2) by (simp add: first_bytes_Suc get_byte_ring)
    moreover have "s' = s\<lparr>rc_reader := R_head w (bs @ [get_byte (rc_cur s) (length bs) ?g])\<rparr>" using s' True by simp
    ultimately show ?thesis using inv_reader [OF inv] by metis
  next
    case False
    with o(3) have l: "length bs = 4" by simp
    have n: "le_val bs = first_len ?g" using o(4) l by (simp add: first_len_word)
    have f: "first_len ?g < 2 ^ 32" using first_entry(2) [OF I(1) o(1)] .
    have "unat (w - rc_cur s) = unat w - unat (read_pos ?g)" using o(2) I(2) by (simp add: unat_sub_le)
    then have "\<not> w - rc_cur s < entry_size (of_nat (first_len ?g))"
      using o(2) f by (simp add: word_less_nat_alt unat_entry_size unat_of_nat_len)
    then have "s' = s\<lparr>rc_reader := R_body (of_nat (first_len ?g)) []\<rparr>" using s' False n by (simp add: Let_def)
    then show ?thesis using inv_reader [OF inv] o(1) by (simp add: first_bytes_def cyc_def)
  qed
qed

lemma writer_ok_read_pos [simp]: "writer_ok (g\<lparr>read_pos := p\<rparr>) q = writer_ok g q"
  by (cases q) simp_all

lemma inv_body:
  assumes inv: "race_inv s" and r: "rc_reader s = R_body n bs" and s': "read_step late (R_body n bs) s = Some s'"
  shows "race_inv s'"
proof -
  let ?g = "rc_seg s"
  note I = race_invD [OF inv]
  have o: "read_pos ?g \<noteq> write_pos ?g" "n = of_nat (first_len ?g)" "length bs \<le> min (unat n) (unat (rc_max s))"
    "bs = first_bytes ?g 4 (length bs)"
    using I(5) r by auto
  note e = first_entry [OF I(1) o(1)]
  have n: "unat n = first_len ?g" using e(2) o(2) by (simp add: unat_of_nat_len)
  show ?thesis
  proof (cases "length bs < min (unat n) (unat (rc_max s))")
    case True
    have "unat (read_pos ?g + 4) = unat (read_pos ?g) + 4"
      using e(1) esz_props(1) [of "first_len ?g"] unat_lt_u64 [of "write_pos ?g"] by (subst unat_add_u64) auto
    then have "reader_ok ?g (rc_max s) (R_body n (bs @ [get_byte (rc_cur s + 4) (length bs) ?g]))"
      using o I(2) True by (simp add: first_bytes_Suc get_byte_ring)
    moreover have "s' = s\<lparr>rc_reader := R_body n (bs @ [get_byte (rc_cur s + 4) (length bs) ?g])\<rparr>" using s' True by simp
    ultimately show ?thesis using inv_reader [OF inv] by metis
  next
    case False
    let ?p = "rc_cur s + entry_size n"
    have s': "s' = s\<lparr>rc_cur := ?p, rc_seg := ?g\<lparr>read_pos := ?p\<rparr>, rc_got := rc_got s @ [(bs, n)], rc_reader := R_word\<rparr>"
      using s' by (simp only: read_step.simps if_not_P [OF False] Let_def option.inject)
    have c: "contents ?g = first_bytes ?g 4 (first_len ?g) # contents (?g\<lparr>read_pos := ?p\<rparr>)" "seg_inv (?g\<lparr>read_pos := ?p\<rparr>)"
      using e(3,4) o(2) I(2) by simp_all
    have "bs = take (unat (rc_max s)) (first_bytes ?g 4 (first_len ?g))"
      using o(3,4) False n by (simp add: first_bytes_def cyc_def take_map min_def split: if_splits)
    then have b: "(bs, n) = clip (rc_max s) (first_bytes ?g 4 (first_len ?g))"
      by (simp add: clip_def o(2) first_bytes_def)
    let ?k = "length (rc_got s)"
    have d: "drop ?k (rc_sent s) = first_bytes ?g 4 (first_len ?g) # contents (?g\<lparr>read_pos := ?p\<rparr>)"
      using I(6) c(1) by (simp add: flow_ok_def)
    then have k: "?k < length (rc_sent s)" by (metis drop_all list.distinct(1) not_less)
    then have "rc_sent s ! ?k = first_bytes ?g 4 (first_len ?g)" "drop (Suc ?k) (rc_sent s) = contents (?g\<lparr>read_pos := ?p\<rparr>)"
      using d by (simp_all add: Cons_nth_drop_Suc [symmetric])
    then have "flow_ok s'" using I(6) k b by (simp add: flow_ok_def s' take_Suc_conv_app_nth)
    then show ?thesis using I c(2) by (simp add: race_inv_def s')
  qed
qed

section \<open>Every event keeps the invariant\<close>

lemma inv_write_step:
  assumes inv: "race_inv s" and f: "fits s" and i: "i < length (rc_writers s)"
    and s': "write_step i late (rc_writers s ! i) s = Some s'"
  shows "race_inv s'"
proof -
  note lk = race_invD(3) [OF inv]
  note same = inv_writer_same [OF inv i] and move = inv_writer [OF inv i]
  show ?thesis
  proof (cases "rc_writers s ! i")
    case (W_lock d)
    then have "\<And>j. rc_lock s \<noteq> Held j" and e: "s' = set_writer i (W_drain d) (s\<lparr>rc_lock := Held i\<rparr>)"
      using s' by (auto split: robust.splits)
    then show ?thesis using move [of "W_drain d" "Held i"] by simp
  next
    case (W_drain d)
    then show ?thesis using s' same by (auto simp: Let_def cyc_def split: if_splits)
  next
    case (W_copy d w k)
    show ?thesis
    proof (cases "k < length (entry_bytes d)")
      case True
      then have "s' = set_writer i (W_copy d w (Suc k)) (s\<lparr>rc_seg := put_byte w k (entry_bytes d ! k) (rc_seg s)\<rparr>)"
        using s' W_copy by (simp add: Let_def)
      then show ?thesis using inv_store [OF inv f i W_copy True] by simp
    next
      case False
      then have "s' = set_writer i W_word (s\<lparr>rc_seg := (rc_seg s)\<lparr>write_pos := w + entry_size (of_nat (length d))\<rparr>,
          rc_sent := rc_sent s @ [d]\<rparr>)"
        using s' W_copy by (simp add: Let_def)
      then show ?thesis using inv_publish [OF inv f i W_copy False] by simp
    qed
  next
    case W_word
    then show ?thesis using s' inv_writer_same [OF inv_words(1) [OF inv], of i] i by auto
  next
    case W_wake
    have "rc_writers (wake_reader s) = rc_writers s" by (simp add: wake_reader_def)
    with W_wake show ?thesis using s' inv_writer_same [OF inv_wakes(1) [OF inv], of i] i by auto
  next
    case (W_unlock ok)
    then have "rc_lock s = Held i" using lk i by (auto simp: lock_ok_def)
    with W_unlock s' show ?thesis using move [of "W_ret ok" Free] by auto
  qed (use s' same in \<open>auto split: if_splits\<close>)
qed

lemma inv_read_step:
  assumes inv: "race_inv s" and s': "read_step late (rc_reader s) s = Some s'"
  shows "race_inv s'"
proof -
  note I = race_invD [OF inv]
  show ?thesis
  proof (cases "rc_reader s")
    case R_load
    let ?w = "write_pos (rc_seg s)"
    have "reader_ok (rc_seg s) (rc_max s) (R_head ?w [])" if "4 \<le> ?w - rc_cur s"
    proof -
      have ne: "read_pos (rc_seg s) \<noteq> ?w" using that I(2) by auto
      show ?thesis using first_entry(1) [OF I(1) ne] ne by (simp add: first_bytes_def cyc_def)
    qed
    then show ?thesis using s' R_load inv_reader [OF inv] by (auto simp: Let_def split: if_splits)
  next
    case (R_head w bs)
    then show ?thesis using inv_head [OF inv R_head] s' by simp
  next
    case (R_body n bs)
    then show ?thesis using inv_body [OF inv R_body] s' by simp
  next
    case R_word
    then show ?thesis using s' inv_reader [where p = R_wake, OF inv_words(2) [OF inv]] by auto
  next
    case R_wake
    then show ?thesis using s' inv_reader [OF inv_wakes(2) [OF inv], of "R_ret True"] by auto
  qed (use s' inv_reader [OF inv] in \<open>auto split: if_splits\<close>)
qed

lemma inv_crash:
  assumes inv: "race_inv s" and i: "i < length (rc_writers s)"
  shows "race_inv (crash i s)"
  unfolding crash_def by (rule inv_writer [OF inv i]) (use race_invD(3) [OF inv] in \<open>auto simp: lock_ok_def\<close>)

lemma inv_call_write:
  assumes inv: "race_inv s" and i: "i < length (rc_writers s)" and "idle_writer (rc_writers s ! i)"
  shows "race_inv (call_write i d s)"
  using inv_writer_same [OF inv i] assms(3) by (auto simp: call_write_def idle_writer_def)

lemma inv_step:
  assumes inv: "race_inv s" and f: "fits s" and s': "race_step e s = Some s'"
  shows "race_inv s'"
proof (cases e)
  case (Call_write i d)
  then show ?thesis using s' inv_call_write [OF inv] by (auto split: if_splits)
next
  case (Writer i late)
  then show ?thesis using s' inv_write_step [OF inv f] by (auto split: if_splits)
next
  case (Lock_fails i)
  then have i: "i < length (rc_writers s)" and e: "s' = set_writer i (W_ret False) s" "\<not> critical (rc_writers s ! i)"
    using s' by (auto split: if_splits writer.splits)
  then show ?thesis using inv_writer_same [OF inv i, of "W_ret False"] by simp
next
  case (Crash i)
  then show ?thesis using s' inv_crash [OF inv] by (auto split: if_splits)
next
  case Call_read
  then show ?thesis using s' inv_reader [OF inv] by (auto split: if_splits)
next
  case (Reader late)
  then show ?thesis using s' inv_read_step [OF inv] by simp
qed

lemma inv_run: "race_inv s \<Longrightarrow> orderly es s \<Longrightarrow> race_run es s = Some s' \<Longrightarrow> race_inv s'"
proof (induction es arbitrary: s)
  case (Cons e es)
  then show ?case using inv_step [of s e] by (auto split: option.splits)
qed simp

lemma inv_new:
  assumes "1024 \<le> unat cap" "8 dvd unat cap"
  shows "race_inv (new_race cap n mx)"
  using seg_inv_fresh [OF assms]
  by (auto simp: race_inv_def new_race_def lock_ok_def flow_ok_def fresh_segment_def)

lemma max_step: "race_step e s = Some s' \<Longrightarrow> rc_max s' = rc_max s"
proof (cases e)
  case (Writer i late)
  assume "race_step e s = Some s'"
  with Writer show ?thesis
    by (cases "rc_writers s ! i") (auto simp: Let_def wake_reader_def split: if_splits robust.splits)
next
  case (Reader late)
  assume "race_step e s = Some s'"
  with Reader show ?thesis by (cases "rc_reader s") (auto simp: Let_def wake_writers_def split: if_splits)
qed (auto simp: call_write_def crash_def split: if_splits writer.splits)

lemma max_run: "race_run es s = Some s' \<Longrightarrow> rc_max s' = rc_max s"
  by (induction es arbitrary: s) (auto split: option.splits dest: max_step)

end
