(* ===== verification/Bucket_Schedules.thy ===== *)
theory Bucket_Schedules
  imports Bucket_Race
begin

text \<open>
  Whole runs of the ring's threads: schedules and their composition, a writer or a reader that is
  not disturbed (where the steps of \<open>Bucket_Race\<close> give what \<open>Write\<close> and \<open>Read\<close> of \<open>Bucket_Segment\<close> give
  at once), and the two properties of the concurrent ring: order and integrity under every schedule,
  and the wake-up that can be lost.
\<close>

section \<open>Schedules\<close>

lemma race_run_append: "race_run (a @ b) s = (case race_run a s of None \<Rightarrow> None | Some t \<Rightarrow> race_run b t)"
  by (induction a arbitrary: s) (auto split: option.split)

lemma orderly_append:
  "race_run a s = Some t \<Longrightarrow> orderly (a @ b) s \<longleftrightarrow> orderly a s \<and> orderly b t"
proof (induction a arbitrary: s)
  case Nil
  then show ?case by (cases b) auto
qed (auto split: option.splits)

lemma fitsI: "(\<And>d w k. W_copy d w k \<in> set (rc_writers s) \<Longrightarrow> room d (rc_seg s)) \<Longrightarrow> fits s"
  by (auto simp: fits_def list_all_iff split: writer.split)

lemma fitsD: "fits s \<Longrightarrow> W_copy d w k \<in> set (rc_writers s) \<Longrightarrow> room d (rc_seg s)"
  by (force simp: fits_def list_all_iff)

lemma fits_reader [simp]: "fits (s\<lparr>rc_reader := p\<rparr>) = fits s"
  by (simp add: fits_def cong: writer.case_cong)

lemma fits_words [simp]:
  "fits (s\<lparr>rc_seg := (rc_seg s)\<lparr>drain_word := x\<rparr>\<rparr>) = fits s" "fits (s\<lparr>rc_seg := (rc_seg s)\<lparr>wake_word := x\<rparr>\<rparr>) = fits s"
  by (simp_all add: fits_def cong: writer.case_cong)

lemma fits_set_writer:
  assumes "fits s" "\<And>m. room m g = room m (rc_seg s)" "\<And>d w k. p = W_copy d w k \<Longrightarrow> room d (rc_seg s)"
    "rc_writers s' = (rc_writers s)[i := p]" "rc_seg s' = g"
  shows "fits s'"
proof (rule fitsI)
  fix d w k assume "W_copy d w k \<in> set (rc_writers s')"
  then have "W_copy d w k = p \<or> W_copy d w k \<in> set (rc_writers s)"
    using assms(4) set_update_subset_insert [of "rc_writers s" i p] by auto
  then show "room d (rc_seg s')" using assms(2,3,5) fitsD [OF assms(1)] by auto
qed

lemma fits_alone:
  assumes inv: "race_inv s" and i: "i < length (rc_writers s)" "critical (rc_writers s ! i)"
    and "rc_writers s' = (rc_writers s)[i := p]" "\<And>d w k. p = W_copy d w k \<Longrightarrow> room d (rc_seg s')"
  shows "fits s'"
proof (rule fitsI)
  fix d w k assume "W_copy d w k \<in> set (rc_writers s')"
  then obtain j where j: "j < length (rc_writers s)" "(rc_writers s)[i := p] ! j = W_copy d w k"
    using assms(4) by (auto simp: in_set_conv_nth)
  have "j = i"
  proof (rule ccontr)
    assume "j \<noteq> i"
    then have "critical (rc_writers s ! j)" using j by simp
    then show False using race_invD(3) [OF inv] i j(1) \<open>j \<noteq> i\<close> by (auto simp: lock_ok_def)
  qed
  then show "room d (rc_seg s')" using j i(1) assms(5) by simp
qed

text \<open>Room is lost only where a writer passes its wait.\<close>

lemma fits_write_step:
  assumes inv: "race_inv s" and f: "fits s" and i: "i < length (rc_writers s)"
    and s': "write_step i late (rc_writers s ! i) s = Some s'"
    and new: "\<And>d. rc_writers s ! i = W_drain d \<Longrightarrow> room d (rc_seg s)"
  shows "fits s'"
proof (cases "rc_writers s ! i")
  case (W_lock d)
  show ?thesis by (rule fits_set_writer [OF f refl, of "W_drain d" _ i])
      (use s' W_lock in \<open>auto split: robust.splits\<close>)
next
  case (W_drain d)
  show ?thesis by (rule fits_alone [OF inv i, of _ "rc_writers s' ! i"])
      (use s' W_drain new i in \<open>auto simp: Let_def split: if_splits\<close>)
next
  case (W_expected d)
  show ?thesis by (rule fits_alone [OF inv i, of _ "rc_writers s' ! i"]) (use s' W_expected i in \<open>auto split: if_splits\<close>)
next
  case (W_futex d e)
  show ?thesis by (rule fits_alone [OF inv i, of _ "rc_writers s' ! i"]) (use s' W_futex i in \<open>auto split: if_splits\<close>)
next
  case (W_asleep d)
  show ?thesis by (rule fits_alone [OF inv i, of _ "rc_writers s' ! i"]) (use s' W_asleep i in \<open>auto split: if_splits\<close>)
next
  case (W_copy d w k)
  have r: "room d (rc_seg s)" by (rule fits_copy [OF f i W_copy])
  have w: "w = write_pos (rc_seg s)" using writer_at [OF inv i] W_copy by simp
  have "room d (put_byte w k (entry_bytes d ! k) (rc_seg s))" if "k < length (entry_bytes d)"
    using put_byte_keeps(3) [OF race_invD(1) [OF inv] r that] r w by simp
  then show ?thesis by (intro fits_alone [OF inv i, of _ "rc_writers s' ! i"])
      (use s' W_copy i in \<open>auto simp: Let_def split: if_splits\<close>)
next
  case W_word
  show ?thesis by (rule fits_alone [OF inv i, of _ "W_wake"]) (use s' W_word in auto)
next
  case W_wake
  show ?thesis by (rule fits_alone [OF inv i, of _ "W_unlock True"]) (use s' W_wake in \<open>auto simp: wake_reader_def\<close>)
next
  case (W_unlock ok)
  show ?thesis by (rule fits_alone [OF inv i, of _ "W_ret ok"]) (use s' W_unlock in auto)
qed (use s' in auto)

lemma room_consume:
  assumes "seg_inv g" "read_pos g \<noteq> write_pos g" "room d g"
  shows "room d (g\<lparr>read_pos := read_pos g + entry_size (of_nat (first_len g))\<rparr>)"
  using consumed(3,4) [OF assms(1,2) refl refl] assms(3) by (auto simp: room_def used_def first_len_def)

lemma fits_read_step:
  assumes inv: "race_inv s" and f: "fits s" and s': "read_step late (rc_reader s) s = Some s'"
  shows "fits s'"
proof (cases "rc_reader s")
  case (R_body n bs)
  have n: "read_pos (rc_seg s) \<noteq> write_pos (rc_seg s)" "n = of_nat (first_len (rc_seg s))"
    using race_invD(5) [OF inv] R_body by auto
  show ?thesis
  proof (rule fitsI)
    fix d w k assume "W_copy d w k \<in> set (rc_writers s')"
    then have "room d (rc_seg s)" using s' R_body fitsD [OF f] by (auto simp: Let_def split: if_splits)
    then show "room d (rc_seg s')"
      using s' R_body room_consume [OF race_invD(1) [OF inv] n(1)] n(2) race_invD(2) [OF inv]
      by (auto simp: Let_def split: if_splits)
  qed
next
  case R_wake
  have "W_copy d w k \<in> set (rc_writers s)" if "W_copy d w k \<in> set (map woken (rc_writers s))" for d w k
  proof -
    from that obtain p where "p \<in> set (rc_writers s)" "W_copy d w k = woken p" by auto
    moreover from this(2) have "woken p = p" by (cases p) auto
    ultimately show ?thesis by simp
  qed
  moreover have "rc_writers s' = map woken (rc_writers s)" "rc_seg s' = rc_seg s"
    using s' R_wake by (auto simp: wake_writers_def)
  ultimately show ?thesis using fitsD [OF f] by (intro fitsI) metis
next
  case R_word
  then have "s' = (s\<lparr>rc_seg := (rc_seg s)\<lparr>drain_word := drain_word (rc_seg s) + 1\<rparr>\<rparr>)\<lparr>rc_reader := R_wake\<rparr>" using s' by simp
  then show ?thesis using f by (simp only: fits_reader fits_words)
qed (use s' f in \<open>auto simp: Let_def split: if_splits\<close>)

lemma orderly_readers: "race_inv s \<Longrightarrow> fits s \<Longrightarrow> orderly (replicate n (Reader late)) s"
proof (induction n arbitrary: s)
  case (Suc n)
  show ?case
  proof (cases "race_step (Reader late) s")
    case (Some t)
    then have "race_inv t" "fits t" using inv_step [OF Suc.prems, of "Reader late"] fits_read_step [OF Suc.prems] by auto
    with Some Suc show ?thesis by simp
  qed (use Suc in simp)
qed simp

section \<open>A thread that runs alone\<close>

text \<open>Byte by byte, the copy stores what \<open>store_entry\<close> stores.\<close>

definition put_bytes :: "u64 \<Rightarrow> bytes \<Rightarrow> nat \<Rightarrow> segment \<Rightarrow> segment" where
  "put_bytes w bs n g = fold (\<lambda>j. put_byte w j (bs ! j)) [0..<n] g"

lemma put_bytes_Suc: "put_bytes w bs (Suc n) g = put_byte w n (bs ! n) (put_bytes w bs n g)"
  by (simp add: put_bytes_def)

lemma put_bytes_fields [simp]:
  "capacity (put_bytes w bs n g) = capacity g" "magic (put_bytes w bs n g) = magic g" "read_pos (put_bytes w bs n g) = read_pos g"
  "write_pos (put_bytes w bs n g) = write_pos g" "wake_word (put_bytes w bs n g) = wake_word g"
  "drain_word (put_bytes w bs n g) = drain_word g" "owner_pid (put_bytes w bs n g) = owner_pid g"
  "length (ring (put_bytes w bs n g)) = length (ring g)"
  by (induction n) (simp_all add: put_bytes_Suc, simp_all add: put_bytes_def put_byte_def)

lemma nth_put_bytes:
  assumes "length (ring g) = unat (capacity g)" "n \<le> unat (capacity g)" "i < unat (capacity g)"
  shows "ring (put_bytes w bs n g) ! ((unat w + i) mod unat (capacity g)) =
    (if i < n then bs ! i else ring g ! ((unat w + i) mod unat (capacity g)))"
  using assms(2)
proof (induction n)
  case 0
  then show ?case by (simp add: put_bytes_def)
next
  case (Suc n)
  have "(unat w + i) mod unat (capacity g) < unat (capacity g)" using assms(3) by simp
  moreover have "(unat w + i) mod unat (capacity g) \<noteq> (unat w + n) mod unat (capacity g)" if "i \<noteq> n"
    using that assms(3) Suc.prems mod_distinct [of "unat w + i" "unat w + n" "unat (capacity g)"]
      mod_distinct [of "unat w + n" "unat w + i" "unat (capacity g)"] by (cases "i < n") auto
  ultimately show ?case
    using Suc assms(1) by (cases "i = n") (auto simp: put_bytes_Suc put_byte_ring)
qed

lemma window_index:
  assumes "j < (c :: nat)"
  obtains i where "i < c" "(w + i) mod c = j"
proof
  show "(j + (c - w mod c)) mod c < c" using assms by simp
  have "w mod c \<le> c" using assms by (simp add: less_imp_le)
  then have "w mod c + (j + (c - w mod c)) = j + c" by simp
  then show "(w + (j + (c - w mod c)) mod c) mod c = j"
    using assms by (metis mod_add_left_eq mod_add_right_eq mod_add_self2 mod_less)
qed

lemma nth_store_entry:
  assumes "8 dvd w" "8 dvd c" "0 < c" "length r = c" "4 + length d \<le> c" "i < c"
  shows "store_entry c (w mod c) d r ! ((w + i) mod c) = (if i < 4 + length d then entry_bytes d ! i else r ! ((w + i) mod c))"
proof -
  let ?h = "le32 (of_nat (length d))"
  let ?r1 = "copy_in c (w mod c) ?h r"
  have l: "length ?r1 = c" "(w + 4) mod c < c" "w mod c < c" using assms by (auto intro!: length_copy_in)
  have e: "store_entry c (w mod c) d r = copy_in c ((w + 4) mod c) d ?r1"
    using assms by (intro store_entry_copies) auto
  consider "i < 4" | "4 \<le> i" "i < 4 + length d" | "4 + length d \<le> i" by linarith
  then show ?thesis
  proof cases
    case 1
    then show ?thesis unfolding e
      using copy_in_elsewhere [of d c ?r1 "w + i" "w + 4"] copy_in_at [of i ?h c r w] assms l
      by (simp add: entry_bytes_def nth_append)
  next
    case 2
    then show ?thesis unfolding e
      using copy_in_at [of "i - 4" d c ?r1 "w + 4"] assms l by (simp add: entry_bytes_def nth_append)
  next
    case 3
    then show ?thesis unfolding e
      using copy_in_elsewhere [of d c ?r1 "w + i" "w + 4"] copy_in_elsewhere [of ?h c r "w + i" w] assms l by simp
  qed
qed

lemma put_bytes_store:
  assumes "seg_inv g" "room d g"
  shows "put_bytes (write_pos g) (entry_bytes d) (length (entry_bytes d)) g =
    g\<lparr>ring := store_entry (unat (capacity g)) (unat (write_pos g mod capacity g)) d (ring g)\<rparr>"
proof -
  let ?c = "unat (capacity g)" and ?w = "unat (write_pos g)"
  let ?a = "put_bytes (write_pos g) (entry_bytes d) (length (entry_bytes d)) g" and ?r = "store_entry ?c (?w mod ?c) d (ring g)"
  have i: "8 dvd ?w" "8 dvd ?c" "0 < ?c" "length (ring g) = ?c" using assms(1) by (auto simp: seg_inv_def)
  have f: "4 + length d \<le> ?c" "length d < 2 ^ 32"
    using assms(2) esz_props(1) [of "length d"] by (auto simp: room_def)
  have "ring ?a = ?r"
  proof (rule nth_equalityI)
    show "length (ring ?a) = length ?r" using i store_entry_effect(1) [OF i f] by simp
    fix j assume "j < length (ring ?a)"
    then have "j < ?c" using i(4) by simp
    then obtain k where k: "k < ?c" "(?w + k) mod ?c = j" by (rule window_index)
    show "ring ?a ! j = ?r ! j"
      using nth_put_bytes [OF i(4), of "length (entry_bytes d)" k "write_pos g" "entry_bytes d"]
        nth_store_entry [OF i f(1) k(1)] f(1) k by (simp add: entry_bytes_def)
  qed
  moreover have "?a = g\<lparr>ring := ring ?a\<rparr>" by (intro segment.equality) simp_all
  ultimately show ?thesis by (simp add: unat_mod)
qed

text \<open>A writer that is not disturbed does in its steps what \<open>Write\<close> does at once.\<close>

lemma copy_run:
  "i < length (rc_writers s) \<Longrightarrow> n \<le> length (entry_bytes d) \<Longrightarrow>
   race_run (replicate n (Writer i late)) (set_writer i (W_copy d w 0) s) =
     Some (set_writer i (W_copy d w n) (s\<lparr>rc_seg := put_bytes w (entry_bytes d) n (rc_seg s)\<rparr>))"
proof (induction n)
  case 0
  then show ?case by (simp add: put_bytes_def)
next
  case (Suc n)
  then have "race_run (replicate n (Writer i late) @ [Writer i late]) (set_writer i (W_copy d w 0) s) =
     Some (set_writer i (W_copy d w (Suc n)) (s\<lparr>rc_seg := put_bytes w (entry_bytes d) (Suc n) (rc_seg s)\<rparr>))"
    by (simp add: race_run_append put_bytes_Suc set_writer_def Let_def)
  then show ?case by (simp only: replicate_append_same replicate.simps)
qed

lemma solo_write:
  assumes i: "i < length (rc_writers s)" "rc_writers s ! i = W_lock d" and l: "\<And>j. rc_lock s \<noteq> Held j"
    and inv: "seg_inv (rc_seg s)" and r: "room d (rc_seg s)"
  shows "race_run (replicate (length d + 10) (Writer i late)) s =
    Some (set_writer i (W_ret True) (wake_reader s\<lparr>rc_seg := publish d (rc_seg s), rc_lock := Free, rc_sent := rc_sent s @ [d]\<rparr>))"
proof -
  let ?g = "rc_seg s" and ?w = "write_pos (rc_seg s)" and ?n = "length (entry_bytes d)"
  let ?t = "set_writer i (W_copy d ?w 0) (s\<lparr>rc_lock := Held i\<rparr>)"
  have "kEntryAlign \<le> capacity ?g - (write_pos ?g - read_pos ?g)"
    using r free_word [OF inv] esz_props(4) [of "length d"] by (auto simp: kEntryAlign_def word_le_nat_alt room_def)
  then have a: "race_run (replicate 2 (Writer i late)) s = Some ?t"
    using i l by (auto simp: numeral_2_eq_2 set_writer_def Let_def split: robust.split)
  have b: "race_run (replicate ?n (Writer i late)) ?t =
      Some (set_writer i (W_copy d ?w ?n) (s\<lparr>rc_lock := Held i, rc_seg := put_bytes ?w (entry_bytes d) ?n ?g\<rparr>))"
    using copy_run [of i "s\<lparr>rc_lock := Held i\<rparr>" ?n] i(1) by simp
  let ?u = "set_writer i (W_copy d ?w ?n) (s\<lparr>rc_lock := Held i, rc_seg := put_bytes ?w (entry_bytes d) ?n ?g\<rparr>)"
  have c: "race_run (replicate 4 (Writer i late)) ?u = Some (set_writer i (W_ret True)
      (wake_reader s\<lparr>rc_seg := publish d ?g, rc_lock := Free, rc_sent := rc_sent s @ [d]\<rparr>))"
    using i(1) by (simp add: put_bytes_store [OF inv r] eval_nat_numeral Let_def set_writer_def wake_reader_def publish_def)
  have "replicate (length d + 10) (Writer i late) =
      replicate 2 (Writer i late) @ replicate ?n (Writer i late) @ replicate 4 (Writer i late)"
    by (simp only: replicate_add [symmetric]) (simp add: entry_bytes_def)
  then show ?thesis by (simp only: race_run_append a b c option.case)
qed

text \<open>A reader with a message before it takes it in \<open>9 + min n max\<close> steps of its own.\<close>

lemma head_run:
  "n \<le> 4 \<Longrightarrow> race_run (replicate n (Reader late)) (s\<lparr>rc_reader := R_head w []\<rparr>) =
     Some (s\<lparr>rc_reader := R_head w (map (\<lambda>j. get_byte (rc_cur s) j (rc_seg s)) [0..<n])\<rparr>)"
proof (induction n)
  case (Suc n)
  then have "race_run (replicate n (Reader late) @ [Reader late]) (s\<lparr>rc_reader := R_head w []\<rparr>) =
     Some (s\<lparr>rc_reader := R_head w (map (\<lambda>j. get_byte (rc_cur s) j (rc_seg s)) [0..<Suc n])\<rparr>)"
    by (simp add: race_run_append)
  then show ?case by (simp only: replicate_append_same replicate.simps)
qed simp

lemma body_run:
  "k \<le> min (unat n) (unat (rc_max s)) \<Longrightarrow> race_run (replicate k (Reader late)) (s\<lparr>rc_reader := R_body n []\<rparr>) =
     Some (s\<lparr>rc_reader := R_body n (map (\<lambda>j. get_byte (rc_cur s + 4) j (rc_seg s)) [0..<k])\<rparr>)"
proof (induction k)
  case (Suc k)
  then have "race_run (replicate k (Reader late) @ [Reader late]) (s\<lparr>rc_reader := R_body n []\<rparr>) =
     Some (s\<lparr>rc_reader := R_body n (map (\<lambda>j. get_byte (rc_cur s + 4) j (rc_seg s)) [0..<Suc k])\<rparr>)"
    by (simp add: race_run_append)
  then show ?case by (simp only: replicate_append_same replicate.simps)
qed simp

lemma inv_readers: "race_inv s \<Longrightarrow> race_run (replicate n (Reader late)) s = Some s' \<Longrightarrow> race_inv s'"
proof (induction n arbitrary: s)
  case (Suc n)
  then show ?case using inv_read_step [of s late] by (auto split: option.splits)
qed simp

lemma solo_read:
  assumes inv: "race_inv s" and rd: "rc_reader s = R_load" and c: "contents (rc_seg s) = m # ms"
  shows "\<exists>s'. race_run (replicate (9 + min (length m) (unat (rc_max s))) (Reader late)) s = Some s' \<and> race_inv s' \<and>
    rc_got s' = rc_got s @ [clip (rc_max s) m] \<and> contents (rc_seg s') = ms \<and> rc_sent s' = rc_sent s \<and>
    rc_reader s' = R_ret True \<and> rc_lock s' = rc_lock s \<and> rc_writers s' = map woken (rc_writers s) \<and>
    rc_max s' = rc_max s"
proof -
  let ?g = "rc_seg s" and ?w = "write_pos (rc_seg s)" and ?k = "min (length m) (unat (rc_max s))"
  note I = race_invD [OF inv]
  have ne: "read_pos ?g \<noteq> ?w" using c seg_inv_empty [OF I(1)] by auto
  note e = first_entry [OF I(1) ne]
  define n :: u32 where "n = of_nat (first_len ?g)"
  have m: "m = first_bytes ?g 4 (first_len ?g)" using c e(3) by simp
  have n: "unat n = length m" "length m = first_len ?g"
    using e(2) m by (simp_all add: n_def first_bytes_def unat_of_nat_len)
  have d: "unat (?w - rc_cur s) = unat ?w - unat (read_pos ?g)" using e(1) I(2) by (simp add: unat_sub_le)
  have "4 \<le> ?w - rc_cur s" using d e(1) esz_props(4) [of "first_len ?g"] by (simp add: word_le_nat_alt)
  then have 1: "race_run [Reader late] s = Some (s\<lparr>rc_reader := R_head ?w []\<rparr>)" using rd by (simp add: Let_def)
  define bs where "bs = map (\<lambda>j. get_byte (rc_cur s) j ?g) [0..<4]"
  have 2: "race_run (replicate 4 (Reader late)) (s\<lparr>rc_reader := R_head ?w []\<rparr>) = Some (s\<lparr>rc_reader := R_head ?w bs\<rparr>)"
    unfolding bs_def by (rule head_run) simp
  have "race_inv (s\<lparr>rc_reader := R_head ?w []\<rparr>)" using inv_reader [OF inv] ne e(1) by (simp add: first_bytes_def cyc_def)
  then have "race_inv (s\<lparr>rc_reader := R_head ?w bs\<rparr>)" by (rule inv_readers [OF _ 2])
  then have "bs = first_bytes ?g 0 (length bs)" using race_invD(5) by fastforce
  then have bs: "le_val bs = first_len ?g" by (simp add: first_len_word bs_def)
  have "\<not> ?w - rc_cur s < entry_size n" using d e(1,2) by (simp add: n_def word_less_nat_alt unat_entry_size unat_of_nat_len)
  then have 3: "race_run [Reader late] (s\<lparr>rc_reader := R_head ?w bs\<rparr>) = Some (s\<lparr>rc_reader := R_body n []\<rparr>)"
    using bs by (simp add: Let_def n_def, simp add: bs_def)
  define as where "as = map (\<lambda>j. get_byte (rc_cur s + 4) j ?g) [0..<?k]"
  have 4: "race_run (replicate ?k (Reader late)) (s\<lparr>rc_reader := R_body n []\<rparr>) = Some (s\<lparr>rc_reader := R_body n as\<rparr>)"
    unfolding as_def by (rule body_run) (simp add: n)
  let ?p = "rc_cur s + entry_size n"
  define s' where "s' = s\<lparr>rc_cur := ?p, rc_seg := ?g\<lparr>read_pos := ?p, drain_word := drain_word ?g + 1\<rparr>,
      rc_got := rc_got s @ [(as, n)], rc_writers := map woken (rc_writers s), rc_reader := R_ret True\<rparr>"
  have 5: "race_run (replicate 3 (Reader late)) (s\<lparr>rc_reader := R_body n as\<rparr>) = Some s'"
  proof -
    have "\<not> length as < min (unat n) (unat (rc_max s))" by (simp add: as_def n)
    then show ?thesis by (cases "length as < unat n") (simp_all add: numeral_3_eq_3 Let_def wake_writers_def s'_def)
  qed
  have "replicate (9 + ?k) (Reader late) =
      [Reader late] @ replicate 4 (Reader late) @ [Reader late] @ replicate ?k (Reader late) @ replicate 3 (Reader late)"
    by (simp add: replicate_add [symmetric] flip: replicate_Suc)
  then have run: "race_run (replicate (9 + ?k) (Reader late)) s = Some s'"
    by (simp only: race_run_append 1 2 3 4 5 option.case)
  have inv': "race_inv s'" by (rule inv_readers [OF inv run])
  have k: "drop (length (rc_got s)) (rc_sent s) = m # ms" using I(6) c by (simp add: flow_ok_def)
  then have l: "length (rc_got s) < length (rc_sent s)" by (metis drop_all list.distinct(1) not_less)
  have "rc_sent s ! length (rc_got s) = m" "drop (Suc (length (rc_got s))) (rc_sent s) = ms"
    using k l by (simp_all add: Cons_nth_drop_Suc [symmetric])
  then have "rc_got s' = rc_got s @ [clip (rc_max s) m] \<and> contents (rc_seg s') = ms"
    using race_invD(6) [OF inv'] I(6) l by (simp add: flow_ok_def s'_def take_Suc_conv_app_nth)
  then show ?thesis using run inv' by (intro exI [of _ s']) (simp add: s'_def)
qed

lemma wake_run:
  assumes inv: "race_inv s" and rd: "rc_reader s = R_asleep" and c: "contents (rc_seg s) \<noteq> []"
  shows "race_run (replicate 2 (Reader True)) s = Some (s\<lparr>rc_reader := R_load\<rparr>)"
proof -
  note I = race_invD [OF inv]
  have "read_pos (rc_seg s) \<noteq> write_pos (rc_seg s)" using c seg_inv_empty [OF I(1)] by auto
  then have "rc_cur s < write_pos (rc_seg s)"
    using I(1,2) by (auto simp: seg_inv_def word_less_nat_alt word_unat_eq_iff)
  then show ?thesis using rd by (simp add: numeral_2_eq_2)
qed

text \<open>A writer that finds room and is not disturbed keeps the schedule orderly.\<close>

definition unhindered :: "nat \<Rightarrow> race \<Rightarrow> bool" where
  "unhindered i s \<longleftrightarrow> race_inv s \<and> fits s \<and> i < length (rc_writers s) \<and>
     (case rc_writers s ! i of W_lock d \<Rightarrow> room d (rc_seg s) | W_drain d \<Rightarrow> room d (rc_seg s) | W_expected d \<Rightarrow> False
      | W_futex d e \<Rightarrow> False | W_asleep d \<Rightarrow> False | _ \<Rightarrow> True)"

lemma unhindered_step:
  assumes "unhindered i s" "race_step (Writer i late) s = Some s'"
  shows "unhindered i s'"
proof -
  have u: "race_inv s" "fits s" "i < length (rc_writers s)" using assms(1) by (auto simp: unhindered_def)
  have st: "write_step i late (rc_writers s ! i) s = Some s'" using assms(2) u(3) by simp
  have drain: "room d (rc_seg s)" if "rc_writers s ! i = W_drain d" for d
    using assms(1) that by (simp add: unhindered_def)
  have "race_inv s'" "fits s'" using inv_step [OF u(1,2) assms(2)] fits_write_step [OF u st drain] by auto
  moreover have "i < length (rc_writers s') \<and> (case rc_writers s' ! i of W_lock d \<Rightarrow> room d (rc_seg s') | W_drain d \<Rightarrow> room d (rc_seg s')
      | W_expected d \<Rightarrow> False | W_futex d e \<Rightarrow> False | W_asleep d \<Rightarrow> False | _ \<Rightarrow> True)"
  proof (cases "rc_writers s ! i")
    case (W_lock d)
    then show ?thesis using st u(3) assms(1) by (auto simp: unhindered_def split: robust.splits)
  next
    case (W_drain d)
    have "kEntryAlign \<le> capacity (rc_seg s) - (write_pos (rc_seg s) - read_pos (rc_seg s))"
      using drain [OF W_drain] free_word [OF race_invD(1) [OF u(1)]] esz_props(4) [of "length d"]
      by (auto simp: kEntryAlign_def word_le_nat_alt room_def)
    then show ?thesis using st u(3) W_drain by (auto simp: Let_def)
  qed (use st u(3) assms(1) in \<open>auto simp: unhindered_def Let_def wake_reader_def split: if_splits\<close>)
  ultimately show ?thesis by (simp add: unhindered_def)
qed

lemma orderly_writer: "unhindered i s \<Longrightarrow> orderly (replicate n (Writer i late)) s"
proof (induction n arbitrary: s)
  case (Suc n)
  show ?case
  proof (cases "race_step (Writer i late) s")
    case (Some t)
    then have "orderly (replicate n (Writer i late)) t" using Suc.IH unhindered_step [OF Suc.prems] by blast
    with Some Suc.prems show ?thesis by (simp add: unhindered_def)
  qed (use Suc.prems in \<open>simp add: unhindered_def\<close>)
qed (simp add: unhindered_def)

section \<open>Properties\<close>

text \<open>
  Room for the entry is what the code does not test. It is there in every schedule whose messages
  fit into the ring together, whether or not the reader takes any of them.
\<close>

fun awaited :: "writer \<Rightarrow> bytes option" where
  "awaited (W_lock d) = Some d" | "awaited (W_drain d) = Some d" | "awaited (W_expected d) = Some d"
| "awaited (W_futex d e) = Some d" | "awaited (W_asleep d) = Some d" | "awaited (W_copy d w k) = Some d"
| "awaited _ = None"

definition weight :: "writer \<Rightarrow> nat" where
  "weight p = (case awaited p of Some d \<Rightarrow> esz (length d) | None \<Rightarrow> 0)"

definition load :: "race \<Rightarrow> nat" where
  "load s = unat (write_pos (rc_seg s)) + sum_list (map weight (rc_writers s))"

fun call_size :: "event \<Rightarrow> nat" where
  "call_size (Call_write i d) = esz (length d)"
| "call_size _ = 0"

definition small_calls :: "race \<Rightarrow> bool" where
  "small_calls s \<longleftrightarrow> (\<forall>p \<in> set (rc_writers s). case awaited p of Some d \<Rightarrow> length d < 2 ^ 32 | None \<Rightarrow> True)"

lemma weight_update: "i < length ws \<Longrightarrow> sum_list (map weight (ws[i := p])) + weight (ws ! i) = sum_list (map weight ws) + weight p"
proof -
  assume i: "i < length ws"
  then have "weight (ws ! i) \<le> sum_list (map weight ws)" using elem_le_sum_list [of i "map weight ws"] by simp
  with i show ?thesis by (simp add: map_update sum_list_update)
qed

text \<open>A writer's step that publishes nothing takes no weight on.\<close>

lemma load_set_writer:
  assumes "i < length (rc_writers s)" "weight p \<le> weight (rc_writers s ! i)" "small_calls s"
    and "\<And>d. awaited p = Some d \<Longrightarrow> awaited (rc_writers s ! i) = Some d"
    and "rc_writers s' = (rc_writers s)[i := p]" "write_pos (rc_seg s') = write_pos (rc_seg s)"
  shows "load s' \<le> load s \<and> small_calls s'"
proof -
  have "load s' \<le> load s" using weight_update [OF assms(1), of p] assms(2,5,6) by (simp add: load_def)
  moreover have "small_calls s'" unfolding small_calls_def assms(5)
  proof
    fix q assume "q \<in> set ((rc_writers s)[i := p])"
    then consider "q = p" | "q \<in> set (rc_writers s)" using set_update_subset_insert by fastforce
    then show "case awaited q of Some d \<Rightarrow> length d < 2 ^ 32 | None \<Rightarrow> True"
    proof cases
      case 1
      then show ?thesis using assms(4) bspec [OF assms(3) [unfolded small_calls_def] nth_mem [OF assms(1)]] by (auto split: option.splits)
    qed (use assms(3) in \<open>simp add: small_calls_def\<close>)
  qed
  ultimately show ?thesis ..
qed

lemma load_write_step:
  assumes "race_inv s" "small_calls s" "load s < 2 ^ 64" "i < length (rc_writers s)" "write_step i late (rc_writers s ! i) s = Some s'"
  shows "load s' \<le> load s \<and> small_calls s'"
proof (cases "\<exists>d w k. rc_writers s ! i = W_copy d w k \<and> \<not> k < length (entry_bytes d)")
  case True
  then obtain d w k where c: "rc_writers s ! i = W_copy d w k" "\<not> k < length (entry_bytes d)" by blast
  have d: "length d < 2 ^ 32" using bspec [OF assms(2) [unfolded small_calls_def] nth_mem [OF assms(4)]] c(1) by simp
  have "writer_ok (rc_seg s) (rc_writers s ! i)" by (rule race_invD(4) [OF assms(1) nth_mem [OF assms(4)]])
  then have w: "w = write_pos (rc_seg s)" using c(1) by simp
  have s': "rc_writers s' = (rc_writers s)[i := W_word]" "write_pos (rc_seg s') = w + entry_size (of_nat (length d))"
    using assms(5) c by (auto simp: Let_def)
  have wt: "weight (W_copy d w k) = esz (length d)" "weight W_word = 0" by (simp_all add: weight_def)
  have sum: "sum_list (map weight ((rc_writers s)[i := W_word])) + esz (length d) = sum_list (map weight (rc_writers s))"
    using weight_update [OF assms(4), of W_word] c(1) wt by simp
  have e: "unat (entry_size (of_nat (length d))) = esz (length d)" using d by (simp add: unat_entry_size unat_of_nat take_bit_nat_eq_self)
  have "unat (write_pos (rc_seg s)) + esz (length d) < 2 ^ 64" using assms(3) sum by (simp add: load_def)
  then have "unat (w + entry_size (of_nat (length d))) = unat w + esz (length d)"
    using unat_add_u64 [of w "entry_size (of_nat (length d))"] e w by simp
  then have "load s' = load s" using sum w by (simp add: load_def s')
  moreover have "small_calls s'" unfolding small_calls_def s'(1)
    using assms(2) by (auto simp: small_calls_def dest!: subsetD [OF set_update_subset_insert])
  ultimately show ?thesis by simp
next
  case False
  have "\<exists>p. rc_writers s' = (rc_writers s)[i := p] \<and> write_pos (rc_seg s') = write_pos (rc_seg s) \<and>
      (awaited p = None \<or> awaited p = awaited (rc_writers s ! i))"
    using assms(5) False
    by (cases "rc_writers s ! i") (auto simp: Let_def put_byte_def wake_reader_def split: if_splits robust.splits)
  then obtain p where p: "rc_writers s' = (rc_writers s)[i := p]" "write_pos (rc_seg s') = write_pos (rc_seg s)"
    "awaited p = None \<or> awaited p = awaited (rc_writers s ! i)" by blast
  show ?thesis by (rule load_set_writer [OF assms(4) _ assms(2) _ p(1,2)]) (use p(3) in \<open>auto simp: weight_def\<close>)
qed

lemma load_step:
  assumes "race_inv s" "small_calls s" "load s < 2 ^ 64" "race_step e s = Some s'"
  shows "load s' \<le> load s + call_size e \<and> small_calls s'"
proof (cases e)
  case (Call_write i d)
  then have i: "i < length (rc_writers s)" "idle_writer (rc_writers s ! i)" "length d < 2 ^ 32" "s' = call_write i d s"
    using assms(4) by (auto split: if_splits)
  have "weight (rc_writers s ! i) = 0" using i(2) by (auto simp: idle_writer_def weight_def)
  have "\<exists>p. rc_writers s' = (rc_writers s)[i := p] \<and> write_pos (rc_seg s') = write_pos (rc_seg s) \<and> (p = W_ret False \<or> p = W_lock d)"
    using i(4) by (auto simp: call_write_def)
  then obtain p where p: "rc_writers s' = (rc_writers s)[i := p]" "write_pos (rc_seg s') = write_pos (rc_seg s)" "p = W_ret False \<or> p = W_lock d"
    by blast
  have "weight p \<le> esz (length d)" using p(3) by (auto simp: weight_def)
  then have "load s' \<le> load s + esz (length d)"
    using weight_update [OF i(1), of p] by (simp add: load_def p(1,2))
  moreover have "small_calls s'" unfolding small_calls_def p(1)
    using assms(2) i(3) p(3) by (auto simp: small_calls_def dest!: subsetD [OF set_update_subset_insert])
  ultimately show ?thesis by (simp add: Call_write)
next
  case (Writer i late)
  then show ?thesis using assms(4) load_write_step [OF assms(1-3)] by (auto split: if_splits)
next
  case (Lock_fails i)
  then have "i < length (rc_writers s)" "s' = set_writer i (W_ret False) s" using assms(4) by (auto split: if_splits writer.splits)
  then show ?thesis using load_set_writer [of i s "W_ret False" s'] assms(2) by (simp add: weight_def)
next
  case (Crash i)
  then have "i < length (rc_writers s)" "s' = crash i s" using assms(4) by (auto split: if_splits)
  then show ?thesis using load_set_writer [of i s W_dead s'] assms(2) by (simp add: weight_def crash_def)
next
  case Call_read
  then show ?thesis using assms(2,4) by (auto simp: load_def small_calls_def split: if_splits)
next
  case (Reader late)
  have a: "awaited (woken p) = awaited p" for p by (cases p) simp_all
  then have k: "weight \<circ> woken = weight" "small_calls (wake_writers s) = small_calls s"
    by (simp_all add: fun_eq_iff weight_def small_calls_def wake_writers_def)
  have "load s' = load s \<and> small_calls s'"
    using Reader assms(2,4) k a
    by (cases "rc_reader s") (auto simp: load_def small_calls_def Let_def wake_writers_def split: if_splits)
  then show ?thesis by simp
qed

lemma capacity_step: "race_step e s = Some s' \<Longrightarrow> capacity (rc_seg s') = capacity (rc_seg s)"
proof (cases e)
  case (Writer i late)
  assume "race_step e s = Some s'"
  with Writer show ?thesis
    by (cases "rc_writers s ! i") (auto simp: Let_def wake_reader_def put_byte_def split: if_splits robust.splits)
next
  case (Reader late)
  assume "race_step e s = Some s'"
  with Reader show ?thesis by (cases "rc_reader s") (auto simp: Let_def wake_writers_def split: if_splits)
qed (auto simp: call_write_def crash_def split: if_splits writer.splits)

lemma load_fits:
  assumes "race_inv s" "small_calls s" "load s \<le> unat (capacity (rc_seg s))"
  shows "fits s"
  unfolding fits_def list_all_iff
proof
  fix p assume p: "p \<in> set (rc_writers s)"
  have "room d (rc_seg s)" if "p = W_copy d w k" for d w k
  proof -
    have "weight p \<le> sum_list (map weight (rc_writers s))" using p by (intro member_le_sum_list) simp_all
    then have "unat (write_pos (rc_seg s)) + esz (length d) \<le> unat (capacity (rc_seg s))" using assms(3) that by (simp add: load_def weight_def)
    moreover have "length d < 2 ^ 32" using assms(2) p that by (auto simp: small_calls_def)
    ultimately show ?thesis using unat_lt_u64 [of "capacity (rc_seg s)"] by (simp add: room_def used_def)
  qed
  then show "case p of W_copy d w k \<Rightarrow> room d (rc_seg s) | _ \<Rightarrow> True" by (simp split: writer.split)
qed

lemma calls_fit_orderly:
  assumes "race_inv s" "small_calls s" "load s + sum_list (map call_size es) \<le> unat (capacity (rc_seg s))"
  shows "orderly es s"
  using assms
proof (induction es arbitrary: s)
  case Nil
  then show ?case by (simp add: load_fits)
next
  case (Cons e es)
  have f: "fits s" using Cons.prems by (intro load_fits) simp_all
  have "orderly es s'" if s': "race_step e s = Some s'" for s'
  proof (rule Cons.IH)
    have "load s < 2 ^ 64" using Cons.prems(3) unat_lt_u64 [of "capacity (rc_seg s)"] by simp
    note l = load_step [OF Cons.prems(1,2) this s']
    show "race_inv s'" by (rule inv_step [OF Cons.prems(1) f s'])
    show "small_calls s'" using l ..
    show "load s' + sum_list (map call_size es) \<le> unat (capacity (rc_seg s'))"
      using l Cons.prems(3) capacity_step [OF s'] by simp
  qed
  with f show ?case by (simp split: option.split)
qed

text \<open>C2: The ring with several writers and the reader at once, with writers dying at any step, under every
  schedule in which each writer that passes its wait has room for its whole entry. The code waits
  for 8 bytes only and so does not ensure this (see C12); it holds of every schedule in which the
  entries of all the messages written fit into the ring together. Then, however the steps are
  interleaved, no message is torn, lost or repeated: what \<open>Read\<close> has returned are the first published
  messages in the order of their publication, each cut to the buffer and with its true length, and the
  ring holds the others; at most one writer is in its critical section.\<close>

theorem Concurrent_ring_in_order:
  assumes "1024 \<le> unat cap" "8 dvd unat cap"
    and "orderly es (new_race cap n mx) \<or> sum_list (map call_size es) \<le> unat cap" "race_run es (new_race cap n mx) = Some s"
  shows "rc_got s = map (clip mx) (take (length (rc_got s)) (rc_sent s)) \<and>
    contents (rc_seg s) = drop (length (rc_got s)) (rc_sent s) \<and>
    (\<forall>i j. i < length (rc_writers s) \<and> j < length (rc_writers s) \<and> critical (rc_writers s ! i) \<and>
      critical (rc_writers s ! j) \<longrightarrow> i = j)"
proof -
  have new: "small_calls (new_race cap n mx)" "load (new_race cap n mx) = 0"
    by (simp_all add: small_calls_def load_def new_race_def fresh_segment_def weight_def sum_list_replicate)
  have "orderly es (new_race cap n mx)"
    using assms(3) calls_fit_orderly [OF inv_new [OF assms(1,2)] new(1), of es] new(2)
    by (auto simp: new_race_def fresh_segment_def)
  then have inv: "race_inv s" by (rule inv_run [OF inv_new [OF assms(1,2)] _ assms(4)])
  have "rc_max s = mx" using max_run [OF assms(4)] by (simp add: new_race_def)
  then show ?thesis using race_invD(3,6) [OF inv] by (auto simp: flow_ok_def lock_ok_def)
qed

text \<open>A run in which the first writer dies after two bytes, the second takes the mutex over and writes, and then the reader reads.\<close>

definition crash_run :: "event list" where
  "crash_run = [Call_write 0 [7, 8], Writer 0 False, Writer 0 False, Writer 0 False, Writer 0 False, Crash 0, Call_write 1 [9],
     Writer 1 False, Writer 1 False, Writer 1 False, Writer 1 False, Writer 1 False, Writer 1 False,
     Writer 1 False, Writer 1 False, Writer 1 False, Writer 1 False, Writer 1 False, Call_read]"

lemma fresh_fields:
  "capacity (fresh_segment c) = c" "magic (fresh_segment c) = kMagic" "write_pos (fresh_segment c) = 0"
  "read_pos (fresh_segment c) = 0" "wake_word (fresh_segment c) = 0" "drain_word (fresh_segment c) = 0"
  by (simp_all add: fresh_segment_def)

lemmas run_simps = new_race_def fresh_fields idle_writer_def idle_reader_def call_write_def set_writer_def entry_size_def
  align_down8_def kEntryAlign_def crash_def entry_bytes_def le32_def wake_reader_def numeral_2_eq_2 [symmetric]

lemma two_writers: "replicate 2 x = [x, x]"
  by (simp add: numeral_2_eq_2)

lemma crash_run_end:
  "\<exists>s. race_run crash_run (new_race 1024 2 8) = Some s \<and> rc_sent s = [[9]] \<and> rc_reader s = R_load \<and> rc_got s = [] \<and> rc_max s = 8"
  "orderly crash_run (new_race 1024 2 8)"
  unfolding crash_run_def by (simp add: run_simps two_writers, simp add: run_simps two_writers fits_def room_def used_def esz_def)

theorem Concurrent_ring_in_order_witness:
  "\<exists>s. race_run (crash_run @ replicate 10 (Reader False)) (new_race 1024 2 8) = Some s \<and>
     rc_got s = [([9], 1)] \<and> contents (rc_seg s) = []"
proof -
  obtain t where t: "race_run crash_run (new_race 1024 2 8) = Some t" "rc_sent t = [[9]]" "rc_reader t = R_load"
      "rc_got t = []" "rc_max t = 8"
    using crash_run_end(1) by blast
  have c: "(1024 :: nat) \<le> unat (1024 :: u64)" "8 dvd unat (1024 :: u64)" by simp_all
  have inv: "race_inv t" by (rule inv_run [OF inv_new [OF c] crash_run_end(2) t(1)])
  have "contents (rc_seg t) = [[9]]" using race_invD(6) [OF inv] t by (simp add: flow_ok_def)
  then obtain s where s: "race_run (replicate 10 (Reader False)) t = Some s" "length (rc_got s) = 1" "rc_sent s = [[9]]"
    using solo_read [OF inv t(3), of "[9]" "[]" False] t by auto
  have fit: "fits t" using orderly_append [OF t(1), of "[]"] crash_run_end(2) by simp
  have run: "race_run (crash_run @ replicate 10 (Reader False)) (new_race 1024 2 8) = Some s"
    using t(1) s(1) by (simp add: race_run_append)
  have ord: "orderly (crash_run @ replicate 10 (Reader False)) (new_race 1024 2 8)"
    using orderly_append [OF t(1)] crash_run_end(2) orderly_readers [OF inv fit] by blast
  show ?thesis
    using Concurrent_ring_in_order [OF c disjI1 [OF ord] run] run s by (intro exI [of _ s]) (simp add: clip_def)
qed

text \<open>
  \<open>wait_wake\<close> looks at \<open>write_pos\<close> first and loads the value to wait on afterwards; a message that is
  published in between is not seen, and its wake-up has already been counted.
\<close>

definition lost_wakeup :: "bytes \<Rightarrow> event list" where
  "lost_wakeup d = [Call_read, Reader False, Reader False, Call_write 0 d] @ replicate (length d + 10) (Writer 0 False) @
     [Reader False, Reader False]"

text \<open>C13: A wake-up can be lost. For every message that fits there is a schedule in which \<open>Write\<close> has returned
  true, the message lies in the ring, every writer is out, and yet the reader sleeps: no thread can take a
  step before the reader's deadline. The message itself is not lost: when the deadline passes, the reader
  wakes and returns it.\<close>

theorem Wakeup_lost_until_deadline:
  assumes "1024 \<le> unat cap" "8 dvd unat cap" "0 < n" "length d < 2 ^ 32" "esz (length d) \<le> unat cap"
  shows "\<exists>s. race_run (lost_wakeup d) (new_race cap n mx) = Some s \<and>
    rc_writers s ! 0 = W_ret True \<and> contents (rc_seg s) = [d] \<and> rc_got s = [] \<and>
    (\<forall>i late. race_step (Writer i late) s = None) \<and> race_step (Reader False) s = None \<and>
    (\<exists>t. race_run (replicate (11 + min (length d) (unat mx)) (Reader True)) s = Some t \<and> rc_got t = [clip mx d])"
proof -
  let ?g = "fresh_segment cap"
  note f = seg_inv_fresh [OF assms(1,2)]
  have room: "room d ?g" using assms(4,5) esz_props(2) [of "length d"] by (simp add: room_def used_def fresh_segment_def)
  define s1 where "s1 = set_writer 0 (W_lock d) (new_race cap n mx\<lparr>rc_reader := R_expected\<rparr>)"
  have "\<not> cap < entry_size (of_nat (length d))"
    using assms(4,5) by (simp add: word_less_nat_alt unat_entry_size unat_of_nat_len)
  then have 1: "race_run [Call_read, Reader False, Reader False, Call_write 0 d] (new_race cap n mx) = Some s1"
    using assms(3,4) by (simp add: new_race_def fresh_fields idle_reader_def idle_writer_def call_write_def set_writer_def s1_def Let_def)
  have s1: "rc_writers s1 = (replicate n W_out)[0 := W_lock d]" "rc_seg s1 = ?g" "rc_lock s1 = Free" "rc_reader s1 = R_expected"
      "rc_got s1 = []" "rc_sent s1 = []" "rc_max s1 = mx" "rc_cur s1 = 0"
    by (simp_all add: s1_def new_race_def)
  define s2 where "s2 = set_writer 0 (W_ret True) (s1\<lparr>rc_seg := publish d ?g, rc_lock := Free, rc_sent := [d]\<rparr>)"
  have 2: "race_run (replicate (length d + 10) (Writer 0 False)) s1 = Some s2"
    using solo_write [of 0 s1 d False] s1 assms(3) f room by (simp add: s2_def wake_reader_def)
  define s where "s = s2\<lparr>rc_reader := R_asleep\<rparr>"
  have 3: "race_run [Reader False, Reader False] s2 = Some s" using s1(4) by (simp add: s_def s2_def)
  have run: "race_run (lost_wakeup d) (new_race cap n mx) = Some s"
    unfolding lost_wakeup_def by (simp only: race_run_append 1 2 3 option.case)
  have "fits (new_race cap n mx)" "fits s1"
    by (auto intro!: fitsI simp: s1(1) new_race_def dest!: subsetD [OF set_update_subset_insert])
  then have o1: "orderly [Call_read, Reader False, Reader False, Call_write 0 d] (new_race cap n mx)"
    using 1 by (auto simp: Let_def split: option.splits if_splits)
  have inv1: "race_inv s1" by (rule inv_run [OF inv_new [OF assms(1,2)] o1 1])
  have "unhindered 0 s1" using inv1 \<open>fits s1\<close> s1 assms(3) room by (simp add: unhindered_def)
  then have inv2: "race_inv s2" using inv_run [OF inv1 orderly_writer 2] by simp
  have inv: "race_inv s" by (rule inv_readers [OF inv2, of 2 False]) (use 3 in \<open>simp add: numeral_2_eq_2\<close>)
  have c: "contents (rc_seg s) = [d]" using publish_inv [of ?g d] f room by (simp add: s_def s2_def)
  have q: "rc_reader s = R_asleep" "rc_got s = []" "rc_max s = mx" using s1 by (simp_all add: s_def s2_def)
  have w: "race_run (replicate 2 (Reader True)) s = Some (s\<lparr>rc_reader := R_load\<rparr>)"
    using wake_run [OF inv q(1)] c by simp
  obtain t where "race_run (replicate (9 + min (length d) (unat mx)) (Reader True)) (s\<lparr>rc_reader := R_load\<rparr>) = Some t"
      "rc_got t = [clip mx d]"
    using solo_read [OF inv_readers [OF inv w], of d "[]" True] c q by auto
  moreover have "replicate (11 + min (length d) (unat mx)) (Reader True) =
      replicate 2 (Reader True) @ replicate (9 + min (length d) (unat mx)) (Reader True)"
    by (simp only: replicate_add [symmetric]) simp
  ultimately have "\<exists>t. race_run (replicate (11 + min (length d) (unat mx)) (Reader True)) s = Some t \<and> rc_got t = [clip mx d]"
    using w by (simp only: race_run_append option.case) blast
  moreover have "write_step i late (rc_writers s ! i) s = None" if "i < length (rc_writers s)" for i late
    using that s1(1) by (cases "i = 0") (simp_all add: s_def s2_def)
  moreover have "rc_writers s ! 0 = W_ret True" using s1(1) assms(3) by (simp add: s_def s2_def)
  ultimately show ?thesis using run c q by (intro exI [of _ s]) simp
qed

theorem Wakeup_lost_until_deadline_witness:
  "\<exists>s t. race_run (lost_wakeup [1, 2, 3]) (new_race 4096 1 64) = Some s \<and> race_step (Reader False) s = None \<and>
    contents (rc_seg s) = [[1, 2, 3]] \<and> race_run (replicate 14 (Reader True)) s = Some t \<and> rc_got t = [([1, 2, 3], 3)]"
proof -
  have "(1024 :: nat) \<le> unat (4096 :: u64)" "8 dvd unat (4096 :: u64)" "0 < (1 :: nat)"
    "length [1, 2, 3 :: u8] < 2 ^ 32" "esz (length [1, 2, 3 :: u8]) \<le> unat (4096 :: u64)"
    by (simp_all add: esz_def)
  from Wakeup_lost_until_deadline [OF this, of 64] show ?thesis by (auto simp: clip_def)
qed

end
