(* ===== verification/Data_Model.thy ===== *)
theory Data_Model
  imports Prelude_DTS Interfaces
begin

text \<open>
  The data context's vocabulary (\<open>contexts/data/domain\<close>): configuration constants and hash keys
  (\<open>data_config.h\<close>), the structures laid out in memory (\<open>data_model.h\<close>), the table of the 500 cell
  data ids and their layout in a raw frame (\<open>data_ids.h\<close>), the slice extractors (\<open>extractors.cpp\<close>)
  and their registry (\<open>extractor_registry.cpp\<close>). The main results: the 500 slices tile the 32 KiB
  frame behind its 10-byte head without gap or overlap, and the registry built by
  \<open>InitExtractors\<close> holds exactly one extractor for every id.
\<close>

section \<open>Configuration and keys (data\_config.h)\<close>

definition kCellSlotCap :: u32 where "kCellSlotCap = 384"
definition kTickMs :: u32 where "kTickMs = 100"
definition kPeriod1S :: u32 where "kPeriod1S = 10"
definition kTtlPeriods :: u32 where "kTtlPeriods = 3"
definition kFrameBudgetWarnUs :: u64 where "kFrameBudgetWarnUs = 3000"
definition kFrameBudgetAlarmUs :: u64 where "kFrameBudgetAlarmUs = 5000"

definition CellHashKey :: "u32 \<Rightarrow> u32 \<Rightarrow> u64" where
  "CellHashKey cellId cpId = push_bit 32 (ucast cellId) OR ucast cpId"

definition UeHashKey :: "u32 \<Rightarrow> u32 \<Rightarrow> u64" where
  "UeHashKey cellId ueId = push_bit 32 (ucast cellId) OR ucast ueId"

section \<open>Data ids (data\_ids.h)\<close>

datatype DataType = CELL | UE

primrec data_type_u16 :: "DataType \<Rightarrow> u16" where
  "data_type_u16 CELL = 0"
| "data_type_u16 UE = 1"

definition kCellDataIdBase :: u16 where "kCellDataIdBase = 1"
definition kCellDataIdCount :: u16 where "kCellDataIdCount = 500"
definition kRawLen :: u32 where "kRawLen = 32768"

definition kCellCacheSizes :: "u16 list" where
  "kCellCacheSizes = [
    167, 32, 10, 193, 74, 66, 61, 39, 192, 30, 177, 193, 143, 26, 155, 112, 12, 11, 27, 59,
    63, 133, 158, 10, 147, 54, 187, 170, 183, 143, 111, 60, 118, 154, 75, 5, 198, 44, 182, 112,
    91, 75, 43, 59, 199, 90, 30, 27, 101, 28, 95, 92, 158, 71, 15, 190, 121, 141, 35, 100,
    24, 145, 79, 164, 162, 96, 151, 53, 184, 21, 15, 173, 62, 78, 24, 63, 29, 101, 75, 120,
    166, 97, 45, 98, 94, 57, 175, 72, 183, 178, 169, 22, 159, 166, 47, 140, 190, 66, 45, 122,
    101, 73, 167, 180, 146, 60, 179, 87, 200, 18, 62, 12, 84, 106, 72, 20, 58, 149, 187, 84,
    58, 171, 131, 105, 168, 121, 40, 71, 39, 67, 194, 147, 141, 71, 195, 153, 113, 153, 106, 96,
    60, 39, 134, 130, 27, 197, 16, 32, 43, 164, 44, 178, 112, 156, 20, 102, 101, 156, 123, 139,
    68, 145, 6, 178, 188, 33, 178, 141, 196, 72, 200, 168, 91, 32, 79, 115, 44, 120, 4, 188,
    188, 71, 132, 199, 49, 133, 31, 164, 80, 167, 133, 159, 54, 43, 99, 199, 45, 142, 139, 4,
    157, 86, 129, 8, 32, 96, 82, 65, 18, 65, 149, 24, 25, 191, 128, 21, 198, 140, 200, 36,
    36, 172, 125, 144, 46, 71, 139, 159, 112, 58, 142, 197, 190, 180, 55, 186, 83, 106, 175, 170,
    99, 116, 136, 119, 34, 67, 61, 20, 90, 9, 154, 145, 62, 154, 60, 5, 22, 185, 165, 19,
    62, 21, 12, 88, 22, 135, 64, 75, 175, 128, 58, 142, 37, 189, 150, 151, 125, 66, 125, 108,
    52, 28, 28, 172, 114, 94, 112, 109, 123, 190, 17, 176, 171, 169, 29, 19, 107, 190, 90, 31,
    67, 53, 52, 141, 118, 39, 112, 50, 75, 122, 67, 23, 117, 107, 5, 4, 9, 4, 4, 4,
    4, 5, 4, 4, 4, 4, 4, 4, 4, 4, 4, 4, 4, 4, 4, 4, 4, 4, 4, 4,
    4, 4, 4, 4, 4, 4, 4, 4, 4, 4, 4, 4, 4, 4, 4, 4, 4, 4, 4, 4,
    4, 4, 4, 4, 4, 4, 4, 4, 4, 4, 4, 4, 4, 4, 4, 4, 4, 4, 4, 4,
    4, 4, 4, 4, 4, 4, 4, 4, 4, 4, 4, 4, 4, 4, 4, 4, 4, 4, 4, 4,
    4, 4, 4, 4, 4, 4, 4, 4, 4, 4, 4, 4, 4, 4, 4, 4, 4, 4, 4, 4,
    4, 4, 4, 4, 4, 4, 4, 4, 4, 4, 4, 4, 4, 4, 4, 4, 4, 4, 4, 4,
    4, 4, 4, 4, 4, 4, 4, 4, 4, 4, 4, 4, 4, 4, 4, 4, 4, 4, 4, 4,
    4, 4, 4, 4, 4, 4, 4, 4, 4, 4, 4, 4, 4, 4, 4, 4, 4, 4, 4, 4,
    4, 4, 4, 4, 4, 4, 4, 4, 4, 4, 4, 4, 4, 4, 4, 4, 4, 4, 4, 4]"

record DataIdSpec =
  ds_dataId :: u16
  ds_dataType :: u16
  ds_cacheSize :: u32
  ds_periodTicks :: u32
  ds_needCache :: bool

text \<open>\<open>dataId - kCellDataIdBase\<close> is stored in a \<open>uint16_t\<close>: id 0 becomes index 65535.\<close>

definition SpecOf :: "u16 \<Rightarrow> DataIdSpec" where
  "SpecOf dataId = (let i = dataId - kCellDataIdBase in
     if kCellDataIdCount \<le> i
     then \<lparr>ds_dataId = 0, ds_dataType = 0, ds_cacheSize = 0, ds_periodTicks = 0, ds_needCache = False\<rparr>
     else \<lparr>ds_dataId = dataId, ds_dataType = data_type_u16 CELL,
           ds_cacheSize = ucast (kCellCacheSizes ! unat i), ds_periodTicks = 10, ds_needCache = True\<rparr>)"

text \<open>
  The loop of \<open>CellRawOffset\<close> over \<open>k < i\<close>; an index beyond the table is an out-of-bounds read,
  which the model reports as \<open>None\<close>.
\<close>

fun raw_offset_loop :: "u16 list \<Rightarrow> nat \<Rightarrow> u32 \<Rightarrow> u32 option" where
  "raw_offset_loop sizes 0 off = Some off"
| "raw_offset_loop [] (Suc n) off = None"
| "raw_offset_loop (s # sizes) (Suc n) off = raw_offset_loop sizes n (off + ucast s)"

definition CellRawOffset :: "u16 \<Rightarrow> u32 option" where
  "CellRawOffset dataId = raw_offset_loop kCellCacheSizes (unat (dataId - kCellDataIdBase)) 10"

section \<open>Extractors (extractors.cpp)\<close>

text \<open>\<open>CCellSlice\<close>; a null \<open>rawData\<close> is \<open>None\<close>, and the result \<open>None\<close> is the return value -1.
  \<open>Some bs\<close> is the slice copied into the cache slot.\<close>

record CCellSlice =
  m_offset :: u32
  m_size :: u32

definition SetSlice :: "u32 \<Rightarrow> u32 \<Rightarrow> CCellSlice" where
  "SetSlice off sz = \<lparr>m_offset = off, m_size = sz\<rparr>"

definition Extra :: "CCellSlice \<Rightarrow> bytes option \<Rightarrow> u32 \<Rightarrow> bytes option" where
  "Extra p rawData len = (case rawData of
     None \<Rightarrow> None
   | Some raw \<Rightarrow> if len < m_offset p + m_size p then None
                else Some (mem_read raw (unat (m_offset p)) (unat (m_size p))))"

text \<open>\<open>Extractor::Hton\<close>, which no slice overrides, leaves the cache alone and returns \<open>len\<close>.\<close>

definition Hton :: "bytes \<Rightarrow> u32 \<Rightarrow> bytes \<times> u32" where
  "Hton cache len = (cache, len)"

section \<open>The extractor registry (extractor\_registry.cpp)\<close>

record ExtractorSpec =
  es_dataId :: u16
  es_dataType :: u16
  es_cacheSize :: u32
  es_periodTicks :: u32
  es_needCache :: bool
  es_proc :: "CCellSlice option"

type_synonym extractor_table = "u32 \<Rightarrow> ExtractorSpec option"

definition extractor_key :: "u16 \<Rightarrow> u16 \<Rightarrow> u32" where
  "extractor_key dataType dataId = push_bit 16 (ucast dataType) OR ucast dataId"

text \<open>\<open>None\<close> is the return value \<open>false\<close>, which leaves the table as it was.\<close>

definition Register :: "ExtractorSpec \<Rightarrow> extractor_table \<Rightarrow> extractor_table option" where
  "Register sp t = (let key = extractor_key (es_dataType sp) (es_dataId sp) in
     if t key \<noteq> None then None else Some (t(key \<mapsto> sp)))"

definition Find_extractor :: "extractor_table \<Rightarrow> u16 \<Rightarrow> u16 \<Rightarrow> ExtractorSpec option" where
  "Find_extractor t dataType dataId = t (extractor_key dataType dataId)"

text \<open>
  \<open>ForEachByDomain\<close> walks the \<open>unordered_map\<close>: \<open>order\<close> is the order in which the map holds its keys.
  The callback acts on the caller's state.
\<close>

fun ForEachByDomain :: "extractor_table \<Rightarrow> u32 list \<Rightarrow> u16 \<Rightarrow> (ExtractorSpec \<Rightarrow> 's \<Rightarrow> 's) \<Rightarrow> 's \<Rightarrow> 's" where
  "ForEachByDomain t [] dataType fn s = s"
| "ForEachByDomain t (k # order) dataType fn s =
     ForEachByDomain t order dataType fn
       (case t k of None \<Rightarrow> s | Some sp \<Rightarrow> if es_dataType sp = dataType then fn sp s else s)"

text \<open>One iteration of the loop of \<open>InitExtractors\<close>, and the loop.\<close>

definition init_extractor :: "u16 \<Rightarrow> extractor_table \<Rightarrow> extractor_table" where
  "init_extractor i t = (let id = kCellDataIdBase + i; s = SpecOf id in
     if ds_dataId s = 0 then t
     else (case CellRawOffset id of
             None \<Rightarrow> t
           | Some off \<Rightarrow>
               (case Register \<lparr>es_dataId = id, es_dataType = ds_dataType s, es_cacheSize = ds_cacheSize s,
                   es_periodTicks = ds_periodTicks s, es_needCache = ds_needCache s,
                   es_proc = Some (SetSlice off (ds_cacheSize s))\<rparr> t of
                  None \<Rightarrow> t | Some t' \<Rightarrow> t')))"

definition InitExtractors :: "extractor_table \<Rightarrow> extractor_table" where
  "InitExtractors t = fold init_extractor (map of_nat [0..<unat kCellDataIdCount]) t"

section \<open>The layout of a raw frame\<close>

text \<open>\<open>slice_len i\<close> and \<open>slice_off i\<close>: size and offset of the slice of data id \<open>i + 1\<close>.\<close>

definition slice_len :: "nat \<Rightarrow> nat" where
  "slice_len i = unat (kCellCacheSizes ! i)"

definition slice_off :: "nat \<Rightarrow> nat" where
  "slice_off i = 10 + sum_list (take i (map unat kCellCacheSizes))"

lemma length_kCellCacheSizes [simp]: "length kCellCacheSizes = 500"
  by (simp add: kCellCacheSizes_def)

lemma sum_kCellCacheSizes: "sum_list (map unat kCellCacheSizes) = 32758"
  by (simp add: kCellCacheSizes_def)

lemma kCellCacheSizes_range: "list_all (\<lambda>s. 4 \<le> unat s \<and> unat s \<le> 200) kCellCacheSizes"
  by (simp add: kCellCacheSizes_def)

lemma slice_len_range: "i < 500 \<Longrightarrow> 4 \<le> slice_len i \<and> slice_len i \<le> 200"
  using kCellCacheSizes_range by (simp add: list_all_length slice_len_def)

lemma slice_off_0 [simp]: "slice_off 0 = 10"
  by (simp add: slice_off_def)

lemma slice_off_Suc: "i < 500 \<Longrightarrow> slice_off (Suc i) = slice_off i + slice_len i"
  by (simp add: slice_off_def slice_len_def sum_list_take_Suc)

lemma slice_off_500: "slice_off 500 = 32768"
  by (simp add: slice_off_def sum_kCellCacheSizes)

lemma slice_off_mono:
  assumes "i \<le> j"
  shows "slice_off i \<le> slice_off j"
proof -
  from assms have "take i (map unat kCellCacheSizes) = take i (take j (map unat kCellCacheSizes))"
    by (simp add: min_def)
  then show ?thesis unfolding slice_off_def by (metis add_left_mono sum_list_take_mono)
qed

lemma slice_end: "i < 500 \<Longrightarrow> slice_off i + slice_len i \<le> 32768"
  using slice_off_mono [of "Suc i" 500] by (simp add: slice_off_Suc slice_off_500)

lemma slices_disjoint: "i < j \<Longrightarrow> j < 500 \<Longrightarrow> slice_off i + slice_len i \<le> slice_off j"
  using slice_off_mono [of "Suc i" j] by (simp add: slice_off_Suc)

lemma raw_offset_loop_sum:
  "n \<le> length xs \<Longrightarrow> unat off + sum_list (take n (map unat xs)) < 2 ^ 32 \<Longrightarrow>
   \<exists>o'. raw_offset_loop xs n off = Some o' \<and> unat o' = unat off + sum_list (take n (map unat xs))"
proof (induction xs n off rule: raw_offset_loop.induct)
  case (3 s sizes n off)
  have "unat (off + ucast s) = unat off + unat s"
    using "3.prems" by (simp add: unat_simps)
  then show ?case using "3.IH" "3.prems" by (simp add: add.assoc)
qed auto

lemma CellRawOffset_slice:
  assumes "i < 500"
  shows "CellRawOffset (1 + of_nat i) = Some (of_nat (slice_off i))"
proof -
  have i: "unat (of_nat i :: u16) = i" using assms by (simp add: unat_of_nat)
  have "10 + sum_list (take i (map unat kCellCacheSizes)) < 2 ^ 32"
    using sum_list_take_mono [of i "map unat kCellCacheSizes"] sum_kCellCacheSizes by simp
  then obtain off where o: "raw_offset_loop kCellCacheSizes i 10 = Some off" "unat off = slice_off i"
    using raw_offset_loop_sum [of i kCellCacheSizes 10] assms by (auto simp: slice_off_def)
  then have "off = of_nat (slice_off i)" by (metis of_nat_unat ucast_id)
  with o i show ?thesis by (simp add: CellRawOffset_def kCellDataIdBase_def)
qed

lemma unat_slice_off: "i \<le> 500 \<Longrightarrow> unat (of_nat (slice_off i) :: u32) = slice_off i"
  using slice_off_mono [of i 500] by (simp add: slice_off_500 unat_of_nat)

lemma SpecOf_cell:
  assumes "i < 500"
  shows "SpecOf (1 + of_nat i) = \<lparr>ds_dataId = 1 + of_nat i, ds_dataType = 0,
    ds_cacheSize = of_nat (slice_len i), ds_periodTicks = 10, ds_needCache = True\<rparr>"
proof -
  have i: "unat (of_nat i :: u16) = i" using assms by (simp add: unat_of_nat)
  have "\<not> (500 :: u16) \<le> of_nat i" using assms i by (simp add: word_le_nat_alt)
  moreover have "ucast (kCellCacheSizes ! i) = (of_nat (slice_len i) :: u32)"
    by (simp add: slice_len_def)
  ultimately show ?thesis
    using i by (simp add: SpecOf_def Let_def kCellDataIdBase_def kCellDataIdCount_def)
qed

lemma unat_slice_len: "i < 500 \<Longrightarrow> unat (of_nat (slice_len i) :: u32) = slice_len i"
  using slice_len_range [of i] by (simp add: unat_of_nat)

lemma unat_slice_sum: "i < 500 \<Longrightarrow>
   unat (of_nat (slice_off i) + of_nat (slice_len i) :: u32) = slice_off i + slice_len i"
  using slice_end [of i] by (simp add: unat_simps unat_slice_off unat_slice_len)

text \<open>An extractor accepts a frame exactly if it is long enough for its slice.\<close>

lemma Extra_slice:
  assumes "i < 500"
  shows "Extra (SetSlice (of_nat (slice_off i)) (of_nat (slice_len i))) (Some raw) len =
    (if slice_off i + slice_len i \<le> unat len then Some (mem_read raw (slice_off i) (slice_len i)) else None)"
  using assms unat_slice_sum [of i]
  by (simp add: Extra_def SetSlice_def unat_slice_off unat_slice_len word_less_nat_alt)

lemma SpecOf_none:
  assumes "unat d = 0 \<or> 500 < unat d"
  shows "ds_dataId (SpecOf d) = 0"
proof -
  have "500 \<le> unat (d - 1)"
  proof (cases "unat d = 0")
    case True
    then have "d = 0" by (simp add: unat_eq_0)
    then show ?thesis by (simp add: unsigned_minus_1_eq_mask mask_eq_exp_minus_1)
  next
    case False
    then show ?thesis using assms by (simp add: unat_sub_le)
  qed
  then have "(500 :: u16) \<le> d - 1" by (simp add: word_le_nat_alt)
  then show ?thesis by (simp add: SpecOf_def Let_def kCellDataIdBase_def kCellDataIdCount_def)
qed

lemma mem_read_concat:
  assumes "off j \<le> length buf" "\<And>i. i < j \<Longrightarrow> off (Suc i) = off i + len i"
  shows "concat (map (\<lambda>i. mem_read buf (off i) (len i)) [0..<j]) = mem_read buf (off 0) (off j - off 0)"
  using assms
proof (induction j)
  case (Suc j)
  have le: "off 0 \<le> off j" using Suc.prems(2) by (induction j) (auto intro: le_trans simp: less_Suc_eq)
  have "off (Suc j) = off j + len j" using Suc.prems(2) by simp
  moreover have "concat (map (\<lambda>i. mem_read buf (off i) (len i)) [0..<j]) = mem_read buf (off 0) (off j - off 0)"
    using Suc by simp
  moreover have "take (off j - off 0 + len j) (drop (off 0) buf) =
    take (off j - off 0) (drop (off 0) buf) @ take (len j) (drop (off j) buf)"
    using le take_add [of "off j - off 0" "len j" "drop (off 0) buf"] by (simp only: drop_drop) simp
  ultimately show ?case using le by (simp add: mem_read_def)
qed (simp add: mem_read_def)

text \<open>C16: The 500 slices tile a 32768-byte frame behind its 10-byte head: \<open>CellRawOffset\<close> never
  reads beyond the size table, the slice of the first id starts at byte 10, each slice ends
  where the next begins, the last ends at byte 32768, every extractor accepts a full frame, and
  what the 500 extractors cut, put one after another in id order, is the frame without its head.\<close>

theorem slices_tile_frame:
  assumes "length raw = unat kRawLen"
  shows "(\<forall>i<500. CellRawOffset (1 + of_nat i) = Some (of_nat (slice_off i)) \<and>
            slice_off (Suc i) = slice_off i + unat (ds_cacheSize (SpecOf (1 + of_nat i))) \<and>
            Extra (SetSlice (of_nat (slice_off i)) (ds_cacheSize (SpecOf (1 + of_nat i)))) (Some raw) kRawLen
              = Some (mem_read raw (slice_off i) (slice_len i))) \<and>
         slice_off 0 = 10 \<and> slice_off 500 = unat kRawLen \<and>
         concat (map (\<lambda>i. mem_read raw (slice_off i) (slice_len i)) [0..<500]) = drop 10 raw"
proof (intro conjI)
  show "\<forall>i<500. CellRawOffset (1 + of_nat i) = Some (of_nat (slice_off i)) \<and>
            slice_off (Suc i) = slice_off i + unat (ds_cacheSize (SpecOf (1 + of_nat i))) \<and>
            Extra (SetSlice (of_nat (slice_off i)) (ds_cacheSize (SpecOf (1 + of_nat i)))) (Some raw) kRawLen
              = Some (mem_read raw (slice_off i) (slice_len i))"
    using slice_end
    by (simp add: CellRawOffset_slice SpecOf_cell slice_off_Suc unat_slice_len kRawLen_def Extra_slice)
  show "concat (map (\<lambda>i. mem_read raw (slice_off i) (slice_len i)) [0..<500]) = drop 10 raw"
    using assms mem_read_concat [of slice_off 500 raw slice_len]
    by (simp add: slice_off_500 slice_off_Suc kRawLen_def mem_read_def)
qed (simp_all add: slice_off_500 kRawLen_def)

theorem slices_tile_frame_witness:
  "concat (map (\<lambda>i. mem_read (replicate 32768 7) (slice_off i) (slice_len i)) [0..<500]) = drop 10 (replicate 32768 (7::u8))"
  using slices_tile_frame [of "replicate 32768 7"] by (simp only: length_replicate kRawLen_def) simp

section \<open>Keys and the registry\<close>

lemma extractor_key_inj: "extractor_key a b = extractor_key c d \<longleftrightarrow> a = c \<and> b = d"
proof
  assume "extractor_key a b = extractor_key c d"
  then have "unat a * 65536 + unat b = unat c * 65536 + unat d"
    unfolding extractor_key_def by (metis unat_pack_16_16)
  then show "a = c \<and> b = d"
    using pack_inj [of "unat a" 65536 "unat b" "unat c" "unat d"] unat_lt_u16 [of b] unat_lt_u16 [of d]
    by (simp add: word_unat_eq_iff)
qed simp

lemma unat_CellHashKey: "unat (CellHashKey c p) = unat c * 4294967296 + unat p"
  by (simp add: CellHashKey_def unat_pack_32_32)

lemma CellHashKey_inj: "CellHashKey a b = CellHashKey c d \<longleftrightarrow> a = c \<and> b = d"
proof
  assume "CellHashKey a b = CellHashKey c d"
  then have "unat a * 4294967296 + unat b = unat c * 4294967296 + unat d"
    by (metis unat_CellHashKey)
  then show "a = c \<and> b = d"
    using pack_inj [of "unat a" 4294967296 "unat b" "unat c" "unat d"] unat_lt_u32 [of b] unat_lt_u32 [of d]
    by (simp add: word_unat_eq_iff)
qed simp

interpretation ext_registry: open_registry "\<lambda>t (ty, i). Find_extractor t ty i"
    "\<lambda>sp. (es_dataType sp, es_dataId sp)" Register
proof unfold_locales
  fix s :: extractor_table and s' v
  assume "Register v s = Some s'"
  then have "s' = s(extractor_key (es_dataType v) (es_dataId v) \<mapsto> v)"
    by (simp add: Register_def Let_def split: if_splits)
  then show "(\<lambda>(ty, i). Find_extractor s' ty i) =
    (\<lambda>(ty, i). Find_extractor s ty i)((es_dataType v, es_dataId v) \<mapsto> v)"
    by (simp add: fun_eq_iff Find_extractor_def extractor_key_inj)
qed (simp_all add: Register_def Find_extractor_def Let_def)

text \<open>The specification that \<open>InitExtractors\<close> registers in round \<open>i\<close>.\<close>

definition cell_spec :: "nat \<Rightarrow> ExtractorSpec" where
  "cell_spec i = \<lparr>es_dataId = 1 + of_nat i, es_dataType = 0, es_cacheSize = of_nat (slice_len i),
     es_periodTicks = 10, es_needCache = True,
     es_proc = Some (SetSlice (of_nat (slice_off i)) (of_nat (slice_len i)))\<rparr>"

lemma unat_cell_id: "i < 500 \<Longrightarrow> unat (1 + of_nat i :: u16) = 1 + i"
  by (simp add: unat_word_ariths unat_of_nat)

lemma init_extractor_cell:
  assumes "i < 500"
  shows "init_extractor (of_nat i) t = (case Register (cell_spec i) t of None \<Rightarrow> t | Some t' \<Rightarrow> t')"
proof -
  have "(1 + of_nat i :: u16) \<noteq> 0" using unat_cell_id [OF assms] by (metis add_is_0 one_neq_zero unat_0)
  then show ?thesis using assms
    by (simp add: init_extractor_def Let_def kCellDataIdBase_def SpecOf_cell CellRawOffset_slice cell_spec_def)
qed

lemma fold_init_extractor:
  "(\<And>i. i \<in> set is \<Longrightarrow> i < 500) \<Longrightarrow>
   fold init_extractor (map of_nat is) t = add_all Register (map cell_spec is) t"
  by (induction "is" arbitrary: t) (auto simp: init_extractor_cell)

lemma InitExtractors_add_all: "InitExtractors t = add_all Register (map cell_spec [0..<500]) t"
proof -
  have "unat kCellDataIdCount = 500" by (simp add: kCellDataIdCount_def)
  then show ?thesis unfolding InitExtractors_def 
    by (simp only:) (rule fold_init_extractor, simp only: set_upt atLeastLessThan_iff)
qed

lemma es_dataId_cell_spec [simp]: "es_dataId (cell_spec i) = 1 + of_nat i"
  by (simp add: cell_spec_def)

lemma cell_spec_id_inj: "i < 500 \<Longrightarrow> j < 500 \<Longrightarrow> es_dataId (cell_spec i) = es_dataId (cell_spec j) \<Longrightarrow> i = j"
  unfolding es_dataId_cell_spec by (metis unat_cell_id add_left_cancel)

lemma Find_InitExtractors_cell:
  assumes "i < 500"
  shows "Find_extractor (InitExtractors Map.empty) 0 (1 + of_nat i) = Some (cell_spec i)"
proof -
  have "find (\<lambda>v. (es_dataType v, es_dataId v) = (0, 1 + of_nat i)) (map cell_spec [0..<500]) = Some (cell_spec i)"
  proof (rule find_unique)
    fix w assume w: "w \<in> set (map cell_spec [0..<500])" "(es_dataType w, es_dataId w) = (0, 1 + of_nat i)"
    then obtain j where "w = cell_spec j" "j < 500" by auto
    with w(2) assms cell_spec_id_inj [of j i] show "w = cell_spec i" by simp
  qed (use assms in \<open>auto simp: cell_spec_def\<close>)
  then show ?thesis
    using ext_registry.lookup_add_all [of "map cell_spec [0..<500]" Map.empty "(0, 1 + of_nat i)"]
    by (simp add: InitExtractors_add_all Find_extractor_def)
qed

lemma Find_InitExtractors_sound:
  "Find_extractor (InitExtractors Map.empty) ty d = Some sp \<Longrightarrow>
   \<exists>i<500. sp = cell_spec i \<and> ty = 0 \<and> d = 1 + of_nat i"
  using ext_registry.lookup_add_all_sound [of "map cell_spec [0..<500]" Map.empty "(ty, d)" sp]
  by (auto simp: InitExtractors_add_all Find_extractor_def cell_spec_def)

text \<open>\<open>InitExtractors\<close> registers exactly the 500 cell ids: looking up (type, id) afterwards gives
  the slice extractor of that id if the type is CELL and the id lies in 1..500, and nothing for
  any other pair (in particular nothing for type UE); running it a second time changes nothing.\<close>

theorem InitExtractors_registers_cells:
  "Find_extractor (InitExtractors Map.empty) ty d =
     (if ty = data_type_u16 CELL \<and> 1 \<le> unat d \<and> unat d \<le> 500
      then Some (cell_spec (unat d - 1)) else None) \<and>
   Find_extractor (InitExtractors (InitExtractors Map.empty)) ty d =
     Find_extractor (InitExtractors Map.empty) ty d"
proof
  let ?t = "InitExtractors Map.empty"
  show *: "Find_extractor ?t ty d = (if ty = data_type_u16 CELL \<and> 1 \<le> unat d \<and> unat d \<le> 500
      then Some (cell_spec (unat d - 1)) else None)"
  proof (cases "ty = 0 \<and> 1 \<le> unat d \<and> unat d \<le> 500")
    case True
    then have "d = 1 + of_nat (unat d - 1)" "unat d - 1 < 500"
      by (auto simp: word_unat_eq_iff unat_cell_id)
    then show ?thesis using True Find_InitExtractors_cell [of "unat d - 1"] by simp
  next
    case False
    then have "Find_extractor ?t ty d \<noteq> Some sp" for sp
      using Find_InitExtractors_sound [of ty d sp] unat_cell_id by fastforce
    with False show ?thesis by (cases "Find_extractor ?t ty d") auto
  qed
  show "Find_extractor (InitExtractors ?t) ty d = Find_extractor ?t ty d"
  proof (cases "Find_extractor ?t ty d")
    case (Some sp)
    then show ?thesis using ext_registry.lookup_add_all_old [of ?t "(ty, d)" sp]
      by (simp add: InitExtractors_add_all)
  next
    case None
    then have "Find_extractor (InitExtractors ?t) ty d \<noteq> Some sp" for sp
      using ext_registry.lookup_add_all_sound [of "map cell_spec [0..<500]" ?t "(ty, d)" sp]
        Find_InitExtractors_cell
      by (auto simp: InitExtractors_add_all cell_spec_def)
    with None show ?thesis by (cases "Find_extractor (InitExtractors ?t) ty d") auto
  qed
qed

end
