(* ===== verification/Data_Mem.thy ===== *)
theory Data_Mem
  imports Data_Model
begin

text \<open>
  The processing cache of the data thread (\<open>data_mem_manager.cpp\<close>): one region of equal blocks per
  (domain, period), an open-addressing table of 64-bit object keys over the blocks, a packed
  slot per data id behind each block's head, and eviction by age. Pools are byte lists; a
  pointer into a pool is the pair of the region's index and the byte offset. The main results:
  the table behaves as a map as long as nothing is evicted, eviction frees exactly the
  overdue blocks, slots of live blocks never overlap each other or a head, and what eviction
  does to the probe chains.
\<close>

section \<open>State\<close>

record RegionDesc =
  r_domain :: u16
  r_periodTicks :: u32
  r_slotCap :: u32
  r_blockSize :: u32
  r_pool :: bytes
  r_poolSize :: nat
  r_used :: "bool list"
  r_keys :: "u64 list"
  r_slotOffset :: "u16 \<Rightarrow> u32 option"

type_synonym pool_ptr = "nat \<times> nat"

record Impl =
  regions :: "RegionDesc list"
  fixedSlots :: "u16 \<Rightarrow> (pool_ptr \<times> u32) option"
  init_done :: bool

text \<open>
  \<open>CacheHead\<close>: a 2-byte type, 2 bytes of padding, the 8-byte union, \<open>lastTick\<close> at byte 12 and
  \<open>periodTicks\<close> at byte 16, 20 bytes in all.
\<close>

definition sizeof_CacheHead :: u32 where "sizeof_CacheHead = 20"

definition set_type :: "nat \<Rightarrow> u16 \<Rightarrow> bytes \<Rightarrow> bytes" where
  "set_type h v pool = mem_write pool h (le16 v)"

definition set_lastTick :: "nat \<Rightarrow> u32 \<Rightarrow> bytes \<Rightarrow> bytes" where
  "set_lastTick h v pool = mem_write pool (h + 12) (le32 v)"

definition set_periodTicks :: "nat \<Rightarrow> u32 \<Rightarrow> bytes \<Rightarrow> bytes" where
  "set_periodTicks h v pool = mem_write pool (h + 16) (le32 v)"

definition get_lastTick :: "nat \<Rightarrow> bytes \<Rightarrow> u32" where
  "get_lastTick h pool = get32 pool (h + 12)"

definition AlignUp :: "u32 \<Rightarrow> u32 \<Rightarrow> u32" where
  "AlignUp v align = (v + align - 1) AND NOT (align - 1)"

text \<open>\<open>BlockAt\<close>: the block's offset in the pool, computed in \<open>size_t\<close>.\<close>

definition BlockAt :: "RegionDesc \<Rightarrow> u32 \<Rightarrow> nat" where
  "BlockAt r idx = unat idx * unat (r_blockSize r)"

fun FindRegion :: "RegionDesc list \<Rightarrow> u16 \<Rightarrow> u32 \<Rightarrow> nat option" where
  "FindRegion [] dm per = None"
| "FindRegion (r # rs) dm per =
     (if r_domain r = dm \<and> r_periodTicks r = per then Some 0 else map_option Suc (FindRegion rs dm per))"

definition RegionOf :: "RegionDesc list \<Rightarrow> pool_ptr \<Rightarrow> RegionDesc option" where
  "RegionOf rs p = (if fst p < length rs \<and> snd p < r_poolSize (rs ! fst p) then Some (rs ! fst p) else None)"

section \<open>Init\<close>

text \<open>One round of the loop over the specifications: find or append the region, append the slot.\<close>

definition new_region :: "DataIdSpec \<Rightarrow> RegionDesc" where
  "new_region s = \<lparr>r_domain = ds_dataType s, r_periodTicks = ds_periodTicks s, r_slotCap = kCellSlotCap,
     r_blockSize = AlignUp sizeof_CacheHead 8, r_pool = [], r_poolSize = 0, r_used = [], r_keys = [],
     r_slotOffset = Map.empty\<rparr>"

definition add_slot :: "DataIdSpec \<Rightarrow> RegionDesc \<Rightarrow> RegionDesc" where
  "add_slot s r = r\<lparr>r_slotOffset := (r_slotOffset r)(ds_dataId s \<mapsto> r_blockSize r),
                    r_blockSize := r_blockSize r + ds_cacheSize s\<rparr>"

definition init_spec :: "DataIdSpec \<Rightarrow> RegionDesc list \<Rightarrow> RegionDesc list" where
  "init_spec s rs = (if \<not> ds_needCache s then rs else
     (case FindRegion rs (ds_dataType s) (ds_periodTicks s) of
        Some j \<Rightarrow> rs[j := add_slot s (rs ! j)]
      | None \<Rightarrow> rs @ [add_slot s (new_region s)]))"

text \<open>The pool comes uninitialised from \<open>operator new\<close>: \<open>fresh n\<close> are the \<open>n\<close> bytes it holds.\<close>

definition alloc_pool :: "(nat \<Rightarrow> bytes) \<Rightarrow> RegionDesc \<Rightarrow> RegionDesc" where
  "alloc_pool fresh r = (let n = unat (r_slotCap r) * unat (r_blockSize r) in
     r\<lparr>r_poolSize := n, r_pool := fresh n, r_used := replicate (unat (r_slotCap r)) False,
       r_keys := replicate (unat (r_slotCap r)) 0\<rparr>)"

definition g_specs :: "DataIdSpec list" where
  "g_specs = map (\<lambda>i. SpecOf (kCellDataIdBase + of_nat i)) [0..<unat kCellDataIdCount]"

definition Init :: "(nat \<Rightarrow> bytes) \<Rightarrow> Impl option \<Rightarrow> Impl" where
  "Init fresh m_impl = (case m_impl of
     Some im \<Rightarrow> (if init_done im then im
        else im\<lparr>regions := map (alloc_pool fresh) (fold init_spec g_specs (regions im)), init_done := True\<rparr>)
   | None \<Rightarrow> \<lparr>regions = map (alloc_pool fresh) (fold init_spec g_specs []),
              fixedSlots = Map.empty, init_done = True\<rparr>)"

section \<open>Blocks\<close>

definition claim_slot :: "u16 \<Rightarrow> u32 \<Rightarrow> u64 \<Rightarrow> u32 \<Rightarrow> u32 \<Rightarrow> RegionDesc \<Rightarrow> RegionDesc" where
  "claim_slot dm per key now idx r = (let h = BlockAt r idx in
     r\<lparr>r_used := (r_used r)[unat idx := True], r_keys := (r_keys r)[unat idx := key],
       r_pool := set_lastTick h now (set_periodTicks h per (set_type h dm (r_pool r)))\<rparr>)"

definition refresh_slot :: "u32 \<Rightarrow> u32 \<Rightarrow> RegionDesc \<Rightarrow> RegionDesc" where
  "refresh_slot now idx r = r\<lparr>r_pool := set_lastTick (BlockAt r idx) now (r_pool r)\<rparr>"

text \<open>The probe loops; \<open>n\<close> is what is left of \<open>slotCap\<close> rounds, \<open>i\<close> the loop variable.\<close>

fun acquire_loop :: "u16 \<Rightarrow> u32 \<Rightarrow> u64 \<Rightarrow> u32 \<Rightarrow> u32 \<Rightarrow> u32 \<Rightarrow> nat \<Rightarrow> RegionDesc \<Rightarrow> nat option \<times> RegionDesc" where
  "acquire_loop dm per key now start i 0 r = (None, r)"
| "acquire_loop dm per key now start i (Suc n) r =
     (let idx = (start + i) mod r_slotCap r in
      if \<not> r_used r ! unat idx then (Some (BlockAt r idx), claim_slot dm per key now idx r)
      else if r_keys r ! unat idx = key then (Some (BlockAt r idx), refresh_slot now idx r)
      else acquire_loop dm per key now start (i + 1) n r)"

fun find_loop :: "u64 \<Rightarrow> u32 \<Rightarrow> u32 \<Rightarrow> nat \<Rightarrow> RegionDesc \<Rightarrow> nat option" where
  "find_loop key start i 0 r = None"
| "find_loop key start i (Suc n) r =
     (let idx = (start + i) mod r_slotCap r in
      if \<not> r_used r ! unat idx then None
      else if r_keys r ! unat idx = key then Some (BlockAt r idx)
      else find_loop key start (i + 1) n r)"

definition AcquireBlock :: "u16 \<Rightarrow> u32 \<Rightarrow> u64 \<Rightarrow> u32 \<Rightarrow> Impl \<Rightarrow> pool_ptr option \<times> Impl" where
  "AcquireBlock dm per key now im = (case FindRegion (regions im) dm per of
     None \<Rightarrow> (None, im)
   | Some j \<Rightarrow> (let r = regions im ! j; start = ucast (key mod ucast (r_slotCap r));
                   (res, r') = acquire_loop dm per key now start 0 (unat (r_slotCap r)) r
               in (map_option (Pair j) res, im\<lparr>regions := (regions im)[j := r']\<rparr>)))"

definition FindBlock :: "u16 \<Rightarrow> u32 \<Rightarrow> u64 \<Rightarrow> Impl \<Rightarrow> pool_ptr option" where
  "FindBlock dm per key im = (case FindRegion (regions im) dm per of
     None \<Rightarrow> None
   | Some j \<Rightarrow> (let r = regions im ! j; start = ucast (key mod ucast (r_slotCap r))
               in map_option (Pair j) (find_loop key start 0 (unat (r_slotCap r)) r)))"

definition SlotOf :: "Impl \<Rightarrow> pool_ptr \<Rightarrow> u16 \<Rightarrow> pool_ptr option" where
  "SlotOf im block dataId = (case RegionOf (regions im) block of
     None \<Rightarrow> None
   | Some r \<Rightarrow> (case r_slotOffset r dataId of
        None \<Rightarrow> None
      | Some off \<Rightarrow> Some (fst block, snd block + unat off)))"

definition FixedSlot :: "Impl \<Rightarrow> u16 \<Rightarrow> pool_ptr option" where
  "FixedSlot im dataId = map_option fst (fixedSlots im dataId)"

text \<open>The scan of one region; the age is an unsigned difference.\<close>

fun evict_loop :: "u32 \<Rightarrow> u32 \<Rightarrow> u32 \<Rightarrow> nat \<Rightarrow> RegionDesc \<Rightarrow> RegionDesc" where
  "evict_loop now ttl idx 0 r = r"
| "evict_loop now ttl idx (Suc n) r = evict_loop now ttl (idx + 1) n
     (if r_used r ! unat idx \<and> ttl < now - get_lastTick (BlockAt r idx) (r_pool r)
      then r\<lparr>r_used := (r_used r)[unat idx := False]\<rparr> else r)"

definition EvictExpired :: "u32 \<Rightarrow> Impl \<Rightarrow> Impl" where
  "EvictExpired now im = im\<lparr>regions :=
     map (\<lambda>r. evict_loop now (kTtlPeriods * r_periodTicks r) 0 (unat (r_slotCap r)) r) (regions im)\<rparr>"

text \<open>Writing through a pointer into a pool, and reading from it.\<close>

definition pool_store :: "pool_ptr \<Rightarrow> bytes \<Rightarrow> Impl \<Rightarrow> Impl" where
  "pool_store p bs im = im\<lparr>regions := (regions im)[fst p := (regions im ! fst p)
     \<lparr>r_pool := mem_write (r_pool (regions im ! fst p)) (snd p) bs\<rparr>]\<rparr>"

definition pool_load :: "pool_ptr \<Rightarrow> nat \<Rightarrow> Impl \<Rightarrow> bytes" where
  "pool_load p n im = mem_read (r_pool (regions im ! fst p)) (snd p) n"

section \<open>The probe sequence\<close>

definition region_ok :: "RegionDesc \<Rightarrow> bool" where
  "region_ok r \<longleftrightarrow> length (r_used r) = unat (r_slotCap r) \<and> length (r_keys r) = unat (r_slotCap r) \<and>
     r_poolSize r = unat (r_slotCap r) * unat (r_blockSize r) \<and> length (r_pool r) = r_poolSize r \<and>
     24 \<le> unat (r_blockSize r) \<and> 0 < unat (r_slotCap r) \<and> unat (r_slotCap r) < 2 ^ 31"

definition home :: "RegionDesc \<Rightarrow> u64 \<Rightarrow> nat" where
  "home r key = unat key mod unat (r_slotCap r)"

text \<open>The \<open>i\<close>-th block that a search for \<open>key\<close> looks at.\<close>

definition probe_at :: "RegionDesc \<Rightarrow> u64 \<Rightarrow> nat \<Rightarrow> nat" where
  "probe_at r key i = (home r key + i) mod unat (r_slotCap r)"

definition probe_stop :: "RegionDesc \<Rightarrow> u64 \<Rightarrow> nat \<Rightarrow> bool" where
  "probe_stop r key idx \<longleftrightarrow> \<not> r_used r ! idx \<or> r_keys r ! idx = key"

definition probe_end :: "RegionDesc \<Rightarrow> u64 \<Rightarrow> nat option" where
  "probe_end r key = find (probe_stop r key) (map (probe_at r key) [0..<unat (r_slotCap r)])"

definition at_block :: "RegionDesc \<Rightarrow> nat \<Rightarrow> nat" where
  "at_block r idx = idx * unat (r_blockSize r)"

lemma region_okD:
  assumes "region_ok r"
  shows "length (r_used r) = unat (r_slotCap r)" "length (r_keys r) = unat (r_slotCap r)"
    "0 < unat (r_slotCap r)" "unat (r_slotCap r) < 2 ^ 31" "24 \<le> unat (r_blockSize r)"
    "length (r_pool r) = unat (r_slotCap r) * unat (r_blockSize r)"
    "r_poolSize r = unat (r_slotCap r) * unat (r_blockSize r)"
  using assms by (auto simp: region_ok_def)

lemma home_lt: "region_ok r \<Longrightarrow> home r key < unat (r_slotCap r)"
  by (simp add: home_def region_okD)

lemma probe_at_lt: "region_ok r \<Longrightarrow> probe_at r key i < unat (r_slotCap r)"
  by (simp add: probe_at_def region_okD)

lemma start_home:
  assumes "region_ok r"
  shows "unat (ucast (key mod ucast (r_slotCap r)) :: u32) = home r key"
proof -
  have "unat (key mod ucast (r_slotCap r)) = home r key" by (simp add: unat_mod home_def)
  then show ?thesis using home_lt [OF assms, of key] region_okD(4) [OF assms]
    by (simp add: unsigned_ucast_eq take_bit_nat_eq_self)
qed

lemma loop_index:
  assumes "region_ok r" "unat start = home r key" "i < unat (r_slotCap r)"
  shows "unat ((start + of_nat i) mod r_slotCap r) = probe_at r key i"
proof -
  note k = region_okD [OF assms(1)]
  have "unat (of_nat i :: u32) = i" using assms(3) k(4) by (simp add: unat_of_nat)
  then have "unat (start + of_nat i) = home r key + i"
    using assms(2,3) home_lt [OF assms(1), of key] k(4) by (simp add: unat_add_u32)
  then show ?thesis by (simp add: unat_mod probe_at_def)
qed

lemma BlockAt_at_block: "BlockAt r idx = at_block r (unat idx)"
  by (simp add: BlockAt_def at_block_def)

lemma index_of_nat:
  assumes "region_ok r" "unat start = home r key" "i < unat (r_slotCap r)"
  shows "(start + of_nat i) mod r_slotCap r = of_nat (probe_at r key i)"
  using loop_index [OF assms] by (metis of_nat_unat ucast_id)

lemma acquire_loop_find:
  assumes "region_ok r" "unat start = home r key"
  shows "i + n = unat (r_slotCap r) \<Longrightarrow>
    acquire_loop dm per key now start (of_nat i) n r =
      (case find (probe_stop r key) (map (probe_at r key) [i..<i + n]) of
         None \<Rightarrow> (None, r)
       | Some idx \<Rightarrow> (Some (at_block r idx),
           if r_used r ! idx then refresh_slot now (of_nat idx) r else claim_slot dm per key now (of_nat idx) r))"
proof (induction n arbitrary: i)
  case (Suc n)
  have i: "i < unat (r_slotCap r)" using Suc.prems by simp
  have upt: "[i..<i + Suc n] = i # [Suc i..<Suc i + n]" by (simp add: upt_conv_Cons)
  have "acquire_loop dm per key now start (of_nat (Suc i)) n r =
      (case find (probe_stop r key) (map (probe_at r key) [Suc i..<Suc i + n]) of
         None \<Rightarrow> (None, r)
       | Some idx \<Rightarrow> (Some (at_block r idx),
           if r_used r ! idx then refresh_slot now (of_nat idx) r else claim_slot dm per key now (of_nat idx) r))"
    using Suc.prems by (intro Suc.IH) simp
  moreover have "of_nat i + 1 = (of_nat (Suc i) :: u32)" by simp
  ultimately show ?case unfolding upt
    using index_of_nat [OF assms i] loop_index [OF assms i]
    by (simp add: Let_def BlockAt_at_block probe_stop_def [of r key "probe_at r key i"] del: of_nat_Suc upt_Suc)
qed simp

lemma find_loop_find:
  assumes "region_ok r" "unat start = home r key"
  shows "i + n = unat (r_slotCap r) \<Longrightarrow>
    find_loop key start (of_nat i) n r =
      (case find (probe_stop r key) (map (probe_at r key) [i..<i + n]) of
         None \<Rightarrow> None
       | Some idx \<Rightarrow> if r_used r ! idx then Some (at_block r idx) else None)"
proof (induction n arbitrary: i)
  case (Suc n)
  have i: "i < unat (r_slotCap r)" using Suc.prems by simp
  have upt: "[i..<i + Suc n] = i # [Suc i..<Suc i + n]" by (simp add: upt_conv_Cons)
  have "find_loop key start (of_nat (Suc i)) n r =
      (case find (probe_stop r key) (map (probe_at r key) [Suc i..<Suc i + n]) of
         None \<Rightarrow> None
       | Some idx \<Rightarrow> if r_used r ! idx then Some (at_block r idx) else None)"
    using Suc.prems by (intro Suc.IH) simp
  moreover have "of_nat i + 1 = (of_nat (Suc i) :: u32)" by simp
  ultimately show ?case unfolding upt
    using index_of_nat [OF assms i] loop_index [OF assms i]
    by (simp add: Let_def BlockAt_at_block probe_stop_def [of r key "probe_at r key i"] del: of_nat_Suc upt_Suc)
qed simp

text \<open>What the two searches do, in terms of where the probe sequence ends.\<close>

lemma AcquireBlock_probe:
  assumes "FindRegion (regions im) dm per = Some j" "region_ok (regions im ! j)"
  shows "AcquireBlock dm per key now im = (let r = regions im ! j in
    case probe_end r key of
      None \<Rightarrow> (None, im\<lparr>regions := (regions im)[j := r]\<rparr>)
    | Some idx \<Rightarrow> (Some (j, at_block r idx), im\<lparr>regions := (regions im)[j :=
        if r_used r ! idx then refresh_slot now (of_nat idx) r
        else claim_slot dm per key now (of_nat idx) r]\<rparr>))"
  using acquire_loop_find [where i = 0 and n = "unat (r_slotCap (regions im ! j))" and key = key, OF assms(2) start_home [OF assms(2)]] assms(1)
  by (simp add: AcquireBlock_def Let_def probe_end_def split: option.split)

lemma FindBlock_probe:
  assumes "FindRegion (regions im) dm per = Some j" "region_ok (regions im ! j)"
  shows "FindBlock dm per key im = (let r = regions im ! j in
    case probe_end r key of
      None \<Rightarrow> None
    | Some idx \<Rightarrow> if r_used r ! idx then Some (j, at_block r idx) else None)"
  using find_loop_find [where i = 0 and n = "unat (r_slotCap (regions im ! j))" and key = key, OF assms(2) start_home [OF assms(2)]] assms(1)
  by (simp add: FindBlock_def Let_def probe_end_def split: option.split)

section \<open>The table of live blocks\<close>

text \<open>A region is well probed when the search for every live block's key ends at that block.\<close>

definition well_probed :: "RegionDesc \<Rightarrow> bool" where
  "well_probed r \<longleftrightarrow> (\<forall>idx < unat (r_slotCap r). r_used r ! idx \<longrightarrow> probe_end r (r_keys r ! idx) = Some idx)"

definition live_at :: "RegionDesc \<Rightarrow> u64 \<Rightarrow> nat \<Rightarrow> bool" where
  "live_at r key idx \<longleftrightarrow> idx < unat (r_slotCap r) \<and> r_used r ! idx \<and> r_keys r ! idx = key"

lemma probe_end_Some:
  "region_ok r \<Longrightarrow> probe_end r key = Some idx \<Longrightarrow> idx < unat (r_slotCap r) \<and> probe_stop r key idx"
  using probe_at_lt [of r key] by (auto simp: probe_end_def dest!: find_SomeD2)

lemma probe_at_surj:
  assumes "region_ok r" "idx < unat (r_slotCap r)"
  shows "\<exists>i < unat (r_slotCap r). probe_at r key i = idx"
proof (cases "home r key \<le> idx")
  case True
  then have "probe_at r key (idx - home r key) = idx" using assms(2) by (simp add: probe_at_def)
  moreover have "idx - home r key < unat (r_slotCap r)" using assms(2) by simp
  ultimately show ?thesis by blast
next
  case False
  let ?i = "unat (r_slotCap r) - home r key + idx"
  have h: "home r key < unat (r_slotCap r)" by (rule home_lt [OF assms(1)])
  then have "home r key + ?i = unat (r_slotCap r) + idx" by simp
  then have "probe_at r key ?i = idx" using assms(2) by (simp only: probe_at_def) simp
  moreover have "?i < unat (r_slotCap r)" using False h by simp
  ultimately show ?thesis by blast
qed

lemma probe_end_None:
  assumes "region_ok r"
  shows "probe_end r key = None \<longleftrightarrow> (\<forall>idx < unat (r_slotCap r). \<not> probe_stop r key idx)"
proof -
  have "set (map (probe_at r key) [0..<unat (r_slotCap r)]) = {..<unat (r_slotCap r)}"
  proof
    show "{..<unat (r_slotCap r)} \<subseteq> set (map (probe_at r key) [0..<unat (r_slotCap r)])"
    proof
      fix idx assume "idx \<in> {..<unat (r_slotCap r)}"
      then obtain i where "i < unat (r_slotCap r)" "probe_at r key i = idx"
        using probe_at_surj [OF assms, of idx key] by auto
      then show "idx \<in> set (map (probe_at r key) [0..<unat (r_slotCap r)])" by auto
    qed
  qed (use probe_at_lt [OF assms] in auto)
  then show ?thesis unfolding probe_end_def find_None_iff by auto
qed

text \<open>In a well-probed region a search finds exactly the live block of the key.\<close>

lemma well_probed_live:
  assumes "region_ok r" "well_probed r"
  shows "(case probe_end r key of None \<Rightarrow> None | Some idx \<Rightarrow> if r_used r ! idx then Some idx else None) = Some i
    \<longleftrightarrow> live_at r key i"
proof
  assume "(case probe_end r key of None \<Rightarrow> None | Some idx \<Rightarrow> if r_used r ! idx then Some idx else None) = Some i"
  then have "probe_end r key = Some i" "r_used r ! i" by (auto split: option.splits if_splits)
  then show "live_at r key i" using probe_end_Some [OF assms(1)] by (auto simp: live_at_def probe_stop_def)
next
  assume "live_at r key i"
  then show "(case probe_end r key of None \<Rightarrow> None | Some idx \<Rightarrow> if r_used r ! idx then Some idx else None) = Some i"
    using assms(2) by (auto simp: live_at_def well_probed_def)
qed

text \<open>Regions that agree on capacity, use bits and keys.\<close>

lemma probe_end_cong:
  "r_slotCap r' = r_slotCap r \<Longrightarrow> r_used r' = r_used r \<Longrightarrow> r_keys r' = r_keys r \<Longrightarrow> probe_end r' = probe_end r"
proof -
  assume *: "r_slotCap r' = r_slotCap r" "r_used r' = r_used r" "r_keys r' = r_keys r"
  then have "probe_stop r' = probe_stop r" "probe_at r' = probe_at r"
    by (simp_all add: probe_stop_def probe_at_def home_def fun_eq_iff)
  then show ?thesis using * by (intro ext) (simp only: probe_end_def)
qed

lemma refresh_slot_fields [simp]:
  "r_slotCap (refresh_slot now i r) = r_slotCap r" "r_used (refresh_slot now i r) = r_used r"
  "r_keys (refresh_slot now i r) = r_keys r" "r_blockSize (refresh_slot now i r) = r_blockSize r"
  "r_domain (refresh_slot now i r) = r_domain r" "r_periodTicks (refresh_slot now i r) = r_periodTicks r"
  "r_poolSize (refresh_slot now i r) = r_poolSize r" "r_slotOffset (refresh_slot now i r) = r_slotOffset r"
  by (simp_all add: refresh_slot_def)

lemma claim_slot_fields [simp]:
  "r_slotCap (claim_slot dm per key now i r) = r_slotCap r"
  "r_used (claim_slot dm per key now i r) = (r_used r)[unat i := True]"
  "r_keys (claim_slot dm per key now i r) = (r_keys r)[unat i := key]"
  "r_blockSize (claim_slot dm per key now i r) = r_blockSize r"
  "r_domain (claim_slot dm per key now i r) = r_domain r"
  "r_periodTicks (claim_slot dm per key now i r) = r_periodTicks r"
  "r_poolSize (claim_slot dm per key now i r) = r_poolSize r"
  "r_slotOffset (claim_slot dm per key now i r) = r_slotOffset r"
  by (simp_all add: claim_slot_def Let_def)

lemma unat_index: "region_ok r \<Longrightarrow> idx < unat (r_slotCap r) \<Longrightarrow> unat (of_nat idx :: u32) = idx"
  using region_okD(4) [of r] by (simp add: unat_of_nat)

lemma block_fits: "region_ok r \<Longrightarrow> idx < unat (r_slotCap r) \<Longrightarrow> n \<le> 24 \<Longrightarrow> at_block r idx + n \<le> length (r_pool r)"
  using region_okD(5,6) [of r] by (simp add: at_block_def block_end)

lemma head_disjoint:
  "region_ok r \<Longrightarrow> a \<noteq> b \<Longrightarrow> at_block r a + 24 \<le> at_block r b \<or> at_block r b + 24 \<le> at_block r a"
  using region_okD(5) [of r] by (simp add: at_block_def block_disjoint)

lemma region_ok_refresh:
  assumes "region_ok r" "idx < unat (r_slotCap r)"
  shows "region_ok (refresh_slot now (of_nat idx) r)"
  using assms block_fits [OF assms, of 16]
  by (simp add: region_ok_def refresh_slot_def BlockAt_at_block unat_index [OF assms] set_lastTick_def mem_simps)

lemma region_ok_claim:
  assumes "region_ok r" "idx < unat (r_slotCap r)"
  shows "region_ok (claim_slot dm per key now (of_nat idx) r)"
  using assms block_fits [OF assms, of 20]
  by (simp add: region_ok_def claim_slot_def Let_def BlockAt_at_block unat_index [OF assms]
      set_lastTick_def set_periodTicks_def set_type_def mem_simps)

text \<open>The tick stored in a head, and the heads of the other blocks.\<close>

lemma set_lastTick_get:
  "h + 16 \<le> length pool \<Longrightarrow> get_lastTick h (set_lastTick h v pool) = v"
  using mem_read_write_same [of "h + 12" pool "le32 v"]
  by (simp add: get_lastTick_def set_lastTick_def get32_eq)

lemma mem_read_write_disjoint:
  "off + length bs \<le> length buf \<Longrightarrow> a + n \<le> length buf \<Longrightarrow> a + n \<le> off \<or> off + length bs \<le> a \<Longrightarrow>
   mem_read (mem_write buf off bs) a n = mem_read buf a n"
  by (auto simp: mem_simps)

lemma set_lastTick_other:
  assumes "h + 24 \<le> length pool" "h' + 24 \<le> length pool" "h + 24 \<le> h' \<or> h' + 24 \<le> h"
  shows "get_lastTick h' (set_lastTick h v pool) = get_lastTick h' pool"
  using assms by (auto simp: get_lastTick_def set_lastTick_def get32_def mem_read_write_disjoint)

lemma get_lastTick_refresh:
  assumes "region_ok r" "idx < unat (r_slotCap r)" "i < unat (r_slotCap r)"
  shows "get_lastTick (at_block r i) (r_pool (refresh_slot now (of_nat idx) r)) =
    (if i = idx then now else get_lastTick (at_block r i) (r_pool r))"
  using assms block_fits [OF assms(1,2), of 24] block_fits [OF assms(1,3), of 24] head_disjoint [OF assms(1), of idx i]
  by (auto simp: refresh_slot_def BlockAt_at_block unat_index [OF assms(1,2)] set_lastTick_get set_lastTick_other)

lemma get_lastTick_claim:
  assumes "region_ok r" "idx < unat (r_slotCap r)" "i < unat (r_slotCap r)"
  shows "get_lastTick (at_block r i) (r_pool (claim_slot dm per key now (of_nat idx) r)) =
    (if i = idx then now else get_lastTick (at_block r i) (r_pool r))"
proof -
  note f = block_fits [OF assms(1,2), of 24] block_fits [OF assms(1,3), of 24]
  let ?p = "set_periodTicks (at_block r idx) per (set_type (at_block r idx) dm (r_pool r))"
  have l: "length ?p = length (r_pool r)" using f by (simp add: set_periodTicks_def set_type_def mem_simps)
  have other: "get_lastTick (at_block r i) ?p = get_lastTick (at_block r i) (r_pool r)" if "i \<noteq> idx"
    using f head_disjoint [OF assms(1) that]
    by (auto simp: get_lastTick_def set_periodTicks_def set_type_def get32_def mem_read_write_disjoint length_mem_write)
  show ?thesis
  proof (cases "i = idx")
    case True
    then show ?thesis using f l
      by (simp add: claim_slot_def Let_def BlockAt_at_block unat_index [OF assms(1,2)] set_lastTick_get)
  next
    case False
    then show ?thesis using f l other head_disjoint [OF assms(1) False]
      by (simp add: claim_slot_def Let_def BlockAt_at_block unat_index [OF assms(1,2)] set_lastTick_other disj_commute)
  qed
qed

lemma probe_end_claim:
  assumes "region_ok r" "idx < unat (r_slotCap r)" "\<not> r_used r ! idx"
  shows "probe_end r k = Some i \<Longrightarrow> i \<noteq> idx \<Longrightarrow> probe_end (claim_slot dm per key now (of_nat idx) r) k = Some i"
    "probe_end r key = Some idx \<Longrightarrow> probe_end (claim_slot dm per key now (of_nat idx) r) key = Some idx"
proof -
  let ?r = "claim_slot dm per key now (of_nat idx) r"
  note u = unat_index [OF assms(1,2)]
  have at: "probe_at ?r = probe_at r" by (simp add: probe_at_def home_def fun_eq_iff)
  have stop: "probe_stop ?r k' y = probe_stop r k' y" if "y \<noteq> idx" for k' y
    using that u by (simp add: probe_stop_def)
  have here: "probe_stop r k' idx" for k' using assms(3) by (simp add: probe_stop_def)
  have own: "probe_stop ?r key idx"
    using assms(2) u region_okD(2) [OF assms(1)] by (simp add: probe_stop_def)
  show "probe_end ?r k = Some i" if "probe_end r k = Some i" "i \<noteq> idx"
    using find_change_other [OF that(1) [unfolded probe_end_def] that(2) here stop] at
    by (simp add: probe_end_def)
  show "probe_end ?r key = Some idx" if "probe_end r key = Some idx"
    using find_change_same [OF that [unfolded probe_end_def] own stop] at by (simp add: probe_end_def)
qed

lemma well_probed_claim:
  assumes ok: "region_ok r" and wp: "well_probed r" and e: "probe_end r key = Some idx" "\<not> r_used r ! idx"
  shows "well_probed (claim_slot dm per key now (of_nat idx) r)"
  unfolding well_probed_def
proof (intro allI impI)
  let ?r = "claim_slot dm per key now (of_nat idx) r"
  have idx: "idx < unat (r_slotCap r)" using probe_end_Some [OF ok e(1)] by simp
  note u = unat_index [OF ok idx]
  fix i assume i: "i < unat (r_slotCap ?r)" "r_used ?r ! i"
  show "probe_end ?r (r_keys ?r ! i) = Some i"
  proof (cases "i = idx")
    case True
    then show ?thesis using probe_end_claim(2) [OF ok idx e(2) e(1)] idx u region_okD(2) [OF ok] by simp
  next
    case False
    then have "probe_end r (r_keys r ! i) = Some i" using i u wp by (simp add: well_probed_def)
    from probe_end_claim(1) [OF ok idx e(2) this False] False u show ?thesis by simp
  qed
qed

lemma well_probed_refresh: "well_probed r \<Longrightarrow> well_probed (refresh_slot now i r)"
  by (simp add: well_probed_def probe_end_cong [of "refresh_slot now i r" r])

lemma live_at_claim:
  assumes "region_ok r" "idx < unat (r_slotCap r)" "\<not> r_used r ! idx"
  shows "live_at (claim_slot dm per key now (of_nat idx) r) k i \<longleftrightarrow> (if i = idx then k = key else live_at r k i)"
  using assms unat_index [OF assms(1,2)] region_okD(1,2) [OF assms(1)]
  by (auto simp: live_at_def)

lemma live_at_refresh [simp]: "live_at (refresh_slot now i r) = live_at r"
  by (simp add: live_at_def fun_eq_iff)

lemma FindRegion_Some: "FindRegion rs dm per = Some j \<Longrightarrow> j < length rs \<and> r_domain (rs ! j) = dm \<and> r_periodTicks (rs ! j) = per"
  by (induction rs arbitrary: j) (auto split: if_splits)

lemma FindRegion_update:
  "r_domain r' = r_domain (rs ! j) \<Longrightarrow> r_periodTicks r' = r_periodTicks (rs ! j) \<Longrightarrow>
   FindRegion (rs[j := r']) dm per = FindRegion rs dm per"
  by (induction rs arbitrary: j) (auto split: nat.split)

text \<open>The region that serves (domain, period), and what the invariant says of it.\<close>

definition serves :: "Impl \<Rightarrow> u16 \<Rightarrow> u32 \<Rightarrow> nat \<Rightarrow> RegionDesc \<Rightarrow> bool" where
  "serves im dm per j r \<longleftrightarrow> FindRegion (regions im) dm per = Some j \<and> regions im ! j = r \<and> region_ok r"

lemma FindBlock_live:
  assumes "serves im dm per j r" "well_probed r"
  shows "FindBlock dm per key im = Some (j, p) \<longleftrightarrow> (\<exists>i. live_at r key i \<and> p = at_block r i)"
    "FindBlock dm per key im = None \<longleftrightarrow> (\<forall>i. \<not> live_at r key i)"
proof -
  have s: "FindRegion (regions im) dm per = Some j" "regions im ! j = r" "region_ok r"
    using assms(1) by (auto simp: serves_def)
  have f: "FindBlock dm per key im = map_option (\<lambda>i. (j, at_block r i))
     (case probe_end r key of None \<Rightarrow> None | Some idx \<Rightarrow> if r_used r ! idx then Some idx else None)"
    using FindBlock_probe [OF s(1), of key] s(2,3) by (auto split: option.split)
  show "FindBlock dm per key im = Some (j, p) \<longleftrightarrow> (\<exists>i. live_at r key i \<and> p = at_block r i)"
    unfolding f well_probed_live [OF s(3) assms(2), symmetric] by auto
  show "FindBlock dm per key im = None \<longleftrightarrow> (\<forall>i. \<not> live_at r key i)"
    unfolding f well_probed_live [OF s(3) assms(2), symmetric] by (simp add: option.map_disc_iff)
qed

lemma FindBlock_region: "serves im dm per j r \<Longrightarrow> FindBlock dm per key im = Some q \<Longrightarrow> fst q = j"
  by (auto simp: serves_def FindBlock_def Let_def)

section \<open>Acquire and Find as a map\<close>

lemma serves_update:
  assumes "serves im dm per j r" "region_ok r'" "r_domain r' = r_domain r" "r_periodTicks r' = r_periodTicks r"
  shows "serves (im\<lparr>regions := (regions im)[j := r']\<rparr>) dm per j r'"
  using assms FindRegion_Some [of "regions im" dm per j] FindRegion_update [of r' "regions im" j]
  by (auto simp: serves_def)

lemma AcquireBlock_cases:
  assumes s: "serves im dm per j r"
  obtains (full) "probe_end r key = None" "AcquireBlock dm per key now im = (None, im)"
  | (hit) idx r' where "probe_end r key = Some idx" "live_at r key idx" "r' = refresh_slot now (of_nat idx) r"
      "AcquireBlock dm per key now im = (Some (j, at_block r idx), im\<lparr>regions := (regions im)[j := r']\<rparr>)"
      "serves (im\<lparr>regions := (regions im)[j := r']\<rparr>) dm per j r'" "idx < unat (r_slotCap r)"
  | (new) idx r' where "probe_end r key = Some idx" "\<not> r_used r ! idx" "r' = claim_slot dm per key now (of_nat idx) r"
      "AcquireBlock dm per key now im = (Some (j, at_block r idx), im\<lparr>regions := (regions im)[j := r']\<rparr>)"
      "serves (im\<lparr>regions := (regions im)[j := r']\<rparr>) dm per j r'" "idx < unat (r_slotCap r)"
proof -
  have f: "FindRegion (regions im) dm per = Some j" "regions im ! j = r" "region_ok r"
    using s by (auto simp: serves_def)
  have a: "AcquireBlock dm per key now im = (case probe_end r key of
      None \<Rightarrow> (None, im\<lparr>regions := (regions im)[j := r]\<rparr>)
    | Some idx \<Rightarrow> (Some (j, at_block r idx), im\<lparr>regions := (regions im)[j :=
        if r_used r ! idx then refresh_slot now (of_nat idx) r
        else claim_slot dm per key now (of_nat idx) r]\<rparr>))"
    using AcquireBlock_probe [OF f(1), of key now] f(2,3) by (simp add: Let_def)
  show thesis
  proof (cases "probe_end r key")
    case None
    moreover have "im\<lparr>regions := (regions im)[j := r]\<rparr> = im" using f(2) by (simp add: list_update_id [of _ j, unfolded f(2)] flip: f(2))
    ultimately show thesis using full a by simp
  next
    case (Some idx)
    note pe = probe_end_Some [OF f(3) Some]
    show thesis
    proof (cases "r_used r ! idx")
      case True
      show thesis
        by (rule hit [OF Some _ refl])
          (use a Some True pe s f in \<open>auto simp: live_at_def probe_stop_def intro!: serves_update region_ok_refresh\<close>)
    next
      case False
      show thesis
        by (rule new [OF Some False refl])
          (use a Some False pe s f in \<open>auto intro!: serves_update region_ok_claim\<close>)
    qed
  qed
qed

text \<open>A change that leaves a key's live slots alone leaves its look-up alone.\<close>

lemma FindBlock_same_live:
  assumes "serves im dm per j r" "well_probed r" "serves im' dm per j r'" "well_probed r'"
    and "\<And>i. live_at r' k i \<longleftrightarrow> live_at r k i" "at_block r' = at_block r"
  shows "FindBlock dm per k im' = FindBlock dm per k im"
proof -
  have "FindBlock dm per k im' = Some (j, q) \<longleftrightarrow> FindBlock dm per k im = Some (j, q)" for q
    unfolding FindBlock_live(1) [OF assms(3,4)] FindBlock_live(1) [OF assms(1,2)] assms(5,6) ..
  then show ?thesis using FindBlock_region [OF assms(3)] FindBlock_region [OF assms(1)]
    by (metis option.exhaust prod.collapse)
qed

text \<open>C5: As long as nothing has been evicted, the block table is a map from object keys to blocks.
  \<open>AcquireBlock\<close> fails exactly when the key has no block and all blocks are in use, and then
  changes nothing. Otherwise the block it returns is the one \<open>FindBlock\<close> returns for the key
  afterwards, it is the old one if the key had one, its age stamp is the current tick, every
  other key is found where it was before, and the invariants hold again.\<close>

theorem AcquireBlock_is_map_insert:
  assumes "serves im dm per j r" "well_probed r"
  shows "case AcquireBlock dm per key now im of
     (None, im') \<Rightarrow> im' = im \<and> FindBlock dm per key im = None \<and> (\<forall>i < unat (r_slotCap r). r_used r ! i)
   | (Some p, im') \<Rightarrow>
       FindBlock dm per key im' = Some p \<and>
       (FindBlock dm per key im \<noteq> None \<longrightarrow> FindBlock dm per key im = Some p) \<and>
       (\<forall>k. k \<noteq> key \<longrightarrow> FindBlock dm per k im' = FindBlock dm per k im) \<and>
       (\<exists>r'. serves im' dm per j r' \<and> well_probed r' \<and> get_lastTick (snd p) (r_pool r') = now)"
proof (cases rule: AcquireBlock_cases [OF assms(1), of key now, case_names full hit new])
  case full
  have ok: "region_ok r" using assms(1) by (simp add: serves_def)
  have "\<forall>i < unat (r_slotCap r). \<not> probe_stop r key i" using full(1) probe_end_None [OF ok] by blast
  then show ?thesis using full(2) FindBlock_live(2) [OF assms] by (auto simp: probe_stop_def live_at_def)
next
  case (hit idx r')
  have ok: "region_ok r" using assms(1) by (simp add: serves_def)
  have wp: "well_probed r'" using hit(3) well_probed_refresh assms(2) by simp
  have same: "FindBlock dm per k (im\<lparr>regions := (regions im)[j := r']\<rparr>) = FindBlock dm per k im" for k
    by (rule FindBlock_same_live [OF assms hit(5) wp]) (simp_all add: hit(3) live_at_def at_block_def fun_eq_iff)
  have "FindBlock dm per key im = Some (j, at_block r idx)"
    using FindBlock_live(1) [OF assms] hit(2) by blast
  moreover have "get_lastTick (at_block r idx) (r_pool r') = now"
    using get_lastTick_refresh [OF ok hit(6) hit(6)] hit(3) by simp
  ultimately show ?thesis using hit(4,5) wp same by auto
next
  case (new idx r')
  let ?im = "im\<lparr>regions := (regions im)[j := r']\<rparr>"
  have ok: "region_ok r" using assms(1) by (simp add: serves_def)
  have wp: "well_probed r'" using well_probed_claim [OF ok assms(2) new(1,2)] new(3) by simp
  have live: "live_at r' k i \<longleftrightarrow> (if i = idx then k = key else live_at r k i)" for k i
    using live_at_claim [OF ok new(6,2)] new(3) by simp
  have unused: "\<not> live_at r k idx" for k using new(2) by (simp add: live_at_def)
  have nokey: "\<not> live_at r key i" for i
    using well_probed_live [OF ok assms(2), of key i] new(1,2) by simp
  have ab: "at_block r' = at_block r" using new(3) by (simp add: at_block_def fun_eq_iff)
  have same: "FindBlock dm per k ?im = FindBlock dm per k im" if "k \<noteq> key" for k
    by (rule FindBlock_same_live [OF assms new(5) wp _ ab]) (use that unused live in auto)
  have "FindBlock dm per key ?im = Some (j, at_block r idx)"
    unfolding FindBlock_live(1) [OF new(5) wp] live ab by auto
  moreover have "FindBlock dm per key im = None" using FindBlock_live(2) [OF assms] nokey by blast
  moreover have "get_lastTick (at_block r idx) (r_pool r') = now"
    using get_lastTick_claim [OF ok new(6) new(6)] new(3) by simp
  ultimately show ?thesis using new(4,5) wp same by auto
qed

section \<open>Eviction\<close>

lemma evict_loop_unfold:
  assumes "region_ok r"
  shows "i + n = unat (r_slotCap r) \<Longrightarrow> length us = length (r_used r) \<Longrightarrow>
    evict_loop now ttl (of_nat i) n (r\<lparr>r_used := us\<rparr>) = r\<lparr>r_used :=
      map (\<lambda>k. us ! k \<and> \<not> (i \<le> k \<and> ttl < now - get_lastTick (at_block r k) (r_pool r))) [0..<unat (r_slotCap r)]\<rparr>"
proof (induction n arbitrary: i us)
  case 0
  then have "us = map (\<lambda>k. us ! k) [0..<unat (r_slotCap r)]"
    using region_okD(1) [OF assms] by (metis map_nth)
  also have "\<dots> = map (\<lambda>k. us ! k \<and> \<not> (i \<le> k \<and> ttl < now - get_lastTick (at_block r k) (r_pool r))) [0..<unat (r_slotCap r)]"
    using 0 by (intro map_cong refl) simp
  finally show ?case by simp
next
  case (Suc n)
  have i: "i < unat (r_slotCap r)" using Suc.prems by simp
  note u = unat_index [OF assms i]
  let ?old = "us ! i \<and> ttl < now - get_lastTick (at_block r i) (r_pool r)"
  let ?us = "if ?old then us[i := False] else us"
  have l: "length ?us = length (r_used r)" using Suc.prems by simp
  have "evict_loop now ttl (of_nat i) (Suc n) (r\<lparr>r_used := us\<rparr>) =
      evict_loop now ttl (of_nat (Suc i)) n (r\<lparr>r_used := ?us\<rparr>)"
    using u by (simp add: BlockAt_def at_block_def add.commute)
  also have "\<dots> = r\<lparr>r_used :=
      map (\<lambda>k. ?us ! k \<and> \<not> (Suc i \<le> k \<and> ttl < now - get_lastTick (at_block r k) (r_pool r))) [0..<unat (r_slotCap r)]\<rparr>"
    using Suc.prems l by (intro Suc.IH) simp_all
  also have "map (\<lambda>k. ?us ! k \<and> \<not> (Suc i \<le> k \<and> ttl < now - get_lastTick (at_block r k) (r_pool r))) [0..<unat (r_slotCap r)]
    = map (\<lambda>k. us ! k \<and> \<not> (i \<le> k \<and> ttl < now - get_lastTick (at_block r k) (r_pool r))) [0..<unat (r_slotCap r)]"
    using Suc.prems region_okD(1) [OF assms] by (intro map_cong refl) (auto simp: nth_list_update le_Suc_eq not_less_eq_eq intro: antisym)
  finally show ?case .
qed

definition evicted :: "u32 \<Rightarrow> RegionDesc \<Rightarrow> RegionDesc" where
  "evicted now r = r\<lparr>r_used := map (\<lambda>k. r_used r ! k \<and>
     \<not> kTtlPeriods * r_periodTicks r < now - get_lastTick (at_block r k) (r_pool r)) [0..<unat (r_slotCap r)]\<rparr>"

lemma evict_loop_evicted:
  "region_ok r \<Longrightarrow> evict_loop now (kTtlPeriods * r_periodTicks r) 0 (unat (r_slotCap r)) r = evicted now r"
  using evict_loop_unfold [of r 0 "unat (r_slotCap r)" "r_used r" now "kTtlPeriods * r_periodTicks r"]
  by (simp add: evicted_def)

lemma evicted_fields [simp]:
  "r_slotCap (evicted now r) = r_slotCap r" "r_keys (evicted now r) = r_keys r" "r_pool (evicted now r) = r_pool r"
  "r_blockSize (evicted now r) = r_blockSize r" "r_domain (evicted now r) = r_domain r"
  "r_periodTicks (evicted now r) = r_periodTicks r" "r_poolSize (evicted now r) = r_poolSize r"
  "i < unat (r_slotCap r) \<Longrightarrow> r_used (evicted now r) ! i \<longleftrightarrow> r_used r ! i \<and>
     \<not> kTtlPeriods * r_periodTicks r < now - get_lastTick (at_block r i) (r_pool r)"
  by (simp_all add: evicted_def)

lemma region_ok_evicted: "region_ok r \<Longrightarrow> region_ok (evicted now r)"
  by (simp add: region_ok_def evicted_def)

lemma EvictExpired_region:
  "j < length (regions im) \<Longrightarrow> region_ok (regions im ! j) \<Longrightarrow>
   regions (EvictExpired now im) ! j = evicted now (regions im ! j)"
  by (simp add: EvictExpired_def evict_loop_evicted)

lemma FindRegion_map:
  "(\<And>r. r_domain (f r) = r_domain r \<and> r_periodTicks (f r) = r_periodTicks r) \<Longrightarrow>
   FindRegion (map f rs) dm per = FindRegion rs dm per"
  by (induction rs) auto

lemma evict_loop_dp:
  "r_domain (evict_loop now ttl i n r) = r_domain r \<and> r_periodTicks (evict_loop now ttl i n r) = r_periodTicks r"
  by (induction now ttl i n r rule: evict_loop.induct) auto

lemma serves_evict: "serves im dm per j r \<Longrightarrow> serves (EvictExpired now im) dm per j (evicted now r)"
  using FindRegion_Some [of "regions im" dm per j]
  by (auto simp: serves_def EvictExpired_region region_ok_evicted)
    (simp add: EvictExpired_def FindRegion_map evict_loop_dp)

section \<open>The region that Init builds\<close>

text \<open>The region after the first \<open>k\<close> specifications, \<open>k\<close> at least 1.\<close>

definition cell_region :: "nat \<Rightarrow> RegionDesc" where
  "cell_region k = \<lparr>r_domain = 0, r_periodTicks = 10, r_slotCap = 384, r_blockSize = of_nat (14 + slice_off k),
     r_pool = [], r_poolSize = 0, r_used = [], r_keys = [],
     r_slotOffset = (\<lambda>d. if 1 \<le> unat d \<and> unat d \<le> k then Some (of_nat (14 + slice_off (unat d - 1))) else None)\<rparr>"

lemma AlignUp_CacheHead: "AlignUp sizeof_CacheHead 8 = 24"
  by (simp add: AlignUp_def sizeof_CacheHead_def)

lemma add_slot_cell:
  assumes "k < 500"
  shows "add_slot (SpecOf (1 + of_nat k)) (cell_region k) = cell_region (Suc k)"
proof -
  have "(if 1 \<le> unat d \<and> unat d \<le> Suc k then Some (of_nat (14 + slice_off (unat d - 1)) :: u32) else None) =
    ((\<lambda>d. if 1 \<le> unat d \<and> unat d \<le> k then Some (of_nat (14 + slice_off (unat d - 1))) else None)
      (1 + of_nat k \<mapsto> of_nat (14 + slice_off k))) d" for d :: u16
    using unat_cell_id [OF assms] by (auto simp: le_Suc_eq word_unat_eq_iff)
  moreover have "of_nat (14 + slice_off k) + of_nat (slice_len k) = (of_nat (14 + slice_off (Suc k)) :: u32)"
    using slice_off_Suc [OF assms] by (simp add: add.assoc)
  ultimately show ?thesis
    unfolding add_slot_def SpecOf_cell [OF assms] cell_region_def by (simp add: fun_eq_iff)
qed

lemma init_spec_cells:
  assumes "k < 500"
  shows "fold init_spec (map (\<lambda>i. SpecOf (1 + of_nat i)) [0..<Suc k]) [] = [cell_region (Suc k)]"
  using assms
proof (induction k)
  case 0
  have "new_region (SpecOf 1) = cell_region 0"
    using SpecOf_cell [of 0] by (simp add: new_region_def cell_region_def kCellSlotCap_def AlignUp_CacheHead fun_eq_iff)
  then show ?case using add_slot_cell [of 0] SpecOf_cell [of 0] by (simp add: init_spec_def)
next
  case (Suc k)
  have "init_spec (SpecOf (1 + of_nat (Suc k))) [cell_region (Suc k)] = [cell_region (Suc (Suc k))]"
    unfolding add_slot_cell [OF Suc.prems, symmetric]
    using SpecOf_cell [OF Suc.prems] by (simp add: init_spec_def cell_region_def)
  moreover have "fold init_spec (map (\<lambda>i. SpecOf (1 + of_nat i)) [0..<Suc k]) [] = [cell_region (Suc k)]"
    using Suc by simp
  moreover have "[0..<Suc (Suc k)] = [0..<Suc k] @ [Suc k]" by simp
  ultimately show ?case by (simp only: map_append fold_append list.map fold.simps comp_def) simp
qed

lemma g_specs_fold: "fold init_spec g_specs [] = [cell_region 500]"
proof -
  have "unat kCellDataIdCount = Suc 499" by (simp add: kCellDataIdCount_def)
  moreover have "fold init_spec (map (\<lambda>i. SpecOf (1 + of_nat i)) [0..<Suc 499]) [] = [cell_region (Suc 499)]"
    by (rule init_spec_cells) simp
  moreover have "Suc 499 = 500" by simp
  ultimately show ?thesis unfolding g_specs_def kCellDataIdBase_def by (simp only:)
qed

definition region0 :: "(nat \<Rightarrow> bytes) \<Rightarrow> RegionDesc" where
  "region0 fresh = alloc_pool fresh (cell_region 500)"

lemma Init_region0: "Init fresh None = \<lparr>regions = [region0 fresh], fixedSlots = Map.empty, init_done = True\<rparr>"
  by (simp add: Init_def g_specs_fold region0_def)

lemma unat_blockSize: "unat (of_nat (14 + slice_off 500) :: u32) = 32782"
  by (simp add: slice_off_500)

lemma region0_fields:
  "r_domain (region0 fresh) = 0" "r_periodTicks (region0 fresh) = 10" "r_slotCap (region0 fresh) = 384"
  "unat (r_blockSize (region0 fresh)) = 32782" "r_poolSize (region0 fresh) = 384 * 32782"
  "r_pool (region0 fresh) = fresh (384 * 32782)" "r_used (region0 fresh) = replicate 384 False"
  "r_keys (region0 fresh) = replicate 384 0" "r_slotOffset (region0 fresh) = r_slotOffset (cell_region 500)"
  using unat_blockSize
  by (simp_all add: region0_def alloc_pool_def Let_def cell_region_def del: of_nat_add)

lemma slotOffset_cell: "i < 500 \<Longrightarrow> r_slotOffset (region0 fresh) (1 + of_nat i) = Some (of_nat (14 + slice_off i))"
  by (simp add: region0_fields(9) cell_region_def unat_cell_id)

lemma unat_slotOffset: "i \<le> 500 \<Longrightarrow> unat (of_nat (14 + slice_off i) :: u32) = 14 + slice_off i"
  using slice_off_mono [of i 500] by (simp add: slice_off_500 unat_of_nat del: of_nat_add)

lemma region0_ok: "(\<And>n. length (fresh n) = n) \<Longrightarrow> region_ok (region0 fresh)"
  by (simp add: region_ok_def region0_fields)

lemma region0_well_probed: "well_probed (region0 fresh)"
  by (simp add: well_probed_def region0_fields)

lemma region0_not_live: "\<not> live_at (region0 fresh) k i"
  by (auto simp: live_at_def region0_fields)

lemma Init_serves: "(\<And>n. length (fresh n) = n) \<Longrightarrow> serves (Init fresh None) 0 10 0 (region0 fresh)"
  using region0_ok by (simp add: serves_def Init_region0 region0_fields)

theorem AcquireBlock_is_map_insert_witness:
  "case AcquireBlock 0 10 77 5 (Init (\<lambda>n. replicate n 0) None) of
     (None, im') \<Rightarrow> False | (Some p, im') \<Rightarrow> FindBlock 0 10 77 im' = Some p"
proof -
  have s: "serves (Init (\<lambda>n. replicate n 0) None) 0 10 0 (region0 (\<lambda>n. replicate n 0))"
    by (rule Init_serves) simp
  have "\<not> r_used (region0 (\<lambda>n. replicate n 0)) ! 0" "0 < unat (r_slotCap (region0 (\<lambda>n. replicate n 0)))"
    by (simp_all add: region0_fields)
  then show ?thesis
    using AcquireBlock_is_map_insert [OF s region0_well_probed, of 77 5]
    by (auto split: prod.splits option.splits)
qed

text \<open>\<open>Init\<close> builds one region, for (CELL, 1 s), of 384 blocks of 32782 bytes: a 24-byte aligned
  head and the 500 slots packed in id order. No block is in use, nothing is found, and a second
  \<open>Init\<close> does nothing. The block size is not a multiple of 4, so every block with an odd index
  starts at an address that is not aligned for the 32-bit fields of its \<open>CacheHead\<close>.\<close>

theorem Init_layout:
  assumes "\<And>n. length (fresh n) = n"
  shows "\<exists>r. regions (Init fresh None) = [r] \<and> serves (Init fresh None) 0 10 0 r \<and> well_probed r \<and>
    r_slotCap r = kCellSlotCap \<and> unat (r_blockSize r) = 32782 \<and>
    (\<forall>i<500. map_option unat (r_slotOffset r (1 + of_nat i)) = Some (24 + (slice_off i - 10))) \<and>
    (\<forall>k. FindBlock 0 10 k (Init fresh None) = None) \<and>
    Init fresh' (Some (Init fresh None)) = Init fresh None \<and>
    (\<forall>idx. odd (unat idx) \<longrightarrow> BlockAt r idx mod 4 = 2)"
proof (intro exI conjI)
  note s = Init_serves [OF assms]
  show "regions (Init fresh None) = [region0 fresh]" by (simp add: Init_region0)
  show "serves (Init fresh None) 0 10 0 (region0 fresh)" by (rule s)
  show wp: "well_probed (region0 fresh)" by (rule region0_well_probed)
  show "r_slotCap (region0 fresh) = kCellSlotCap" by (simp add: region0_fields kCellSlotCap_def)
  show "unat (r_blockSize (region0 fresh)) = 32782" by (rule region0_fields)
  show "\<forall>i<500. map_option unat (r_slotOffset (region0 fresh) (1 + of_nat i)) = Some (24 + (slice_off i - 10))"
  proof (intro allI impI)
    fix i :: nat assume i: "i < 500"
    have "10 \<le> slice_off i" using slice_off_mono [of 0 i] by simp
    then show "map_option unat (r_slotOffset (region0 fresh) (1 + of_nat i)) = Some (24 + (slice_off i - 10))"
      using unat_slotOffset [of i] i by (simp only: slotOffset_cell option.map) simp
  qed
  show "\<forall>k. FindBlock 0 10 k (Init fresh None) = None"
    using FindBlock_live(2) [OF s wp] region0_not_live by blast
  show "Init fresh' (Some (Init fresh None)) = Init fresh None" by (simp add: Init_region0) (simp add: Init_def)
  show "\<forall>idx. odd (unat idx) \<longrightarrow> BlockAt (region0 fresh) idx mod 4 = 2"
  proof (intro allI impI)
    fix idx :: u32 assume "odd (unat idx)"
    then obtain m where m: "unat idx = 2 * m + 1" by (elim oddE)
    have "BlockAt (region0 fresh) idx = 4 * (16391 * m + 8195) + 2"
      unfolding BlockAt_def region0_fields(4) m by (simp add: add_mult_distrib)
    then show "BlockAt (region0 fresh) idx mod 4 = 2" by (simp only: mod_mult_self4) simp
  qed
qed

theorem Init_layout_witness:
  "\<exists>r. regions (Init (\<lambda>n. replicate n 0xAB) None) = [r] \<and> BlockAt r 3 mod 4 = 2"
  using Init_layout [of "\<lambda>n. replicate n 0xAB" "\<lambda>n. []"] by force

text \<open>A block is evicted exactly when it has gone unused for more than three report periods, also
  across the wrap-around of the 32-bit tick: after \<open>AcquireBlock\<close> at tick \<open>t\<close>, an eviction \<open>d\<close>
  ticks later leaves the block in use for its key iff \<open>d\<close> is at most three times the period;
  every other block in use is judged by its own stamp, and no byte of the pool changes.\<close>

theorem Block_ages_out:
  assumes "serves im dm per j r" "AcquireBlock dm per key t im = (Some p, im')"
  shows "\<exists>r' i. serves im' dm per j r' \<and> live_at r' key i \<and> p = (j, at_block r' i) \<and>
    (live_at (regions (EvictExpired (t + d) im') ! j) key i \<longleftrightarrow> d \<le> kTtlPeriods * per) \<and>
    (\<forall>k m. live_at (regions (EvictExpired (t + d) im') ! j) k m \<longleftrightarrow>
       live_at r' k m \<and> t + d - get_lastTick (at_block r' m) (r_pool r') \<le> kTtlPeriods * per) \<and>
    r_pool (regions (EvictExpired (t + d) im') ! j) = r_pool r'"
proof -
  have ok: "region_ok r" using assms(1) by (simp add: serves_def)
  have "\<exists>r' i. serves im' dm per j r' \<and> live_at r' key i \<and> p = (j, at_block r' i) \<and>
    get_lastTick (at_block r' i) (r_pool r') = t"
  proof (cases rule: AcquireBlock_cases [OF assms(1), of key t, case_names full hit new])
    case (hit idx r')
    then show ?thesis using assms(2) get_lastTick_refresh [OF ok hit(6,6)]
      by (intro exI [of _ r'] exI [of _ idx]) (simp add: at_block_def)
  next
    case (new idx r')
    then show ?thesis using assms(2) get_lastTick_claim [OF ok new(6,6)] live_at_claim [OF ok new(6,2)]
      by (intro exI [of _ r'] exI [of _ idx]) (simp add: at_block_def)
  qed (use assms(2) in simp)
  then obtain r' i where r': "serves im' dm per j r'" "live_at r' key i" "p = (j, at_block r' i)"
    "get_lastTick (at_block r' i) (r_pool r') = t" by blast
  have per: "r_periodTicks r' = per" using r'(1) FindRegion_Some by (fastforce simp: serves_def)
  have ev: "regions (EvictExpired (t + d) im') ! j = evicted (t + d) r'"
    using serves_evict [OF r'(1)] by (simp add: serves_def)
  have all: "live_at (evicted (t + d) r') k m \<longleftrightarrow>
       live_at r' k m \<and> t + d - get_lastTick (at_block r' m) (r_pool r') \<le> kTtlPeriods * per" for k m
    using per by (cases "m < unat (r_slotCap r')") (auto simp: live_at_def not_less)
  show ?thesis
    unfolding ev using r' all by (intro exI [of _ r'] exI [of _ i]) simp
qed

theorem Block_ages_out_witness:
  "\<exists>im' p. AcquireBlock 0 10 77 (- 5) (Init (\<lambda>n. replicate n 0) None) = (Some p, im') \<and>
     (\<exists>i. live_at (regions (EvictExpired (- 5 + 30) im') ! 0) 77 i) \<and>
     (\<exists>i. \<not> live_at (regions (EvictExpired (- 5 + 31) im') ! 0) 77 i)"
proof -
  have s: "serves (Init (\<lambda>n. replicate n 0) None) 0 10 0 (region0 (\<lambda>n. replicate n 0))"
    by (rule Init_serves) simp
  have "probe_end (region0 (\<lambda>n. replicate n 0)) 77 \<noteq> None"
    using s by (subst probe_end_None) (auto simp: serves_def region0_fields probe_stop_def intro!: exI [of _ 0])
  then obtain p im' where a: "AcquireBlock 0 10 77 (- 5) (Init (\<lambda>n. replicate n 0) None) = (Some p, im')"
    by (cases rule: AcquireBlock_cases [OF s, of 77 "- 5"]) auto
  from Block_ages_out [OF s a, of 30] have "\<exists>i. live_at (regions (EvictExpired (- 5 + 30) im') ! 0) 77 i"
    by (auto simp: kTtlPeriods_def)
  moreover from Block_ages_out [OF s a, of 31] have "\<exists>i. \<not> live_at (regions (EvictExpired (- 5 + 31) im') ! 0) 77 i"
    by (auto simp: kTtlPeriods_def)
  ultimately show ?thesis using a by blast
qed

lemma probe_end_home:
  assumes "region_ok r" "probe_stop r k (home r k)"
  shows "probe_end r k = Some (home r k)"
proof -
  have "[0..<unat (r_slotCap r)] = 0 # [1..<unat (r_slotCap r)]"
    using region_okD(3) [OF assms(1)] by (simp add: upt_conv_Cons)
  moreover have "probe_at r k 0 = home r k" using home_lt [OF assms(1)] by (simp add: probe_at_def)
  ultimately show ?thesis using assms(2) by (simp add: probe_end_def)
qed

text \<open>C6: Eviction breaks probe chains. Let the block \<open>i2\<close> in use for key \<open>k\<close> lie behind its home
  block because the home block was taken by another object, and let the home block expire
  while \<open>i2\<close> is fresh. After the eviction \<open>i2\<close> is still in use for \<open>k\<close>, but \<open>FindBlock\<close> reports
  that \<open>k\<close> has no block, and \<open>AcquireBlock\<close> hands out the home block: two blocks are then in use
  for the same object.\<close>

theorem Evict_breaks_probe_chain:
  assumes "serves im dm per j r" "live_at r k i2" "i2 \<noteq> home r k"
    and "\<not> (now - get_lastTick (at_block r (home r k)) (r_pool r) \<le> kTtlPeriods * per)"
    and "now - get_lastTick (at_block r i2) (r_pool r) \<le> kTtlPeriods * per"
  shows "live_at (regions (EvictExpired now im) ! j) k i2 \<and>
    FindBlock dm per k (EvictExpired now im) = None \<and>
    (\<exists>im'. AcquireBlock dm per k now' (EvictExpired now im) = (Some (j, at_block r (home r k)), im') \<and>
       live_at (regions im' ! j) k (home r k) \<and> live_at (regions im' ! j) k i2)"
proof (intro conjI)
  let ?r = "evicted now r" and ?im = "EvictExpired now im"
  have s: "serves ?im dm per j ?r" by (rule serves_evict [OF assms(1)])
  have ok: "region_ok ?r" "regions ?im ! j = ?r" "FindRegion (regions ?im) dm per = Some j"
    using s by (auto simp: serves_def)
  have okr: "region_ok r" using assms(1) by (simp add: serves_def)
  have per: "r_periodTicks r = per" using assms(1) FindRegion_Some by (fastforce simp: serves_def)
  have h: "home ?r k = home r k" by (simp add: home_def)
  have unused: "\<not> r_used ?r ! home r k" using home_lt [OF okr, of k] assms(4) per by (simp add: not_le)
  have pe: "probe_end ?r k = Some (home r k)"
    using probe_end_home [OF ok(1), of k] unused h by (simp add: probe_stop_def)
  have live: "live_at ?r k i2" using assms(2,5) per by (auto simp: live_at_def)
  then show "live_at (regions ?im ! j) k i2" using ok by simp
  show "FindBlock dm per k ?im = None" using FindBlock_probe [OF ok(3)] ok unused pe by simp
  show "\<exists>im'. AcquireBlock dm per k now' ?im = (Some (j, at_block r (home r k)), im') \<and>
       live_at (regions im' ! j) k (home r k) \<and> live_at (regions im' ! j) k i2"
  proof (cases rule: AcquireBlock_cases [OF s, of k now', case_names full hit new])
    case (hit idx r')
    then show ?thesis using pe unused by (simp add: live_at_def)
  next
    case (new idx r')
    then have "idx = home r k" using pe by simp
    moreover have "regions (?im\<lparr>regions := (regions ?im)[j := r']\<rparr>) ! j = r'" using new(5) by (simp add: serves_def)
    ultimately show ?thesis using new live live_at_claim [OF ok(1) new(6,2)] assms(3)
      by (intro exI [of _ "?im\<lparr>regions := (regions ?im)[j := r']\<rparr>"]) (simp add: at_block_def)
  qed (use pe in simp)
qed

text \<open>Cells (0, 0) and (0, 384) share home block 0; cell (0, 0) falls silent.\<close>

definition chain_region :: RegionDesc where
  "chain_region = claim_slot 0 10 (CellHashKey 0 384) 20 1
     (claim_slot 0 10 (CellHashKey 0 0) 0 0 (region0 (\<lambda>n. replicate n 0)))"

theorem Evict_breaks_probe_chain_witness:
  "FindBlock 0 10 (CellHashKey 0 384) (EvictExpired 31 \<lparr>regions = [chain_region], fixedSlots = Map.empty, init_done = True\<rparr>) = None"
proof -
  let ?r0 = "region0 (\<lambda>n. replicate n 0)" and ?im = "\<lparr>regions = [chain_region], fixedSlots = Map.empty, init_done = True\<rparr>"
  let ?r1 = "claim_slot 0 10 (CellHashKey 0 0) 0 0 ?r0"
  have ok0: "region_ok ?r0" by (simp add: region0_ok)
  have cap: "unat (r_slotCap ?r0) = 384" by (simp add: region0_fields)
  have ok1: "region_ok ?r1" using region_ok_claim [OF ok0, of 0] cap by simp
  have ok: "region_ok chain_region"
    using region_ok_claim [OF ok1, of 1] cap by (simp add: chain_region_def)
  have s: "serves ?im 0 10 0 chain_region" using ok by (simp add: serves_def chain_region_def region0_fields)
  have k: "unat (CellHashKey 0 384) = 384" by (simp add: unat_CellHashKey)
  have h: "home chain_region (CellHashKey 0 384) = 0" using k cap by (simp add: home_def chain_region_def)
  have l: "live_at chain_region (CellHashKey 0 384) 1"
    using live_at_claim [OF ok1, of 1] cap by (simp add: chain_region_def region0_fields)
  have t0: "get_lastTick (at_block ?r1 0) (r_pool chain_region) = 0"
    using get_lastTick_claim [OF ok1, of 1 0] get_lastTick_claim [OF ok0, of 0 0] cap
    by (simp add: chain_region_def at_block_def)
  have t1: "get_lastTick (at_block ?r1 1) (r_pool chain_region) = 20"
    using get_lastTick_claim [OF ok1, of 1 1] cap by (simp add: chain_region_def)
  have b: "at_block chain_region = at_block ?r1" by (simp add: at_block_def fun_eq_iff chain_region_def)
  show ?thesis
    using Evict_breaks_probe_chain [OF s l, of 31] h b t0 t1 by (simp add: kTtlPeriods_def)
qed

section \<open>Slots\<close>

definition cell_layout :: "RegionDesc \<Rightarrow> bool" where
  "cell_layout r \<longleftrightarrow> unat (r_blockSize r) = 32782 \<and>
     (\<forall>i<500. r_slotOffset r (1 + of_nat i) = Some (of_nat (14 + slice_off i)))"

lemma cell_layout_region0: "cell_layout (region0 fresh)"
  by (simp add: cell_layout_def region0_fields(4) slotOffset_cell del: of_nat_add)

lemma cell_layout_cong:
  "r_blockSize r' = r_blockSize r \<Longrightarrow> r_slotOffset r' = r_slotOffset r \<Longrightarrow> cell_layout r' = cell_layout r"
  by (simp add: cell_layout_def)

text \<open>Where the slot of data id \<open>i + 1\<close> begins in block \<open>idx\<close>.\<close>

definition slot_at :: "RegionDesc \<Rightarrow> nat \<Rightarrow> nat \<Rightarrow> nat" where
  "slot_at r idx i = at_block r idx + 14 + slice_off i"

lemma slot_bounds:
  assumes "cell_layout r" "i < 500"
  shows "at_block r idx + 24 \<le> slot_at r idx i" "slot_at r idx i + slice_len i \<le> at_block r idx + 32782"
  using slice_end [OF assms(2)] slice_off_mono [of 0 i] by (simp_all add: slot_at_def)

lemma SlotOf_cell:
  assumes "serves im dm per j r" "cell_layout r" "idx < unat (r_slotCap r)" "i < 500"
  shows "SlotOf im (j, at_block r idx) (1 + of_nat i) = Some (j, slot_at r idx i)"
proof -
  have s: "j < length (regions im)" "regions im ! j = r" "region_ok r"
    using assms(1) FindRegion_Some by (auto simp: serves_def)
  have "at_block r idx < r_poolSize r"
    using block_fits [OF s(3) assms(3), of 24] region_okD(6,7) [OF s(3)] by simp
  then have "RegionOf (regions im) (j, at_block r idx) = Some r" using s by (simp add: RegionOf_def)
  then show ?thesis using assms(2,4) unat_slotOffset [of i]
    by (simp add: SlotOf_def cell_layout_def slot_at_def del: of_nat_add)
qed

lemma slots_apart:
  assumes "region_ok r" "cell_layout r" "i < 500" "i' < 500" "(idx, i) \<noteq> (idx', i')"
  shows "slot_at r idx i + slice_len i \<le> slot_at r idx' i' \<or> slot_at r idx' i' + slice_len i' \<le> slot_at r idx i"
proof (cases "idx = idx'")
  case True
  then have "i < i' \<or> i' < i" using assms(5) by auto
  then show ?thesis using True slices_disjoint [of i i'] slices_disjoint [of i' i] assms(3,4)
    by (auto simp: slot_at_def)
next
  case False
  have "at_block r idx + 32782 \<le> at_block r idx' \<or> at_block r idx' + 32782 \<le> at_block r idx"
    using block_disjoint [OF False, of 32782 32782] assms(2) by (simp add: at_block_def cell_layout_def)
  then show ?thesis using slot_bounds [OF assms(2,3), of idx] slot_bounds [OF assms(2,4), of idx'] by auto
qed

lemma slot_fits:
  assumes "region_ok r" "cell_layout r" "idx < unat (r_slotCap r)" "i < 500"
  shows "slot_at r idx i + slice_len i \<le> length (r_pool r)"
proof -
  have "at_block r idx + 32782 \<le> length (r_pool r)"
    using region_okD(6) [OF assms(1)] block_end [OF assms(3), of 32782 32782] assms(2)
    by (simp add: at_block_def cell_layout_def)
  then show ?thesis using slot_bounds(2) [OF assms(2,4), of idx] by simp
qed

lemma pool_store_serves:
  assumes "serves im dm per j r" "p + length bs \<le> length (r_pool r)"
  shows "serves (pool_store (j, p) bs im) dm per j (r\<lparr>r_pool := mem_write (r_pool r) p bs\<rparr>)"
proof -
  have r: "region_ok r" "regions im ! j = r" using assms(1) by (auto simp: serves_def)
  have ok: "region_ok (r\<lparr>r_pool := mem_write (r_pool r) p bs\<rparr>)"
    using assms(2) r(1) by (simp add: region_ok_def length_mem_write)
  have "pool_store (j, p) bs im = im\<lparr>regions := (regions im)[j := r\<lparr>r_pool := mem_write (r_pool r) p bs\<rparr>]\<rparr>"
    using r(2) by (simp add: pool_store_def)
  then show ?thesis using serves_update [OF assms(1) ok] by simp
qed

text \<open>No head of a block overlaps a slot, and no slot another one.\<close>

lemma head_apart:
  assumes "region_ok r" "cell_layout r" "idx < unat (r_slotCap r)" "idx' < unat (r_slotCap r)" "i < 500" "length bs = slice_len i"
  shows "mem_read (mem_write (r_pool r) (slot_at r idx i) bs) (at_block r idx') 24 = mem_read (r_pool r) (at_block r idx') 24"
proof -
  have "at_block r idx' + 24 \<le> slot_at r idx i \<or> slot_at r idx i + slice_len i \<le> at_block r idx'"
  proof (cases "idx = idx'")
    case False
    have "at_block r idx + 32782 \<le> at_block r idx' \<or> at_block r idx' + 32782 \<le> at_block r idx"
      using block_disjoint [OF False, of 32782 32782] assms(2) by (simp add: at_block_def cell_layout_def)
    then show ?thesis using slot_bounds [OF assms(2,5), of idx] by auto
  qed (use slot_bounds [OF assms(2,5), of idx] in simp)
  then show ?thesis
    using block_fits [OF assms(1,4), of 24] slot_fits [OF assms(1,2,3,5)] assms(6)
    by (auto simp: mem_read_write_disjoint)
qed

text \<open>The fields of a block's \<open>CacheHead\<close> are bytes of its first 24.\<close>

lemma head_tick: "get_lastTick h pool = of_nat (le_val (take 4 (drop 12 (mem_read pool h 24))))"
  by (simp add: get_lastTick_def get32_def mem_read_def drop_take add.commute [of h])

lemma other_slot:
  assumes "serves im dm per j r" "serves im' dm per j r'" "cell_layout r" "r' = r\<lparr>r_pool := mem_write (r_pool r) (slot_at r idx i) bs\<rparr>"
    and "idx < unat (r_slotCap r)" "i < 500" "length bs = slice_len i"
    and "idx' < unat (r_slotCap r)" "i' < 500" "(idx, i) \<noteq> (idx', i')"
  shows "SlotOf im' (j, at_block r idx') (1 + of_nat i') = Some (j, slot_at r idx' i')"
    "pool_load (j, slot_at r idx' i') (slice_len i') im' = pool_load (j, slot_at r idx' i') (slice_len i') im"
proof -
  have r: "region_ok r" "regions im ! j = r" "regions im' ! j = r'" using assms(1,2) by (auto simp: serves_def)
  have lay: "cell_layout r'" using assms(3) by (simp add: cell_layout_def assms(4))
  have "at_block r' idx' = at_block r idx'" "slot_at r' idx' i' = slot_at r idx' i'"
    by (simp_all add: at_block_def slot_at_def assms(4))
  then show "SlotOf im' (j, at_block r idx') (1 + of_nat i') = Some (j, slot_at r idx' i')"
    using SlotOf_cell [OF assms(2) lay, of idx' i'] assms(8,9) by (simp add: assms(4))
  show "pool_load (j, slot_at r idx' i') (slice_len i') im' = pool_load (j, slot_at r idx' i') (slice_len i') im"
    using slots_apart [OF r(1) assms(3,6,9,10)] slot_fits [OF r(1) assms(3,8,9)] slot_fits [OF r(1) assms(3,5,6)] assms(7)
    by (auto simp: pool_load_def r assms(4) mem_read_write_disjoint)
qed

text \<open>C10: The slots of the cache are isolated. For every block and every data id, \<open>SlotOf\<close> gives an
  address from which exactly the slice written there is read back; the write changes the slot of
  no other data id of the block, no slot of another block, and none of the 24 bytes with which a
  block begins, where its whole \<open>CacheHead\<close> lies (type, key, last tick, period), of any block; it
  stays inside the pool, and of all the regions only the bytes of this pool change: the keys, the
  used flags and every other region are as before.\<close>

theorem Slots_isolated:
  assumes "serves im dm per j r" "cell_layout r" "idx < unat (r_slotCap r)" "i < 500" "length bs = slice_len i"
  shows "\<exists>q im'. SlotOf im (j, at_block r idx) (1 + of_nat i) = Some q \<and> im' = pool_store q bs im \<and>
    pool_load q (slice_len i) im' = bs \<and>
    (\<forall>idx' i'. idx' < unat (r_slotCap r) \<longrightarrow> i' < 500 \<longrightarrow> (idx, i) \<noteq> (idx', i') \<longrightarrow>
      (\<exists>q'. SlotOf im' (j, at_block r idx') (1 + of_nat i') = Some q' \<and>
        pool_load q' (slice_len i') im' = pool_load q' (slice_len i') im)) \<and>
    (\<exists>r'. serves im' dm per j r' \<and> cell_layout r' \<and> r' = r\<lparr>r_pool := r_pool r'\<rparr> \<and> length (r_pool r') = length (r_pool r) \<and>
      im' = im\<lparr>regions := (regions im)[j := r']\<rparr> \<and> (\<forall>idx' < unat (r_slotCap r).
      mem_read (r_pool r') (at_block r idx') 24 = mem_read (r_pool r) (at_block r idx') 24 \<and>
      get_lastTick (at_block r idx') (r_pool r') = get_lastTick (at_block r idx') (r_pool r)))"
proof (intro exI conjI)
  let ?q = "(j, slot_at r idx i)" and ?r = "r\<lparr>r_pool := mem_write (r_pool r) (slot_at r idx i) bs\<rparr>"
  have ok: "region_ok r" using assms(1) by (simp add: serves_def)
  note fit = slot_fits [OF ok assms(2-4)]
  have s: "serves (pool_store ?q bs im) dm per j ?r"
    by (rule pool_store_serves [OF assms(1)]) (use fit assms(5) in simp)
  then have rj': "regions (pool_store ?q bs im) ! j = ?r" by (simp add: serves_def)
  show "SlotOf im (j, at_block r idx) (1 + of_nat i) = Some ?q" by (rule SlotOf_cell [OF assms(1-4)])
  show "pool_store ?q bs im = pool_store ?q bs im" ..
  show "pool_load ?q (slice_len i) (pool_store ?q bs im) = bs"
    using fit assms(5) mem_read_write_same [of "slot_at r idx i" "r_pool r" bs]
    by (simp add: pool_load_def rj')
  show "serves (pool_store ?q bs im) dm per j ?r" by (rule s)
  show "cell_layout ?r" using assms(2) by (simp add: cell_layout_def)
  show "\<forall>idx' i'. idx' < unat (r_slotCap r) \<longrightarrow> i' < 500 \<longrightarrow> (idx, i) \<noteq> (idx', i') \<longrightarrow>
      (\<exists>q'. SlotOf (pool_store ?q bs im) (j, at_block r idx') (1 + of_nat i') = Some q' \<and>
        pool_load q' (slice_len i') (pool_store ?q bs im) = pool_load q' (slice_len i') im)"
    using other_slot [OF assms(1) s assms(2) refl assms(3-5)] by blast
  show "?r = r\<lparr>r_pool := r_pool ?r\<rparr>" "length (r_pool ?r) = length (r_pool r)"
    using fit assms(5) by (simp_all add: length_mem_write)
  show "pool_store ?q bs im = im\<lparr>regions := (regions im)[j := ?r]\<rparr>"
    using assms(1) by (auto simp: pool_store_def serves_def)
  show "\<forall>idx' < unat (r_slotCap r). mem_read (r_pool ?r) (at_block r idx') 24 = mem_read (r_pool r) (at_block r idx') 24 \<and>
      get_lastTick (at_block r idx') (r_pool ?r) = get_lastTick (at_block r idx') (r_pool r)"
    using head_apart [OF ok assms(2,3) _ assms(4,5)] unfolding head_tick by simp
qed

theorem Slots_isolated_witness:
  "\<exists>q. SlotOf (Init (\<lambda>n. replicate n 0) None) (0, at_block (region0 (\<lambda>n. replicate n 0)) 3) 3 = Some q \<and>
     pool_load q 10 (pool_store q (replicate 10 9) (Init (\<lambda>n. replicate n 0) None)) = replicate 10 9"
proof -
  have s: "serves (Init (\<lambda>n. replicate n 0) None) 0 10 0 (region0 (\<lambda>n. replicate n 0))"
    by (rule Init_serves) simp
  have l: "slice_len 2 = 10" by (simp add: slice_len_def kCellCacheSizes_def)
  have "3 < unat (r_slotCap (region0 (\<lambda>n. replicate n 0)))" by (simp add: region0_fields)
  then show ?thesis
    using Slots_isolated [OF s cell_layout_region0, of 3 2 "replicate 10 9"] l by auto
qed

end
