(* ===== verification/Report_Agg.thy ===== *)
theory Report_Agg
  imports Prelude_DTS
begin

text \<open>
  The report aggregator of the data thread (\<open>report_aggregator.h/.cpp\<close>): slices are collected
  behind a reserved header in a 48 KiB buffer and leave as one frame. The abstraction relation
  \<open>holds\<close> relates the buffer to the list of slices it carries; \<open>Add\<close> appends to that list or
  counts a drop, \<open>Flush\<close> publishes exactly the frame of that list.
\<close>

definition kCap :: u32 where "kCap = 49152"

text \<open>
  \<open>ReportHeader\<close>: \<open>taskId\<close> at byte 0, 4 bytes of padding, \<open>timestampMs\<close> at byte 8, \<open>seq\<close> at byte
  16 and \<open>payloadLen\<close> at byte 20, 24 bytes in all; \<open>SubHeader\<close>: two 16-bit fields, 4 bytes.
\<close>

definition sizeof_ReportHeader :: u32 where "sizeof_ReportHeader = 24"
definition sizeof_SubHeader :: u32 where "sizeof_SubHeader = 4"

record ReportAggregator =
  m_sink :: bool
  m_taskId :: u32
  m_used :: u32
  m_drops :: u64
  m_buf :: bytes

definition SetSink :: "bool \<Rightarrow> ReportAggregator \<Rightarrow> ReportAggregator" where
  "SetSink s a = a\<lparr>m_sink := s\<rparr>"

definition Begin :: "u32 \<Rightarrow> ReportAggregator \<Rightarrow> ReportAggregator" where
  "Begin taskId a = a\<lparr>m_taskId := taskId, m_used := sizeof_ReportHeader\<rparr>"

text \<open>
  \<open>Add\<close>: the capacity test is made in \<open>size_t\<close>, so it cannot wrap. A null \<open>cache\<close> is \<open>None\<close>;
  otherwise \<open>cache\<close> points to at least \<open>len\<close> bytes.
\<close>

definition sub_header :: "u16 \<Rightarrow> u32 \<Rightarrow> bytes" where
  "sub_header dataId len = le16 dataId @ le16 (ucast len)"

definition Add :: "u16 \<Rightarrow> bytes option \<Rightarrow> u32 \<Rightarrow> ReportAggregator \<Rightarrow> ReportAggregator" where
  "Add dataId cache len a =
     (if unat (m_used a) + unat sizeof_SubHeader + unat len > unat kCap
      then a\<lparr>m_drops := m_drops a + 1\<rparr>
      else (let a1 = a\<lparr>m_buf := mem_write (m_buf a) (unat (m_used a)) (sub_header dataId len),
                       m_used := m_used a + sizeof_SubHeader\<rparr>
            in (case cache of
                  None \<Rightarrow> a1
                | Some bs \<Rightarrow> if len = 0 then a1
                    else a1\<lparr>m_buf := mem_write (m_buf a1) (unat (m_used a1)) (take (unat len) bs),
                            m_used := m_used a1 + len\<rparr>)))"

text \<open>The header is written through a pointer, field by field; \<open>Some f\<close> is the frame published.\<close>

definition put_header :: "u32 \<Rightarrow> u64 \<Rightarrow> u32 \<Rightarrow> u32 \<Rightarrow> bytes \<Rightarrow> bytes" where
  "put_header taskId ts seq payloadLen buf =
     mem_write (mem_write (mem_write (mem_write buf 0 (le32 taskId)) 8 (le64 ts)) 16 (le32 seq)) 20 (le32 payloadLen)"

definition Flush :: "u64 \<Rightarrow> u32 \<Rightarrow> ReportAggregator \<Rightarrow> ReportAggregator \<times> bytes option" where
  "Flush timestampMs seq a =
     (if \<not> m_sink a \<or> m_used a \<le> sizeof_ReportHeader then (a, None)
      else (let buf = put_header (m_taskId a) timestampMs seq (m_used a - sizeof_ReportHeader) (m_buf a)
            in (a\<lparr>m_buf := buf, m_used := 0\<rparr>, Some (take (unat (m_used a)) buf))))"

lemma length_sub_header [simp]: "length (sub_header d len) = 4"
  by (simp add: sub_header_def)

section \<open>What the buffer holds\<close>

type_synonym slice = "u16 \<times> bytes"

definition slice_bytes :: "slice \<Rightarrow> bytes" where
  "slice_bytes s = le16 (fst s) @ le16 (of_nat (length (snd s))) @ snd s"

definition payload :: "slice list \<Rightarrow> bytes" where
  "payload ss = concat (map slice_bytes ss)"

lemma length_slice_bytes [simp]: "length (slice_bytes s) = 4 + length (snd s)"
  by (simp add: slice_bytes_def)

lemma payload_simps [simp]:
  "payload [] = []" "payload (s # ss) = slice_bytes s @ payload ss" "payload (ss @ ss') = payload ss @ payload ss'"
  by (simp_all add: payload_def)

lemma length_payload: "length (payload ss) = (\<Sum>s\<leftarrow>ss. 4 + length (snd s))"
  by (induction ss) simp_all

definition holds :: "ReportAggregator \<Rightarrow> slice list \<Rightarrow> bool" where
  "holds a ss \<longleftrightarrow> length (m_buf a) = 49152 \<and> unat (m_used a) = 24 + length (payload ss) \<and>
     24 + length (payload ss) \<le> 49152 \<and> mem_read (m_buf a) 24 (length (payload ss)) = payload ss"

lemma holds_Begin: "length (m_buf a) = 49152 \<Longrightarrow> holds (Begin t a) []"
  by (simp add: holds_def Begin_def sizeof_ReportHeader_def mem_read_def)

lemma mem_read_append_write:
  assumes "off + n + length bs \<le> length buf" "mem_read buf off n = xs" "p = off + n"
  shows "mem_read (mem_write buf p bs) off (n + length bs) = xs @ bs"
proof -
  have d: "drop off (take p buf) = xs" using assms by (auto simp: mem_read_def drop_take)
  have l: "length xs = n" using assms by (auto simp: length_mem_read)
  have "drop off (mem_write buf p bs) = xs @ bs @ drop (p + length bs) buf"
    using assms(1,3) d by (simp add: mem_write_def)
  then show ?thesis using l by (simp add: mem_read_def)
qed

lemma Add_fits:
  assumes h: "holds a ss" and len: "length bs = unat len" and fits: "28 + length (payload ss) + unat len \<le> 49152"
  shows "holds (Add d (Some bs) len a) (ss @ [(d, bs)]) \<and> m_drops (Add d (Some bs) len a) = m_drops a"
proof -
  have u: "unat (m_used a) = 24 + length (payload ss)" "length (m_buf a) = 49152"
      "mem_read (m_buf a) 24 (length (payload ss)) = payload ss"
    using h by (auto simp: holds_def)
  have u4: "unat (m_used a + sizeof_SubHeader) = 28 + length (payload ss)"
    using u fits by (simp add: unat_add_u32 sizeof_SubHeader_def)
  have ul: "unat (m_used a + sizeof_SubHeader + len) = 28 + length (payload ss) + unat len"
    using u4 fits by (simp add: unat_add_u32)
  have c: "(ucast len :: u16) = of_nat (length bs)" using len by simp
  let ?b1 = "mem_write (m_buf a) (unat (m_used a)) (sub_header d len)"
  have l1: "length ?b1 = 49152" using u fits by (simp add: length_mem_write)
  have r1: "mem_read ?b1 24 (length (payload ss) + 4) = payload ss @ sub_header d len"
    using mem_read_append_write [of 24 "length (payload ss)" "sub_header d len" "m_buf a" "payload ss" "unat (m_used a)"]
      u fits by simp
  have full: "payload (ss @ [(d, bs)]) = (payload ss @ sub_header d len) @ bs"
    by (simp add: slice_bytes_def sub_header_def c)
  have nofull: "\<not> unat (m_used a) + unat sizeof_SubHeader + unat len > unat kCap"
    using u fits by (simp add: sizeof_SubHeader_def kCap_def)
  show ?thesis
  proof (cases "len = 0")
    case True
    then show ?thesis using len nofull u4 l1 r1 full fits
      by (simp add: Add_def Let_def holds_def add.commute add.left_commute)
  next
    case False
    let ?b2 = "mem_write ?b1 (unat (m_used a + sizeof_SubHeader)) bs"
    have "mem_read ?b2 24 (length (payload ss) + 4 + length bs) = (payload ss @ sub_header d len) @ bs"
      using mem_read_append_write [of 24 "length (payload ss) + 4" bs ?b1 "payload ss @ sub_header d len"] r1 l1 u4 len fits by simp
    moreover have "length ?b2 = 49152" using l1 u4 len fits by (simp add: length_mem_write)
    ultimately show ?thesis using False len nofull ul full fits
      by (simp add: Add_def Let_def holds_def add.commute add.left_commute)
  qed
qed

lemma Add_overflow:
  assumes "holds a ss" "49152 < 28 + length (payload ss) + unat len"
  shows "Add d c len a = a\<lparr>m_drops := m_drops a + 1\<rparr>"
  using assms by (auto simp: Add_def holds_def kCap_def sizeof_SubHeader_def)

text \<open>Collecting a list of slices: each is kept if it still fits, else it is dropped.\<close>

fun kept :: "nat \<Rightarrow> slice list \<Rightarrow> slice list" where
  "kept room [] = []"
| "kept room (s # ss) = (if 4 + length (snd s) \<le> room then s # kept (room - (4 + length (snd s))) ss
     else kept room ss)"

definition add_slice :: "slice \<Rightarrow> ReportAggregator \<Rightarrow> ReportAggregator" where
  "add_slice s = Add (fst s) (Some (snd s)) (of_nat (length (snd s)))"

lemma Add_fields [simp]:
  "m_sink (Add d c len a) = m_sink a" "m_taskId (Add d c len a) = m_taskId a"
  by (simp_all add: Add_def Let_def split: option.split)

lemma fold_add_slice:
  assumes "holds a ss0" "\<forall>s \<in> set ss. length (snd s) < 65536"
  shows "holds (fold add_slice ss a) (ss0 @ kept (49128 - length (payload ss0)) ss) \<and>
    m_drops (fold add_slice ss a) =
      m_drops a + of_nat (length ss - length (kept (49128 - length (payload ss0)) ss)) \<and>
    m_sink (fold add_slice ss a) = m_sink a \<and> m_taskId (fold add_slice ss a) = m_taskId a"
  using assms
proof (induction ss arbitrary: a ss0)
  case (Cons s ss)
  have le: "length (kept n xs) \<le> length xs" for n xs
    by (induction xs arbitrary: n) (auto simp: le_SucI)
  have n: "unat (of_nat (length (snd s)) :: u32) = length (snd s)"
    using Cons.prems(2) by (simp add: unat_of_nat)
  have p: "24 + length (payload ss0) \<le> 49152" using Cons.prems(1) by (simp add: holds_def)
  show ?case
  proof (cases "4 + length (snd s) \<le> 49128 - length (payload ss0)")
    case True
    then have "28 + length (payload ss0) + unat (of_nat (length (snd s)) :: u32) \<le> 49152" using n p by simp
    note f = Add_fits [OF Cons.prems(1) n [symmetric] this, of "fst s"]
    have "holds (add_slice s a) (ss0 @ [s])" "m_drops (add_slice s a) = m_drops a"
      using f by (simp_all add: add_slice_def)
    with Cons.IH [of "add_slice s a" "ss0 @ [s]"] Cons.prems(2) True show ?thesis
      by (simp add: add_slice_def add.commute diff_diff_add)
  next
    case False
    then have "49152 < 28 + length (payload ss0) + unat (of_nat (length (snd s)) :: u32)" using n p by simp
    note f = Add_overflow [OF Cons.prems(1) this, of "fst s"]
    have a: "add_slice s a = a\<lparr>m_drops := m_drops a + 1\<rparr>" by (simp add: add_slice_def f)
    then have "holds (add_slice s a) ss0" using Cons.prems(1) by (simp add: holds_def)
    with Cons.IH [of "add_slice s a" ss0] Cons.prems(2) False le [of "49128 - length (payload ss0)" ss] show ?thesis
      by (simp add: a Suc_diff_le add.assoc)
  qed
qed simp

text \<open>The frame as it goes out; \<open>pad\<close> are the four bytes behind \<open>taskId\<close> that nothing writes.\<close>

definition report_frame :: "bytes \<Rightarrow> u32 \<Rightarrow> u64 \<Rightarrow> u32 \<Rightarrow> slice list \<Rightarrow> bytes" where
  "report_frame pad taskId ts seq ss =
     le32 taskId @ pad @ le64 ts @ le32 seq @ le32 (of_nat (length (payload ss))) @ payload ss"

lemma put_header_eq:
  assumes "24 \<le> length buf"
  shows "put_header t ts seq pl buf = le32 t @ mem_read buf 4 4 @ le64 ts @ le32 seq @ le32 pl @ drop 24 buf"
proof -
  have "mem_write buf 0 (le32 t) = le32 t @ drop 4 buf" by (simp add: mem_write_def)
  moreover have "mem_write (le32 t @ drop 4 buf) 8 (le64 ts) = le32 t @ mem_read buf 4 4 @ le64 ts @ drop 16 buf"
    by (simp add: mem_write_def mem_read_def)
  moreover have "mem_write (le32 t @ mem_read buf 4 4 @ le64 ts @ drop 16 buf) 16 (le32 seq) =
      le32 t @ mem_read buf 4 4 @ le64 ts @ le32 seq @ drop 20 buf"
    using assms by (simp add: mem_write_def length_mem_read)
  moreover have "mem_write (le32 t @ mem_read buf 4 4 @ le64 ts @ le32 seq @ drop 20 buf) 20 (le32 pl) =
      le32 t @ mem_read buf 4 4 @ le64 ts @ le32 seq @ le32 pl @ drop 24 buf"
    using assms by (simp add: mem_write_def length_mem_read)
  ultimately show ?thesis by (simp add: put_header_def)
qed

lemma payload_eq_Nil: "length (payload ss) = 0 \<longleftrightarrow> ss = []"
  by (cases ss) auto

lemma Flush_holds:
  assumes "holds a ss" "ss \<noteq> []" "m_sink a"
  shows "\<exists>a'. Flush ts seq a = (a', Some (report_frame (mem_read (m_buf a) 4 4) (m_taskId a) ts seq ss)) \<and>
    m_used a' = 0 \<and> length (m_buf a') = 49152 \<and> mem_read (m_buf a') 4 4 = mem_read (m_buf a) 4 4 \<and>
    m_sink a' = m_sink a \<and> m_taskId a' = m_taskId a \<and> m_drops a' = m_drops a"
proof -
  let ?n = "length (payload ss)"
  have h: "length (m_buf a) = 49152" "unat (m_used a) = 24 + ?n" "24 + ?n \<le> 49152"
    "mem_read (m_buf a) 24 ?n = payload ss" using assms(1) by (auto simp: holds_def)
  have "\<not> m_used a \<le> sizeof_ReportHeader"
    using h(2) payload_eq_Nil [of ss] assms(2) by (simp add: word_le_nat_alt sizeof_ReportHeader_def)
  moreover have "m_used a - sizeof_ReportHeader = of_nat ?n"
    using h(2) by (metis add_diff_cancel_left' of_nat_add of_nat_numeral of_nat_unat sizeof_ReportHeader_def ucast_id)
  moreover have "take (24 + ?n) (put_header (m_taskId a) ts seq (of_nat ?n) (m_buf a)) =
    report_frame (mem_read (m_buf a) 4 4) (m_taskId a) ts seq ss"
    using h by (simp add: put_header_eq report_frame_def length_mem_read mem_read_def [of _ 24])
  moreover have "length (put_header t ts seq pl (m_buf a)) = 49152" for t pl
    using h(1) by (simp add: put_header_eq length_mem_read)
  moreover have "mem_read (put_header t ts seq pl (m_buf a)) 4 4 = mem_read (m_buf a) 4 4" for t pl
    using h(1) by (simp add: put_header_eq mem_read_def)
  ultimately show ?thesis using assms(3) h(2) by (simp add: Flush_def Let_def)
qed

lemma Aggregator_frame_lemma:
  assumes "length (m_buf a) = 49152" "m_sink a" "\<forall>s \<in> set ss. length (snd s) < 65536"
  shows "\<exists>a'. Flush ts seq (fold add_slice ss (Begin t a)) =
      (a', if kept 49128 ss = [] then None
           else Some (report_frame (mem_read (m_buf (fold add_slice ss (Begin t a))) 4 4) t ts seq (kept 49128 ss))) \<and>
    m_drops a' = m_drops a + of_nat (length ss - length (kept 49128 ss)) \<and> length (m_buf a') = 49152"
proof -
  let ?a = "fold add_slice ss (Begin t a)"
  have f: "holds ?a (kept 49128 ss)" "m_drops ?a = m_drops a + of_nat (length ss - length (kept 49128 ss))"
    "m_sink ?a" "m_taskId ?a = t"
    using fold_add_slice [OF holds_Begin [OF assms(1)] assms(3), of t] assms(2) by (auto simp: Begin_def)
  show ?thesis
  proof (cases "kept 49128 ss = []")
    case True
    then have "unat (m_used ?a) = 24" "length (m_buf ?a) = 49152" using f(1) by (auto simp: holds_def)
    moreover from this have "m_used ?a \<le> sizeof_ReportHeader"
      by (simp add: word_le_nat_alt sizeof_ReportHeader_def)
    ultimately show ?thesis using True f by (simp add: Flush_def)
  next
    case False
    from Flush_holds [OF f(1) False f(3), of ts seq] f(2,4) False show ?thesis by auto
  qed
qed

text \<open>Everything fits when the total is small enough.\<close>

lemma kept_all: "length (payload ss) \<le> room \<Longrightarrow> kept room ss = ss"
  by (induction ss arbitrary: room) auto

text \<open>C17: The frame that leaves the aggregator carries exactly the collected slices. After \<open>Begin\<close>, a
  run of \<open>Add\<close> over any slices of less than 64 KiB and \<open>Flush\<close>, the sink receives one frame: the
  header fields at their offsets, then every slice that still found room, in order and whole;
  the slices that did not fit are counted as drops, one each; an empty frame is not published.\<close>

theorem Aggregator_frame:
  assumes "length (m_buf a) = 49152" "m_sink a" "\<forall>s \<in> set ss. length (snd s) < 65536"
  shows "\<exists>a'. Flush ts seq (fold add_slice ss (Begin t a)) =
      (a', if kept 49128 ss = [] then None
           else Some (report_frame (mem_read (m_buf (fold add_slice ss (Begin t a))) 4 4) t ts seq (kept 49128 ss))) \<and>
    m_drops a' = m_drops a + of_nat (length ss - length (kept 49128 ss)) \<and> length (m_buf a') = 49152"
  by (rule Aggregator_frame_lemma [OF assms])

theorem Aggregator_frame_witness:
  "\<exists>a' pad. Flush 100 1 (fold add_slice [(1, [7, 8])] (Begin 9 \<lparr>m_sink = True, m_taskId = 0, m_used = 0, m_drops = 0, m_buf = replicate 49152 0\<rparr>)) =
    (a', Some (report_frame pad 9 100 1 [(1, [7, 8])]))"
  using Aggregator_frame [of "\<lparr>m_sink = True, m_taskId = 0, m_used = 0, m_drops = 0, m_buf = replicate 49152 0\<rparr>" "[(1, [7, 8])]" 100 1 9]
  by auto

end
