(* ===== verification/Data_Factory.thy ===== *)
theory Data_Factory
  imports Data_Mem Report_Agg
begin

text \<open>
  The data thread's factory (\<open>data_factory_v2.h/.cpp\<close>): a raw frame is keyed, given a cache block, cut by
  every extractor of its type, collected and published as one report; ticks drive the eviction;
  counters and the latency budget are kept on the way. The measured duration of a frame and the
  environment are arguments; what the sink receives is the list \<open>f_published\<close>. The \<open>perf\<close> and \<open>stats\<close> log
  lines are left out.
\<close>

section \<open>State\<close>

datatype Bypass = FULL | RECV | PROCESS

definition GetBypass :: "cstr \<Rightarrow> Bypass" where
  "GetBypass e = (if e = Some ''recv'' then RECV else if e = Some ''process'' then PROCESS else FULL)"

record DataStats =
  s_frames :: u64
  s_frameMaxUs :: u64
  s_frameBudgetWarn :: u64
  s_frameBudgetAlarm :: u64
  s_dropPoolFull :: u64
  s_dropSliceOverCap :: u64
  s_keyFail :: u64
  s_ticks :: u32

record DataStatsSnapshot = DataStats +
  s_budgetWarnUs :: u64
  s_budgetAlarmUs :: u64

record DataFactory =
  f_tick :: u32
  f_currentTask :: u32
  f_seq :: u32
  f_procCount :: u64
  f_sink :: bool
  f_agg :: ReportAggregator
  f_stats :: DataStats
  f_budgetWarnUs :: u64
  f_budgetAlarmUs :: u64
  f_mem :: Impl
  g_forEachTotal :: u64
  g_flushTotal :: u64
  g_skipSink :: u64
  g_skipTask :: u64
  f_published :: "bytes list"

section \<open>Operations\<close>

definition ExtractRawKey :: "u16 \<Rightarrow> bytes option \<Rightarrow> u32 \<Rightarrow> u64" where
  "ExtractRawKey dataType rawData len = (case rawData of
     None \<Rightarrow> 0
   | Some b \<Rightarrow> if len < 10 then 0
       else (let cellId = get32 b 2; second = get32 b 6 in
             if dataType = data_type_u16 CELL then CellHashKey cellId second else UeHashKey cellId second))"

text \<open>The constructor reads the two budget variables; \<open>strtoull\<close> is the C library's.\<close>

definition init_stats :: DataStats where
  "init_stats = \<lparr>s_frames = 0, s_frameMaxUs = 0, s_frameBudgetWarn = 0, s_frameBudgetAlarm = 0,
     s_dropPoolFull = 0, s_dropSliceOverCap = 0, s_keyFail = 0, s_ticks = 0\<rparr>"

definition new_factory :: "cstr \<Rightarrow> cstr \<Rightarrow> Impl \<Rightarrow> DataFactory" where
  "new_factory warnEnv alarmEnv mem = \<lparr>f_tick = 0, f_currentTask = 0, f_seq = 0, f_procCount = 0, f_sink = False,
     f_agg = \<lparr>m_sink = False, m_taskId = 0, m_used = 0, m_drops = 0, m_buf = replicate 49152 0\<rparr>,
     f_stats = init_stats,
     f_budgetWarnUs = (case warnEnv of Some v \<Rightarrow> fst (strtoull10 v) | None \<Rightarrow> kFrameBudgetWarnUs),
     f_budgetAlarmUs = (case alarmEnv of Some v \<Rightarrow> fst (strtoull10 v) | None \<Rightarrow> kFrameBudgetAlarmUs),
     f_mem = mem, g_forEachTotal = 0, g_flushTotal = 0, g_skipSink = 0, g_skipTask = 0, f_published = []\<rparr>"

definition SetReportSink :: "bool \<Rightarrow> DataFactory \<Rightarrow> DataFactory" where
  "SetReportSink sink f = f\<lparr>f_sink := sink, f_agg := SetSink sink (f_agg f)\<rparr>"

definition SetBudget :: "u64 \<Rightarrow> u64 \<Rightarrow> DataFactory \<Rightarrow> int \<times> DataFactory" where
  "SetBudget warnUs alarmUs f =
     (if warnUs = 0 \<or> alarmUs = 0 \<or> warnUs > alarmUs then (- 1, f)
      else (0, f\<lparr>f_budgetWarnUs := warnUs, f_budgetAlarmUs := alarmUs\<rparr>))"

definition Stats :: "DataFactory \<Rightarrow> DataStatsSnapshot" where
  "Stats f = (let s = f_stats f in
     \<lparr>s_frames = s_frames s, s_frameMaxUs = s_frameMaxUs s, s_frameBudgetWarn = s_frameBudgetWarn s,
      s_frameBudgetAlarm = s_frameBudgetAlarm s, s_dropPoolFull = s_dropPoolFull s,
      s_dropSliceOverCap = s_dropSliceOverCap s + m_drops (f_agg f), s_keyFail = s_keyFail s,
      s_ticks = s_ticks s, s_budgetWarnUs = f_budgetWarnUs f, s_budgetAlarmUs = f_budgetAlarmUs f\<rparr>)"

definition OnTask :: "u32 \<Rightarrow> u16 list \<Rightarrow> u32 \<Rightarrow> DataFactory \<Rightarrow> DataFactory" where
  "OnTask taskId dataIds periodMs f = f\<lparr>f_currentTask := taskId\<rparr>"

text \<open>The callback of \<open>ForEachByDomain\<close>: cut one slice into its slot and collect it from there.\<close>

definition process_slice :: "bytes option \<Rightarrow> u32 \<Rightarrow> pool_ptr \<Rightarrow> ExtractorSpec \<Rightarrow> DataFactory \<Rightarrow> DataFactory" where
  "process_slice rawData len block spec f = (case es_proc spec of
     None \<Rightarrow> f
   | Some proc \<Rightarrow>
      (case (if es_needCache spec then SlotOf (f_mem f) block (es_dataId spec)
             else FixedSlot (f_mem f) (es_dataId spec)) of
         None \<Rightarrow> f
       | Some cache \<Rightarrow>
          (case Extra proc rawData len of
             None \<Rightarrow> f
           | Some bs \<Rightarrow>
              (let mem1 = pool_store cache bs (f_mem f);
                   (bs', _) = Hton (pool_load cache (unat (es_cacheSize spec)) mem1) (es_cacheSize spec);
                   mem2 = pool_store cache bs' mem1
               in f\<lparr>f_mem := mem2,
                    f_agg := Add (es_dataId spec) (Some (pool_load cache (unat (es_cacheSize spec)) mem2))
                               (es_cacheSize spec) (f_agg f),
                    g_forEachTotal := g_forEachTotal f + 1\<rparr>))))"

text \<open>The budget accounting at the end of \<open>Process\<close>; \<open>us\<close> is the measured duration.\<close>

definition account :: "u64 \<Rightarrow> DataFactory \<Rightarrow> DataFactory" where
  "account us f = (let s = f_stats f; s1 = s\<lparr>s_frames := s_frames s + 1,
        s_frameMaxUs := (if us > s_frameMaxUs s then us else s_frameMaxUs s)\<rparr>
     in f\<lparr>f_stats :=
        (if us \<ge> f_budgetAlarmUs f then s1\<lparr>s_frameBudgetAlarm := s_frameBudgetAlarm s1 + 1\<rparr>
         else if us \<ge> f_budgetWarnUs f then s1\<lparr>s_frameBudgetWarn := s_frameBudgetWarn s1 + 1\<rparr>
         else s1)\<rparr>)"

definition flush_frame :: "u64 \<Rightarrow> DataFactory \<Rightarrow> DataFactory" where
  "flush_frame ts f = (let (agg', out) = Flush ts (f_seq f + 1) (f_agg f)
     in f\<lparr>f_seq := f_seq f + 1, f_agg := agg', g_flushTotal := g_flushTotal f + 1,
          f_published := f_published f @ (case out of None \<Rightarrow> [] | Some fr \<Rightarrow> [fr])\<rparr>)"

definition Process :: "Bypass \<Rightarrow> u64 \<Rightarrow> extractor_table \<Rightarrow> u32 list \<Rightarrow> bytes option \<Rightarrow> u32 \<Rightarrow> u16 \<Rightarrow> DataFactory \<Rightarrow> DataFactory" where
  "Process bypass us reg order rawData len dataType f0 =
    (let f = f0\<lparr>f_procCount := f_procCount f0 + 1\<rparr> in
     if bypass = RECV then f
     else if \<not> f_sink f then f\<lparr>g_skipSink := g_skipSink f + 1\<rparr>
     else if f_currentTask f = 0 then f\<lparr>g_skipTask := g_skipTask f + 1\<rparr>
     else
      (let key = ExtractRawKey dataType rawData len;
           f1 = (if key = 0 then f\<lparr>f_stats := (f_stats f)\<lparr>s_keyFail := s_keyFail (f_stats f) + 1\<rparr>\<rparr> else f);
           ts = ucast (f_tick f1) * ucast kTickMs;
           (block, mem') = AcquireBlock dataType kPeriod1S key (f_tick f1) (f_mem f1);
           f2 = f1\<lparr>f_mem := mem'\<rparr>
       in (case block of
             None \<Rightarrow> f2\<lparr>f_stats := (f_stats f2)\<lparr>s_dropPoolFull := s_dropPoolFull (f_stats f2) + 1\<rparr>\<rparr>
           | Some b \<Rightarrow>
              (let f3 = f2\<lparr>f_agg := Begin (f_currentTask f2) (f_agg f2)\<rparr>;
                   f4 = ForEachByDomain reg order dataType (process_slice rawData len b) f3
               in if bypass = PROCESS then f4 else account us (flush_frame ts f4)))))"

definition OnTick :: "DataFactory \<Rightarrow> DataFactory" where
  "OnTick f = (let t = f_tick f + 1 in
     f\<lparr>f_tick := t, f_stats := (f_stats f)\<lparr>s_ticks := s_ticks (f_stats f) + 1\<rparr>,
       f_mem := EvictExpired t (f_mem f)\<rparr>)"

section \<open>Walking the registry\<close>

lemma Find_dom:
  "k \<in> dom (InitExtractors Map.empty) \<longleftrightarrow> (\<exists>i<500. k = extractor_key 0 (1 + of_nat i))"
proof
  assume "k \<in> dom (InitExtractors Map.empty)"
  then obtain sp where sp: "InitExtractors Map.empty k = Some sp" by auto
  have "extractor_key (ucast (drop_bit 16 k)) (ucast k) = k"
    by (rule bit_word_eqI) (auto simp: extractor_key_def bit_simps)
  then have "Find_extractor (InitExtractors Map.empty) (ucast (drop_bit 16 k)) (ucast k) = Some sp"
    using sp by (simp add: Find_extractor_def)
  from Find_InitExtractors_sound [OF this] \<open>extractor_key _ _ = k\<close>
  show "\<exists>i<500. k = extractor_key 0 (1 + of_nat i)" by metis
next
  assume "\<exists>i<500. k = extractor_key 0 (1 + of_nat i)"
  then show "k \<in> dom (InitExtractors Map.empty)"
    using Find_InitExtractors_cell by (auto simp: Find_extractor_def)
qed

text \<open>Any order in which the table may hold its keys is an order of the 500 ids.\<close>

lemma table_order:
  assumes "distinct order" "set order = dom (InitExtractors Map.empty)"
  obtains "is" where "order = map (\<lambda>i. extractor_key 0 (1 + of_nat i)) is" "distinct is" "set is = {..<500}"
proof -
  let ?key = "\<lambda>i. extractor_key 0 (1 + of_nat i)"
  define idx where "idx k = (THE i. i < 500 \<and> ?key i = k)" for k
  have inj: "i = j" if "i < 500" "j < 500" "?key i = ?key j" for i j
    using that cell_spec_id_inj [of i j] by (simp add: extractor_key_inj)
  have idx: "idx (?key i) = i" if "i < 500" for i
    unfolding idx_def by (rule the_equality) (use that inj in auto)
  have so: "set order = ?key ` {..<500}" unfolding assms(2) using Find_dom by blast
  show thesis
  proof (rule that [of "map idx order"])
    show "order = map ?key (map idx order)" unfolding map_map
      by (rule map_idI [symmetric]) (use so idx in auto)
    show "distinct (map idx order)"
      unfolding distinct_map using assms(1) so idx by (auto simp: inj_on_def)
    show "set (map idx order) = {..<500}" using so idx by (auto simp: image_iff)
  qed
qed

lemma ForEachByDomain_cells:
  assumes "set is \<subseteq> {..<500}"
  shows "ForEachByDomain (InitExtractors Map.empty) (map (\<lambda>i. extractor_key 0 (1 + of_nat i)) is) 0 fn s =
    fold (\<lambda>i. fn (cell_spec i)) is s"
  using assms
proof (induction "is" arbitrary: s)
  case (Cons i "is")
  then have "InitExtractors Map.empty (extractor_key 0 (1 + of_nat i)) = Some (cell_spec i)"
    using Find_InitExtractors_cell [of i] by (simp add: Find_extractor_def)
  moreover have "es_dataType (cell_spec i) = 0" by (simp add: cell_spec_def)
  ultimately show ?case using Cons by simp
qed simp

section \<open>One frame\<close>

definition cell_slice :: "bytes \<Rightarrow> nat \<Rightarrow> slice" where
  "cell_slice raw i = (1 + of_nat i, mem_read raw (slice_off i) (slice_len i))"

text \<open>The rounds whose slice lies within a frame of \<open>n\<close> bytes.\<close>

definition in_frame :: "nat \<Rightarrow> nat \<Rightarrow> bool" where
  "in_frame n i \<longleftrightarrow> slice_off i + slice_len i \<le> n"

text \<open>What is kept of the memory while the slices of one frame are processed.\<close>

definition mem_ready :: "Impl \<Rightarrow> nat \<Rightarrow> RegionDesc \<Rightarrow> bool" where
  "mem_ready im j r \<longleftrightarrow> serves im 0 10 j r \<and> cell_layout r"

lemma pool_load_length:
  "mem_ready im j r \<Longrightarrow> idx < unat (r_slotCap r) \<Longrightarrow> i < 500 \<Longrightarrow>
   length (pool_load (j, slot_at r idx i) (slice_len i) im) = slice_len i"
  using slot_fits [of r idx i] by (auto simp: mem_ready_def serves_def pool_load_def length_mem_read)

lemma process_slice_cell:
  assumes m: "mem_ready (f_mem f) j r" and idx: "idx < unat (r_slotCap r)" and i: "i < 500"
    and raw: "length raw = unat len"
  shows "\<exists>im' r'. mem_ready im' j r' \<and> r_slotCap r' = r_slotCap r \<and> at_block r' = at_block r \<and>
    r_used r' = r_used r \<and> r_keys r' = r_keys r \<and>
    process_slice (Some raw) len (j, at_block r idx) (cell_spec i) f =
      (if in_frame (length raw) i
       then f\<lparr>f_mem := im', f_agg := add_slice (cell_slice raw i) (f_agg f), g_forEachTotal := g_forEachTotal f + 1\<rparr>
       else f)"
proof (cases "in_frame (length raw) i")
  case False
  have "\<not> slice_off i + slice_len i \<le> unat len" using False raw by (simp add: in_frame_def)
  then have "Extra (SetSlice (of_nat (slice_off i)) (of_nat (slice_len i))) (Some raw) len = None"
    using Extra_slice [OF i, of raw len] by simp
  then have "process_slice (Some raw) len (j, at_block r idx) (cell_spec i) f = f"
    by (simp add: process_slice_def cell_spec_def split: option.split)
  then show ?thesis using m False by auto
next
  case True
  have le: "slice_off i + slice_len i \<le> unat len" using True raw by (simp add: in_frame_def)
  let ?bs = "mem_read raw (slice_off i) (slice_len i)"
  have lbs: "length ?bs = slice_len i" using le raw by (simp add: length_mem_read)
  have s: "serves (f_mem f) 0 10 j r" and lay: "cell_layout r" using m by (auto simp: mem_ready_def)
  have ok: "region_ok r" using s by (simp add: serves_def)
  let ?q = "(j, slot_at r idx i)"
  have q: "SlotOf (f_mem f) (j, at_block r idx) (1 + of_nat i) = Some ?q" by (rule SlotOf_cell [OF s lay idx i])
  have ex: "Extra (SetSlice (of_nat (slice_off i)) (of_nat (slice_len i))) (Some raw) len = Some ?bs"
    using Extra_slice [OF i, of raw len] le by simp
  have fit: "slot_at r idx i + slice_len i \<le> length (r_pool r)" by (rule slot_fits [OF ok lay idx i])
  let ?r1 = "r\<lparr>r_pool := mem_write (r_pool r) (slot_at r idx i) ?bs\<rparr>"
  have s1: "serves (pool_store ?q ?bs (f_mem f)) 0 10 j ?r1"
    by (rule pool_store_serves [OF s]) (use fit lbs in simp)
  have lay1: "cell_layout ?r1" using lay by (simp add: cell_layout_def)
  have load: "pool_load ?q (slice_len i) (pool_store ?q ?bs (f_mem f)) = ?bs"
    using fit lbs mem_read_write_same [of "slot_at r idx i" "r_pool r" ?bs] s1
    by (simp add: pool_load_def serves_def)
  let ?im1 = "pool_store ?q ?bs (f_mem f)"
  let ?r2 = "?r1\<lparr>r_pool := mem_write (r_pool ?r1) (slot_at r idx i) ?bs\<rparr>"
  have s2: "serves (pool_store ?q ?bs ?im1) 0 10 j ?r2"
    by (rule pool_store_serves [OF s1]) (use fit lbs in \<open>simp add: length_mem_write\<close>)
  have lay2: "cell_layout ?r2" using lay by (simp add: cell_layout_def)
  have load2: "pool_load ?q (slice_len i) (pool_store ?q ?bs ?im1) = ?bs"
    using fit lbs mem_read_write_same [of "slot_at r idx i" "r_pool ?r1" ?bs] s2
    by (simp add: pool_load_def serves_def length_mem_write)
  have "process_slice (Some raw) len (j, at_block r idx) (cell_spec i) f =
      f\<lparr>f_mem := pool_store ?q ?bs ?im1, f_agg := add_slice (cell_slice raw i) (f_agg f),
        g_forEachTotal := g_forEachTotal f + 1\<rparr>"
    using q ex load load2 lbs unat_slice_len [OF i]
    by (simp add: process_slice_def cell_spec_def Hton_def add_slice_def cell_slice_def)
  then show ?thesis using True s2 lay2
    by (intro exI [of _ "pool_store ?q ?bs ?im1"] exI [of _ ?r2]) (simp add: mem_ready_def at_block_def fun_eq_iff)
qed

lemma process_slices_cells:
  assumes "mem_ready (f_mem f) j r" "idx < unat (r_slotCap r)" "set is \<subseteq> {..<500}" "length raw = unat len"
  shows "\<exists>im' r' c. mem_ready im' j r' \<and>
    r_slotCap r' = r_slotCap r \<and> r_used r' = r_used r \<and> r_keys r' = r_keys r \<and>
    fold (\<lambda>i. process_slice (Some raw) len (j, at_block r idx) (cell_spec i)) is f =
      f\<lparr>f_mem := im', f_agg := fold add_slice (map (cell_slice raw) (filter (in_frame (length raw)) is)) (f_agg f),
        g_forEachTotal := c\<rparr>"
  using assms
proof (induction "is" arbitrary: f r)
  case Nil
  then show ?case
    by (intro exI [of _ "f_mem f"] exI [of _ r] exI [of _ "g_forEachTotal f"]) simp
next
  case (Cons i "is")
  have i: "i < 500" using Cons.prems(3) by simp
  obtain im' r' where st: "mem_ready im' j r'" "r_slotCap r' = r_slotCap r" "at_block r' = at_block r"
    "r_used r' = r_used r" "r_keys r' = r_keys r"
    "process_slice (Some raw) len (j, at_block r idx) (cell_spec i) f =
      (if in_frame (length raw) i
       then f\<lparr>f_mem := im', f_agg := add_slice (cell_slice raw i) (f_agg f), g_forEachTotal := g_forEachTotal f + 1\<rparr>
       else f)"
    using process_slice_cell [OF Cons.prems(1,2) i Cons.prems(4)] by blast
  let ?f = "process_slice (Some raw) len (j, at_block r idx) (cell_spec i) f"
  let ?r = "if in_frame (length raw) i then r' else r"
  have m: "mem_ready (f_mem ?f) j ?r" using st Cons.prems(1) by simp
  have c: "idx < unat (r_slotCap ?r)" using st(2) Cons.prems(2) by simp
  have b: "at_block ?r = at_block r" using st(3) by simp
  from Cons.IH [OF m c _ Cons.prems(4)] Cons.prems(3) obtain im2 r2 n where
    "mem_ready im2 j r2" "r_slotCap r2 = r_slotCap ?r" "r_used r2 = r_used ?r" "r_keys r2 = r_keys ?r"
    "fold (\<lambda>i. process_slice (Some raw) len (j, at_block r idx) (cell_spec i)) is ?f =
      ?f\<lparr>f_mem := im2, f_agg := fold add_slice (map (cell_slice raw) (filter (in_frame (length raw)) is)) (f_agg ?f),
        g_forEachTotal := n\<rparr>" unfolding b by auto
  then show ?case using st by (intro exI [of _ im2] exI [of _ r2] exI [of _ n]) simp
qed

lemma AcquireBlock_ready:
  assumes "mem_ready im j r" "AcquireBlock 0 10 key now im = (Some p, im')"
  shows "\<exists>idx r'. p = (j, at_block r' idx) \<and> live_at r' key idx \<and> mem_ready im' j r'"
proof -
  have s: "serves im 0 10 j r" and lay: "cell_layout r" using assms(1) by (auto simp: mem_ready_def)
  show ?thesis
  proof (cases rule: AcquireBlock_cases [OF s, of key now, case_names full hit new])
    case (hit idx r')
    have "cell_layout r'" using cell_layout_cong [of r' r] lay hit(3) by simp
    then show ?thesis using hit assms(2)
      by (intro exI [of _ idx] exI [of _ r']) (simp add: mem_ready_def at_block_def)
  next
    case (new idx r')
    have "cell_layout r'" using cell_layout_cong [of r' r] lay new(3) by simp
    moreover have "live_at r' key idx"
      using live_at_claim [of r idx 0 10 key now key idx] new(2,3,6) s by (simp add: serves_def)
    ultimately show ?thesis using new assms(2)
      by (intro exI [of _ idx] exI [of _ r']) (simp add: mem_ready_def at_block_def)
  qed (use assms(2) in simp)
qed

text \<open>A search that meets its key's block, or a free one, is answered.\<close>

lemma AcquireBlock_answered:
  assumes "serves im dm per j r" "idx < unat (r_slotCap r)" "probe_stop r key idx"
  shows "\<exists>p im'. AcquireBlock dm per key now im = (Some p, im')"
proof -
  have "probe_end r key \<noteq> None" using assms by (subst probe_end_None) (auto simp: serves_def)
  then show ?thesis by (cases rule: AcquireBlock_cases [OF assms(1), of key now]) auto
qed

lemma sum_slice_len: "(\<Sum>i<500. 4 + slice_len i) = 34758"
proof -
  have "map slice_len [0..<500] = map unat kCellCacheSizes"
    by (rule nth_equalityI) (simp_all add: slice_len_def del: upt_rec_numeral)
  then have "sum_list (map slice_len [0..<500]) = 32758" using sum_kCellCacheSizes by simp
  then have "(\<Sum>i<500. slice_len i) = 32758"
    by (simp add: interv_sum_list_conv_sum_set_nat atLeast0LessThan del: upt_rec_numeral)
  then show ?thesis by (simp add: sum.distrib)
qed

lemma payload_cells:
  assumes "distinct is" "set is \<subseteq> {..<500}" "\<forall>i \<in> set is. in_frame (length raw) i"
  shows "length (payload (map (cell_slice raw) is)) \<le> 34758"
    "set is = {..<500} \<Longrightarrow> length (payload (map (cell_slice raw) is)) = 34758"
proof -
  have "length (payload (map (cell_slice raw) is)) = (\<Sum>i\<leftarrow>is. 4 + slice_len i)"
    using assms(3) by (induction "is") (auto simp: cell_slice_def in_frame_def length_mem_read)
  also have "\<dots> = (\<Sum>i\<in>set is. 4 + slice_len i)" using assms(1) by (simp add: sum_list_distinct_conv_sum_set)
  finally have e: "length (payload (map (cell_slice raw) is)) = (\<Sum>i\<in>set is. 4 + slice_len i)" .
  have "(\<Sum>i\<in>set is. 4 + slice_len i) \<le> (\<Sum>i<500. 4 + slice_len i)"
    using assms(2) by (intro sum_mono2) auto
  then show "length (payload (map (cell_slice raw) is)) \<le> 34758" using e sum_slice_len by simp
  show "length (payload (map (cell_slice raw) is)) = 34758" if "set is = {..<500}"
    using e sum_slice_len that by simp
qed

lemma cell_slice_short: "i < 500 \<Longrightarrow> length (snd (cell_slice raw i)) < 65536"
  using slice_len_range [of i] by (simp add: cell_slice_def mem_read_def min.strict_coboundedI2)

text \<open>A factory that a frame can pass through.\<close>

definition factory_ready :: "DataFactory \<Rightarrow> nat \<Rightarrow> RegionDesc \<Rightarrow> bool" where
  "factory_ready f j r \<longleftrightarrow> f_sink f \<and> m_sink (f_agg f) \<and> f_currentTask f \<noteq> 0 \<and>
     length (m_buf (f_agg f)) = 49152 \<and> mem_ready (f_mem f) j r"

definition report_of :: "DataFactory \<Rightarrow> bytes \<Rightarrow> slice list \<Rightarrow> bytes" where
  "report_of f pad ss = report_frame pad (f_currentTask f) (ucast (f_tick f) * 100) (f_seq f + 1) ss"

lemma Process_cells:
  assumes ord: "distinct order" "set order = dom (InitExtractors Map.empty)"
    and raw: "length raw = unat len" and rdy: "factory_ready f j r"
    and acq: "AcquireBlock 0 10 (ExtractRawKey 0 (Some raw) len) (f_tick f) (f_mem f) = (Some p, im')"
  shows "\<exists>f' is pad ss r'. Process FULL us (InitExtractors Map.empty) order (Some raw) len 0 f = f' \<and>
    distinct is \<and> set is = {i. i < 500 \<and> in_frame (length raw) i} \<and> ss = map (cell_slice raw) is \<and> length pad = 4 \<and>
    f_published f' = f_published f @ (if ss = [] then [] else [report_of f pad ss]) \<and>
    m_drops (f_agg f') = m_drops (f_agg f) \<and> f_seq f' = f_seq f + 1 \<and>
    s_frames (f_stats f') = s_frames (f_stats f) + 1 \<and>
    s_dropPoolFull (f_stats f') = s_dropPoolFull (f_stats f) \<and> factory_ready f' j r' \<and>
    f_currentTask f' = f_currentTask f \<and>
    (\<forall>now. \<exists>q m. AcquireBlock 0 10 (ExtractRawKey 0 (Some raw) len) now (f_mem f') = (Some q, m))"
proof -
  obtain is0 where is0: "order = map (\<lambda>i. extractor_key 0 (1 + of_nat i)) is0" "distinct is0" "set is0 = {..<500}"
    using table_order [OF ord] by blast
  let ?is = "filter (in_frame (length raw)) is0" and ?ss = "map (cell_slice raw) (filter (in_frame (length raw)) is0)"
  have m: "mem_ready (f_mem f) j r" using rdy by (simp add: factory_ready_def)
  obtain idx r1 where p: "p = (j, at_block r1 idx)" "live_at r1 (ExtractRawKey 0 (Some raw) len) idx" "mem_ready im' j r1"
    using AcquireBlock_ready [OF m acq] by blast
  then have idx: "idx < unat (r_slotCap r1)" by (simp add: live_at_def)
  define f1 where "f1 = (if ExtractRawKey 0 (Some raw) len = 0
      then f\<lparr>f_procCount := f_procCount f + 1, f_stats := (f_stats f)\<lparr>s_keyFail := s_keyFail (f_stats f) + 1\<rparr>\<rparr>
      else f\<lparr>f_procCount := f_procCount f + 1\<rparr>)"
  define f3 where "f3 = f1\<lparr>f_mem := im', f_agg := Begin (f_currentTask f) (f_agg f)\<rparr>"
  have "mem_ready (f_mem f3) j r1" using p(3) by (simp add: f3_def)
  from process_slices_cells [OF this idx eq_refl [OF is0(3)] raw] obtain im2 r2 c where
    keep: "r_slotCap r2 = r_slotCap r1" "r_used r2 = r_used r1" "r_keys r2 = r_keys r1" and
    f4: "mem_ready im2 j r2" "fold (\<lambda>i. process_slice (Some raw) len p (cell_spec i)) is0 f3 =
      f3\<lparr>f_mem := im2, f_agg := fold add_slice ?ss (f_agg f3), g_forEachTotal := c\<rparr>" unfolding p(1) by blast
  have walk: "ForEachByDomain (InitExtractors Map.empty) order 0 (process_slice (Some raw) len p) f3 =
      f3\<lparr>f_mem := im2, f_agg := fold add_slice ?ss (f_agg f3), g_forEachTotal := c\<rparr>"
    unfolding is0(1) f4(2) [symmetric] using is0(3) by (simp add: ForEachByDomain_cells)
  have pr: "Process FULL us (InitExtractors Map.empty) order (Some raw) len 0 f =
      account us (flush_frame (ucast (f_tick f) * 100) (f3\<lparr>f_mem := im2, f_agg := fold add_slice ?ss (f_agg f3), g_forEachTotal := c\<rparr>))"
    unfolding walk [symmetric]
    using rdy acq by (cases "ExtractRawKey 0 (Some raw) len = 0")
      (simp_all add: Process_def Let_def factory_ready_def kPeriod1S_def kTickMs_def f3_def f1_def)
  have ss: "\<forall>s \<in> set ?ss. length (snd s) < 65536" using cell_slice_short is0(3) by auto
  have "length (payload ?ss) \<le> 34758" by (rule payload_cells(1)) (use is0(2,3) in auto)
  then have all: "kept 49128 ?ss = ?ss" by (intro kept_all) linarith
  have buf: "length (m_buf (f_agg f)) = 49152" "m_sink (f_agg f)" using rdy by (auto simp: factory_ready_def)
  let ?pad = "mem_read (m_buf (fold add_slice ?ss (Begin (f_currentTask f) (f_agg f)))) 4 4"
  have "holds (fold add_slice ?ss (Begin (f_currentTask f) (f_agg f))) ([] @ kept (49128 - length (payload [])) ?ss)"
    using fold_add_slice [OF holds_Begin [OF buf(1)] ss, of "f_currentTask f"] by simp
  then have pad: "length ?pad = 4" by (auto simp: holds_def length_mem_read)
  obtain a' where a': "Flush (ucast (f_tick f) * 100) (f_seq f + 1) (fold add_slice ?ss (Begin (f_currentTask f) (f_agg f))) =
      (a', if ?ss = [] then None else Some (report_of f ?pad ?ss))"
    "m_drops a' = m_drops (f_agg f)" "length (m_buf a') = 49152"
    using Aggregator_frame_lemma [OF buf ss, of "ucast (f_tick f) * 100" "f_seq f + 1" "f_currentTask f"]
    unfolding all report_of_def by auto
  have snk: "m_sink a'" using a'(1) buf(2) fold_add_slice [OF holds_Begin [OF buf(1)] ss, of "f_currentTask f"]
    by (auto simp: Flush_def Let_def Begin_def split: if_splits)
  have f3s: "f_agg f3 = Begin (f_currentTask f) (f_agg f)" "f_seq f3 = f_seq f" "f_published f3 = f_published f"
    "f_sink f3 = f_sink f" "f_currentTask f3 = f_currentTask f"
    "s_frames (f_stats f3) = s_frames (f_stats f)" "s_dropPoolFull (f_stats f3) = s_dropPoolFull (f_stats f)"
    by (simp_all add: f3_def f1_def)
  let ?f' = "account us (flush_frame (ucast (f_tick f) * 100) (f3\<lparr>f_mem := im2, f_agg := fold add_slice ?ss (f_agg f3), g_forEachTotal := c\<rparr>))"
  have f': "f_published ?f' = f_published f @ (if ?ss = [] then [] else [report_of f ?pad ?ss])"
    "m_drops (f_agg ?f') = m_drops (f_agg f)" "f_seq ?f' = f_seq f + 1"
    "s_frames (f_stats ?f') = s_frames (f_stats f) + 1" "s_dropPoolFull (f_stats ?f') = s_dropPoolFull (f_stats f)"
    "factory_ready ?f' j r2" "f_currentTask ?f' = f_currentTask f" "f_mem ?f' = im2"
    using f3s a' snk f4(1) rdy by (auto simp: account_def Let_def flush_frame_def factory_ready_def)
  have "\<exists>q m. AcquireBlock 0 10 (ExtractRawKey 0 (Some raw) len) now im2 = (Some q, m)" for now
    using f4(1) idx p(2) keep
    by (intro AcquireBlock_answered [of im2 0 10 j r2 idx]) (auto simp: mem_ready_def probe_stop_def live_at_def)
  moreover have "set ?is = {i. i < 500 \<and> in_frame (length raw) i}" using is0(3) by auto
  ultimately show ?thesis using pr f' pad is0(2) by (intro exI [of _ ?f'] exI [of _ ?is] exI [of _ ?pad] exI [of _ ?ss] exI [of _ r2]) simp
qed

section \<open>A factory after start-up\<close>

definition start_order :: "u32 list" where
  "start_order = map (\<lambda>i. extractor_key 0 (1 + of_nat i)) [0..<500]"

lemma start_order_ok: "distinct start_order" "set start_order = dom (InitExtractors Map.empty)"
proof -
  have "inj_on (\<lambda>i. extractor_key 0 (1 + of_nat i)) {..<500}"
    using cell_spec_id_inj by (auto simp: inj_on_def extractor_key_inj)
  then show "distinct start_order"
    unfolding start_order_def distinct_map by (simp add: atLeast0LessThan del: upt_rec_numeral)
  have "set start_order = (\<lambda>i. extractor_key 0 (1 + of_nat i)) ` {..<500}"
    unfolding start_order_def set_map by (simp add: atLeast0LessThan del: upt_rec_numeral)
  then show "set start_order = dom (InitExtractors Map.empty)" using Find_dom by blast
qed

text \<open>Assembled with a sink and given a task.\<close>

definition start_factory :: "u32 \<Rightarrow> DataFactory" where
  "start_factory task = OnTask task [] 1000 (SetReportSink True (new_factory None None (Init (\<lambda>n. replicate n 0) None)))"

lemma start_factory_ready:
  "task \<noteq> 0 \<Longrightarrow> factory_ready (start_factory task) 0 (region0 (\<lambda>n. replicate n 0))"
  using Init_serves [of "\<lambda>n. replicate n 0"]
  by (simp add: factory_ready_def start_factory_def OnTask_def SetReportSink_def new_factory_def SetSink_def
      mem_ready_def cell_layout_region0)

lemma start_factory_acquire: "\<exists>p im'. AcquireBlock 0 10 key now (f_mem (start_factory task)) = (Some p, im')"
proof -
  have s: "serves (Init (\<lambda>n. replicate n 0) None) 0 10 0 (region0 (\<lambda>n. replicate n 0))"
    by (rule Init_serves) simp
  have "probe_end (region0 (\<lambda>n. replicate n 0)) key \<noteq> None"
    using s by (subst probe_end_None) (auto simp: serves_def region0_fields probe_stop_def intro!: exI [of _ 0])
  then have "\<exists>p im'. AcquireBlock 0 10 key now (Init (\<lambda>n. replicate n 0) None) = (Some p, im')"
    by (cases rule: AcquireBlock_cases [OF s, of key now]) auto
  then show ?thesis by (simp add: start_factory_def OnTask_def SetReportSink_def new_factory_def)
qed

section \<open>Properties of Process\<close>

text \<open>C8: One frame, one report. In full mode with a sink and a task, and when the frame's object
  gets a cache block, \<open>Process\<close> publishes one report that carries exactly those slices that lie
  within the frame, each once, with its own bytes cut at its own offset, whatever the order in
  which the registry is walked; no slice is dropped for lack of room; the sequence number moves
  on by one, also when the frame was too short for any slice and nothing is published.\<close>

theorem Process_publishes_frame:
  assumes "distinct order" "set order = dom (InitExtractors Map.empty)" "length raw = unat len"
    and "factory_ready f j r"
    and "AcquireBlock 0 10 (ExtractRawKey 0 (Some raw) len) (f_tick f) (f_mem f) = (Some p, im')"
  shows "\<exists>is pad f'. Process FULL us (InitExtractors Map.empty) order (Some raw) len 0 f = f' \<and>
    distinct is \<and> set is = {i. i < 500 \<and> slice_off i + slice_len i \<le> length raw} \<and> length pad = 4 \<and>
    f_published f' = f_published f @ (if is = [] then [] else
      [report_frame pad (f_currentTask f) (ucast (f_tick f) * 100) (f_seq f + 1)
        (map (\<lambda>i. (1 + of_nat i, mem_read raw (slice_off i) (slice_len i))) is)]) \<and>
    m_drops (f_agg f') = m_drops (f_agg f) \<and> f_seq f' = f_seq f + 1"
proof -
  from Process_cells [OF assms, of us] obtain f' "is" pad ss where
    "Process FULL us (InitExtractors Map.empty) order (Some raw) len 0 f = f'"
    "distinct is" "set is = {i. i < 500 \<and> in_frame (length raw) i}" "ss = map (cell_slice raw) is" "length pad = 4"
    "f_published f' = f_published f @ (if ss = [] then [] else [report_of f pad ss])"
    "m_drops (f_agg f') = m_drops (f_agg f)" "f_seq f' = f_seq f + 1" by blast
  then show ?thesis
    by (intro exI [of _ "is"] exI [of _ pad] exI [of _ f']) (simp add: in_frame_def cell_slice_def [abs_def] report_of_def)
qed

theorem Process_publishes_frame_witness:
  "\<exists>is pad. set is = {i. i < 500 \<and> slice_off i + slice_len i \<le> 200} \<and>
    f_published (Process FULL 5 (InitExtractors Map.empty) start_order (Some (replicate 200 7)) 200 0 (start_factory 9)) =
      (if is = [] then [] else
       [report_frame pad 9 0 1 (map (\<lambda>i. (1 + of_nat i, mem_read (replicate 200 7) (slice_off i) (slice_len i))) is)])"
proof -
  have l: "length (replicate 200 (7 :: u8)) = unat (200 :: u32)" by simp
  obtain p im' where a: "AcquireBlock 0 10 (ExtractRawKey 0 (Some (replicate 200 7)) 200) (f_tick (start_factory 9))
      (f_mem (start_factory 9)) = (Some p, im')" using start_factory_acquire by blast
  have r: "factory_ready (start_factory 9) 0 (region0 (\<lambda>n. replicate n 0))" by (rule start_factory_ready) simp
  have f: "f_published (start_factory 9) = []" "f_currentTask (start_factory 9) = 9" "f_tick (start_factory 9) = 0"
    "f_seq (start_factory 9) = 0"
    by (simp_all add: start_factory_def OnTask_def SetReportSink_def new_factory_def)
  from Process_publishes_frame [OF start_order_ok l r a, of 5] obtain "is" pad f' where
    "Process FULL 5 (InitExtractors Map.empty) start_order (Some (replicate 200 7)) 200 0 (start_factory 9) = f'"
    "set is = {i. i < 500 \<and> slice_off i + slice_len i \<le> 200}"
    "f_published f' = [] @ (if is = [] then [] else
       [report_frame pad 9 (ucast (0 :: u32) * 100) (0 + 1)
         (map (\<lambda>i. (1 + of_nat i, mem_read (replicate 200 7) (slice_off i) (slice_len i))) is)])"
    unfolding f length_replicate by blast
  then show ?thesis by (intro exI [of _ "is"] exI [of _ pad]) simp
qed

text \<open>Frames that are not reported are accounted for. In receive-only mode, without a sink or
  without a task, \<open>Process\<close> changes nothing but its call and skip counters; when the cache has
  no block for the frame's object the whole frame is dropped, counted once under \<open>dropPoolFull\<close>
  and not under \<open>frames\<close>; and since no region is ever built for type UE, that is what happens to
  every UE frame.\<close>

theorem Process_discards:
  assumes "FindRegion (regions (f_mem f)) (data_type_u16 UE) kPeriod1S = None"
  shows "Process RECV us reg order raw len ty f = f\<lparr>f_procCount := f_procCount f + 1\<rparr> \<and>
    (b \<noteq> RECV \<and> \<not> f_sink f \<longrightarrow> Process b us reg order raw len ty f =
       f\<lparr>f_procCount := f_procCount f + 1, g_skipSink := g_skipSink f + 1\<rparr>) \<and>
    (b \<noteq> RECV \<and> f_sink f \<and> f_currentTask f = 0 \<longrightarrow> Process b us reg order raw len ty f =
       f\<lparr>f_procCount := f_procCount f + 1, g_skipTask := g_skipTask f + 1\<rparr>) \<and>
    (b \<noteq> RECV \<and> f_sink f \<and> f_currentTask f \<noteq> 0 \<and>
      fst (AcquireBlock ty kPeriod1S (ExtractRawKey ty raw len) (f_tick f) (f_mem f)) = None \<longrightarrow>
       (let f' = Process b us reg order raw len ty f in
        f_published f' = f_published f \<and> f_seq f' = f_seq f \<and> f_agg f' = f_agg f \<and>
        s_dropPoolFull (f_stats f') = s_dropPoolFull (f_stats f) + 1 \<and>
        s_frames (f_stats f') = s_frames (f_stats f))) \<and>
    fst (AcquireBlock (data_type_u16 UE) kPeriod1S k (f_tick f) (f_mem f)) = None"
  using assms
  by (auto simp: Process_def Let_def AcquireBlock_def split: prod.splits option.splits)

theorem Process_discards_witness:
  "s_dropPoolFull (f_stats (Process FULL 5 (InitExtractors Map.empty) start_order (Some (replicate 64 1)) 64 1 (start_factory 9))) = 1"
proof -
  have r: "FindRegion (regions (f_mem (start_factory 9))) (data_type_u16 UE) kPeriod1S = None"
    by (simp add: start_factory_def OnTask_def SetReportSink_def new_factory_def Init_region0 region0_fields)
  have f: "f_sink (start_factory 9)" "f_currentTask (start_factory 9) = 9" "s_dropPoolFull (f_stats (start_factory 9)) = 0"
    by (simp_all add: start_factory_def OnTask_def SetReportSink_def new_factory_def init_stats_def)
  show ?thesis
    using Process_discards [OF r, of 5 "InitExtractors Map.empty" start_order "Some (replicate 64 1)" 64 1 FULL
        "ExtractRawKey 1 (Some (replicate 64 1)) 64"] f
    by (simp add: Let_def)
qed

text \<open>The object key. A frame of at least 10 bytes is keyed by the two 32-bit fields behind its
  type field, and two cell frames get the same key exactly if both fields agree. But key 0,
  which stands for a frame too short to have a key, is also the key of cell 0 with cp 0, and a
  frame with key 0 is only counted: it is processed and stored like any other, so a short
  frame shares the cache block of cell (0, 0).\<close>

theorem ExtractRawKey_keys:
  assumes "10 \<le> unat len" "10 \<le> unat len'"
  shows "(ExtractRawKey 0 (Some (le16 t @ le32 c @ le32 p @ body)) len = CellHashKey c p) \<and>
    (ExtractRawKey 0 (Some (le16 t @ le32 c @ le32 p @ body)) len =
       ExtractRawKey 0 (Some (le16 t' @ le32 c' @ le32 p' @ body')) len' \<longleftrightarrow> c = c' \<and> p = p') \<and>
    (ExtractRawKey 0 (Some (le16 t @ le32 c @ le32 p @ body)) len = 0 \<longleftrightarrow> c = 0 \<and> p = 0) \<and>
    (unat len0 < 10 \<longrightarrow> ExtractRawKey ty raw len0 = 0) \<and>
    (f_sink f \<and> f_currentTask f \<noteq> 0 \<and> ExtractRawKey ty raw len0 = 0 \<longrightarrow>
      f_mem (Process PROCESS us (\<lambda>_. None) [] raw len0 ty f) =
        snd (AcquireBlock ty kPeriod1S (CellHashKey 0 0) (f_tick f) (f_mem f)) \<and>
      s_keyFail (f_stats (Process PROCESS us (\<lambda>_. None) [] raw len0 ty f)) = s_keyFail (f_stats f) + 1)"
proof (intro conjI)
  have key: "ExtractRawKey 0 (Some (le16 t @ le32 c @ le32 p @ body)) len = CellHashKey c p" if "10 \<le> unat len" for t c p body len
  proof -
    have "get32 (le16 t @ le32 c @ le32 p @ body) 2 = c" "get32 (le16 t @ le32 c @ le32 p @ body) 6 = p"
      by (intro get32_eq; simp add: mem_read_def)+
    then show ?thesis using that by (simp add: ExtractRawKey_def word_less_nat_alt)
  qed
  have z: "CellHashKey 0 0 = 0" by (simp add: CellHashKey_def)
  show "ExtractRawKey 0 (Some (le16 t @ le32 c @ le32 p @ body)) len = CellHashKey c p" by (rule key [OF assms(1)])
  show "ExtractRawKey 0 (Some (le16 t @ le32 c @ le32 p @ body)) len =
       ExtractRawKey 0 (Some (le16 t' @ le32 c' @ le32 p' @ body')) len' \<longleftrightarrow> c = c' \<and> p = p'"
    by (simp add: key assms CellHashKey_inj)
  show "ExtractRawKey 0 (Some (le16 t @ le32 c @ le32 p @ body)) len = 0 \<longleftrightarrow> c = 0 \<and> p = 0"
    using CellHashKey_inj [of c p 0 0] by (simp add: key assms z)
  show "unat len0 < 10 \<longrightarrow> ExtractRawKey ty raw len0 = 0"
    by (simp add: ExtractRawKey_def word_less_nat_alt split: option.split)
  show "f_sink f \<and> f_currentTask f \<noteq> 0 \<and> ExtractRawKey ty raw len0 = 0 \<longrightarrow>
      f_mem (Process PROCESS us (\<lambda>_. None) [] raw len0 ty f) =
        snd (AcquireBlock ty kPeriod1S (CellHashKey 0 0) (f_tick f) (f_mem f)) \<and>
      s_keyFail (f_stats (Process PROCESS us (\<lambda>_. None) [] raw len0 ty f)) = s_keyFail (f_stats f) + 1"
    by (auto simp: Process_def Let_def z split: prod.split option.split)
qed

theorem ExtractRawKey_keys_witness:
  "ExtractRawKey 0 (Some (le16 0 @ le32 3 @ le32 5 @ [])) 10 = CellHashKey 3 5"
  using ExtractRawKey_keys [of 10 10 0 3 5 "[]" 0 3 5 "[]"] by simp

text \<open>The latency budget. \<open>SetBudget\<close> takes effect exactly for thresholds with
  0 < warn <= alarm and otherwise leaves them. At the end of a frame exactly one of the alarm
  counter, the warning counter and neither moves, by the thresholds in force; the maximum is
  the larger of the old one and the new duration. The environment is not checked that way:
  started with DTS_DATA_BUDGET_WARN_US=9000 alone, no frame can ever be counted as a warning.\<close>

theorem Budget_accounting:
  "(fst (SetBudget w a f) = 0 \<longleftrightarrow> 0 < w \<and> w \<le> a) \<and>
   (if 0 < w \<and> w \<le> a then f_budgetWarnUs (snd (SetBudget w a f)) = w \<and> f_budgetAlarmUs (snd (SetBudget w a f)) = a
    else snd (SetBudget w a f) = f) \<and>
   (let s = f_stats f; s' = f_stats (account us f) in
     s_frameMaxUs s' = max (s_frameMaxUs s) us \<and> s_frames s' = s_frames s + 1 \<and>
     s_frameBudgetAlarm s' = s_frameBudgetAlarm s + (if f_budgetAlarmUs f \<le> us then 1 else 0) \<and>
     s_frameBudgetWarn s' = s_frameBudgetWarn s + (if f_budgetWarnUs f \<le> us \<and> us < f_budgetAlarmUs f then 1 else 0)) \<and>
   (let g = (f\<lparr>f_budgetWarnUs := f_budgetWarnUs (new_factory (Some ''9000'') None mem),
               f_budgetAlarmUs := f_budgetAlarmUs (new_factory (Some ''9000'') None mem)\<rparr>)
    in s_frameBudgetWarn (f_stats (account us g)) = s_frameBudgetWarn (f_stats g))"
proof (intro conjI)
  have e: "f_budgetWarnUs (new_factory (Some ''9000'') None mem) = 9000"
    "f_budgetAlarmUs (new_factory (Some ''9000'') None mem) = 5000"
    by (simp_all add: new_factory_def kFrameBudgetAlarmUs_def strtoull10_def Let_def is_space_def is_digit_def)
  show "fst (SetBudget w a f) = 0 \<longleftrightarrow> 0 < w \<and> w \<le> a"
    by (auto simp: SetBudget_def not_less word_neq_0_conv)
  show "if 0 < w \<and> w \<le> a then f_budgetWarnUs (snd (SetBudget w a f)) = w \<and> f_budgetAlarmUs (snd (SetBudget w a f)) = a
    else snd (SetBudget w a f) = f"
    by (auto simp: SetBudget_def not_less word_neq_0_conv)
  show "let s = f_stats f; s' = f_stats (account us f) in
     s_frameMaxUs s' = max (s_frameMaxUs s) us \<and> s_frames s' = s_frames s + 1 \<and>
     s_frameBudgetAlarm s' = s_frameBudgetAlarm s + (if f_budgetAlarmUs f \<le> us then 1 else 0) \<and>
     s_frameBudgetWarn s' = s_frameBudgetWarn s + (if f_budgetWarnUs f \<le> us \<and> us < f_budgetAlarmUs f then 1 else 0)"
    unfolding account_def Let_def max_def
    by (cases "us > s_frameMaxUs (f_stats f)"; cases "f_budgetAlarmUs f \<le> us"; cases "f_budgetWarnUs f \<le> us") auto
  show "let g = (f\<lparr>f_budgetWarnUs := f_budgetWarnUs (new_factory (Some ''9000'') None mem),
               f_budgetAlarmUs := f_budgetAlarmUs (new_factory (Some ''9000'') None mem)\<rparr>)
    in s_frameBudgetWarn (f_stats (account us g)) = s_frameBudgetWarn (f_stats g)"
    unfolding e Let_def by (simp add: account_def Let_def) (auto intro: order_trans [of 5000 9000])
qed

end
