(* ===== verification/Web_Report.thy ===== *)
theory Web_Report
  imports Report_Agg
begin

text \<open>
  The web server's view of a report: the frame parser (\<open>webserver/src/report_frame.h\<close>) and the
  observation counters with their ring of one-second buckets (\<open>webserver/src/stats.h\<close>). The parser
  is proved to be a left inverse of the aggregator's frames; the counters are proved to count
  every frame, every jump of the sequence number, and, in the figure labelled as a 5-second
  average, the last sixty seconds.
\<close>

section \<open>ParseReport\<close>

record ReportView =
  v_taskId :: u32
  v_timestampMs :: u64
  v_seq :: u32
  v_payloadLen :: u32
  v_sliceCount :: u16
  v_dataIdMin :: u16
  v_dataIdMax :: u16
  v_frameLen :: u32

definition zero_view :: ReportView where
  "zero_view = \<lparr>v_taskId = 0, v_timestampMs = 0, v_seq = 0, v_payloadLen = 0, v_sliceCount = 0,
     v_dataIdMin = 0, v_dataIdMax = 0, v_frameLen = 0\<rparr>"

text \<open>
  The loop over the slices; \<open>pos\<close> never exceeds \<open>body\<close>, and the sums with \<open>sizeof\<close> are formed in
  \<open>size_t\<close>. The result is the slice count and the smallest and largest id.
\<close>

function parse_loop :: "bytes \<Rightarrow> nat \<Rightarrow> nat \<Rightarrow> u16 \<Rightarrow> u16 \<Rightarrow> u16 \<Rightarrow> u16 \<times> u16 \<times> u16" where
  "parse_loop data body pos cnt minId maxId =
     (if pos + 4 \<le> body \<and> cnt < 1000
      then (let dataId = get16 data (24 + pos); len = unat (get16 data (24 + pos + 2)) in
            if pos + 4 + len > body then (cnt, minId, maxId)
            else parse_loop data body (pos + 4 + len) (cnt + 1)
                   (if dataId < minId then dataId else minId) (if dataId > maxId then dataId else maxId))
      else (cnt, minId, maxId))"
  by pat_completeness auto
termination
  by (relation "measure (\<lambda>(data, body, pos, cnt, minId, maxId). body - pos)") auto

declare parse_loop.simps [simp del]

definition ParseReport :: "bytes option \<Rightarrow> u32 \<Rightarrow> ReportView \<Rightarrow> bool \<times> ReportView" where
  "ParseReport data len out = (case data of
     None \<Rightarrow> (False, out)
   | Some bs \<Rightarrow>
       if len < sizeof_ReportHeader then (False, out)
       else (let (cnt, minId, maxId) = parse_loop bs (unat (len - sizeof_ReportHeader)) 0 (v_sliceCount out) 0xFFFF 0
             in (True, out\<lparr>v_taskId := get32 bs 0, v_timestampMs := get64 bs 8, v_seq := get32 bs 16,
                   v_payloadLen := get32 bs 20, v_frameLen := len, v_sliceCount := cnt,
                   v_dataIdMin := (if cnt > 0 then minId else 0), v_dataIdMax := maxId\<rparr>)))"

section \<open>Parsing inverts the aggregator\<close>

lemma get16_append: "length xs = off \<Longrightarrow> get16 (xs @ le16 w @ ys) off = w"
  by (intro get16_eq) (simp add: mem_read_def)

lemma get16_append2: "length xs + 2 = off \<Longrightarrow> get16 (xs @ le16 u @ le16 w @ ys) off = w"
  using get16_append [of "xs @ le16 u" off w ys] by simp

lemma get32_append: "length xs = off \<Longrightarrow> get32 (xs @ le32 w @ ys) off = w"
  by (intro get32_eq) (simp add: mem_read_def)

lemma get64_append: "length xs = off \<Longrightarrow> get64 (xs @ le64 w @ ys) off = w"
  by (intro get64_eq) (simp add: mem_read_def)

definition ids_min :: "u16 \<Rightarrow> slice list \<Rightarrow> u16" where
  "ids_min m ss = foldl (\<lambda>m s. if fst s < m then fst s else m) m ss"

definition ids_max :: "u16 \<Rightarrow> slice list \<Rightarrow> u16" where
  "ids_max m ss = foldl (\<lambda>m s. if fst s > m then fst s else m) m ss"

lemma parse_loop_payload:
  assumes "length pre = 24 + pos" "\<forall>s \<in> set ss. length (snd s) < 65536" "unat cnt \<le> 1000"
  shows "parse_loop (pre @ payload ss) (pos + length (payload ss)) pos cnt mn mx =
    (cnt + of_nat (min (length ss) (1000 - unat cnt)),
     ids_min mn (take (1000 - unat cnt) ss), ids_max mx (take (1000 - unat cnt) ss))"
  using assms
proof (induction ss arbitrary: pre pos cnt mn mx)
  case Nil
  then show ?case by (subst parse_loop.simps) (simp add: ids_min_def ids_max_def)
next
  case (Cons s ss)
  let ?n = "length (snd s)"
  obtain d bs where s: "s = (d, bs)" by (cases s)
  have n: "unat (of_nat ?n :: u16) = ?n" using Cons.prems(2) by (simp add: unat_of_nat)
  have data: "pre @ payload (s # ss) = pre @ le16 d @ le16 (of_nat ?n) @ bs @ payload ss"
    by (simp add: slice_bytes_def s)
  have d: "get16 (pre @ payload (s # ss)) (24 + pos) = d"
    "get16 (pre @ payload (s # ss)) (24 + pos + 2) = of_nat ?n"
    using Cons.prems(1) unfolding data by (simp_all add: get16_append get16_append2)
  show ?case
  proof (cases "cnt < 1000")
    case False
    then have "unat cnt = 1000" using Cons.prems(3) by (simp add: word_less_nat_alt)
    then show ?thesis using False by (subst parse_loop.simps) (simp add: ids_min_def ids_max_def)
  next
    case True
    then have c: "unat cnt < 1000" by (simp add: word_less_nat_alt)
    then have c1: "unat (cnt + 1) = unat cnt + 1" by (simp add: unat_word_ariths)
    have "parse_loop (pre @ payload (s # ss)) (pos + length (payload (s # ss))) pos cnt mn mx =
      parse_loop (pre @ payload (s # ss)) (pos + length (payload (s # ss))) (pos + 4 + ?n) (cnt + 1)
        (if d < mn then d else mn) (if d > mx then d else mx)"
      using True by (subst parse_loop.simps) (simp only: d n Let_def, simp)
    also have "\<dots> = parse_loop ((pre @ slice_bytes s) @ payload ss) ((pos + 4 + ?n) + length (payload ss)) (pos + 4 + ?n) (cnt + 1)
        (if d < mn then d else mn) (if d > mx then d else mx)"
      by (simp add: add.assoc)
    also have "\<dots> = (cnt + 1 + of_nat (min (length ss) (1000 - unat (cnt + 1))),
       ids_min (if d < mn then d else mn) (take (1000 - unat (cnt + 1)) ss),
       ids_max (if d > mx then d else mx) (take (1000 - unat (cnt + 1)) ss))"
      using Cons.prems c1 c by (intro Cons.IH) simp_all
    also have "1000 - unat (cnt + 1) = 999 - unat cnt" using c1 by simp
    also have "take (1000 - unat cnt) (s # ss) = s # take (999 - unat cnt) ss"
      using c by (simp add: take_Cons' diff_right_commute)
    moreover have "min (length (s # ss)) (1000 - unat cnt) = Suc (min (length ss) (999 - unat cnt))"
      using c by (simp add: min_def) linarith
    ultimately show ?thesis by (simp add: ids_min_def ids_max_def s add.assoc)
  qed
qed

lemma parse_frame:
  assumes "length pad = 4" "\<forall>s \<in> set ss. length (snd s) < 65536" "length ss \<le> 1000"
    and "24 + length (payload ss) < 2 ^ 32" "f = report_frame pad t ts seq ss" "ss \<noteq> []"
  shows "\<exists>v. ParseReport (Some f) (of_nat (length f)) zero_view = (True, v) \<and>
    v_taskId v = t \<and> v_timestampMs v = ts \<and> v_seq v = seq \<and>
    unat (v_payloadLen v) = length (payload ss) \<and> unat (v_frameLen v) = 24 + length (payload ss) \<and>
    unat (v_sliceCount v) = length ss \<and>
    v_dataIdMin v = ids_min 0xFFFF ss \<and> v_dataIdMax v = ids_max 0 ss"
proof -
  let ?hd = "le32 t @ pad @ le64 ts @ le32 seq @ le32 (of_nat (length (payload ss)))"
  have f: "f = ?hd @ payload ss" "length ?hd = 24" using assms(1,5) by (simp_all add: report_frame_def)
  have len: "unat (of_nat (length f) :: u32) = 24 + length (payload ss)"
    using f assms(4) by (simp add: unat_of_nat del: of_nat_add)
  have body: "unat (of_nat (length f) - sizeof_ReportHeader) = length (payload ss)"
    using len by (simp add: unat_sub_le sizeof_ReportHeader_def)
  have h: "get32 f 0 = t" "get64 f 8 = ts" "get32 f 16 = seq" "get32 f 20 = of_nat (length (payload ss))"
    using get32_append [of "[]" 0 t] get64_append [of "le32 t @ pad" 8 ts]
      get32_append [of "le32 t @ pad @ le64 ts" 16 seq] get32_append [of "le32 t @ pad @ le64 ts @ le32 seq" 20]
      f assms(1) by simp_all
  have loop: "parse_loop f (length (payload ss)) 0 0 0xFFFF 0 = (of_nat (length ss), ids_min 0xFFFF ss, ids_max 0 ss)"
    using parse_loop_payload [of ?hd 0 ss 0 "0xFFFF" 0] f assms(2,3) by (simp add: min_def)
  have c: "unat (of_nat (length ss) :: u16) = length ss" using assms(3) by (simp add: unat_of_nat)
  then have "(0 :: u16) < of_nat (length ss)" using assms(6) by (simp add: word_less_nat_alt)
  moreover have "\<not> of_nat (length f) < sizeof_ReportHeader"
    using len by (simp add: word_less_nat_alt sizeof_ReportHeader_def)
  moreover have "unat (of_nat (length (payload ss)) :: u32) = length (payload ss)"
    using assms(4) by (simp add: unat_of_nat)
  ultimately show ?thesis using h loop c len
    unfolding ParseReport_def by (simp add: body zero_view_def)
qed

text \<open>C9: Parsing inverts framing. From a frame built of fewer than 1000 slices, each shorter than
  64 KiB, with a payload below 4 GiB, \<open>ParseReport\<close> into a fresh view recovers the task, the
  timestamp, the sequence number and the payload length, the exact number of slices, and the
  range of their ids, whatever the padding bytes hold.\<close>

theorem ParseReport_frame:
  assumes "length pad = 4" "\<forall>s \<in> set ss. length (snd s) < 65536" "length ss \<le> 1000"
    and "24 + length (payload ss) < 2 ^ 32" "f = report_frame pad t ts seq ss" "ss \<noteq> []"
  shows "\<exists>v. ParseReport (Some f) (of_nat (length f)) zero_view = (True, v) \<and>
    v_taskId v = t \<and> v_timestampMs v = ts \<and> v_seq v = seq \<and>
    unat (v_payloadLen v) = length (payload ss) \<and> unat (v_frameLen v) = 24 + length (payload ss) \<and>
    unat (v_sliceCount v) = length ss \<and>
    v_dataIdMin v = ids_min 0xFFFF ss \<and> v_dataIdMax v = ids_max 0 ss"
  by (rule parse_frame [OF assms])

theorem ParseReport_frame_witness:
  "\<exists>v. ParseReport (Some (report_frame [0,0,0,0] 7 100 3 [(2, [1,2,3]), (9, [])])) 35 zero_view = (True, v) \<and>
     v_sliceCount v = 2 \<and> v_dataIdMin v = 2 \<and> v_dataIdMax v = 9 \<and> v_seq v = 3"
  using ParseReport_frame [of "[0,0,0,0]" "[(2, [1,2,3]), (9, [])]" _ 7 100 3, OF _ _ _ _ refl]
  by (auto simp: report_frame_def ids_min_def ids_max_def word_unat_eq_iff)

section \<open>Stats\<close>

record SecBucket =
  b_sec :: int
  b_frames :: u64
  b_bytes :: u64

record Stats =
  w_totalFrames :: u64
  w_totalBytes :: u64
  w_gaps :: u64
  w_lastSeq :: u32
  w_lastTaskId :: u32
  w_hasLastSeq :: bool
  w_buckets :: "SecBucket list"

definition kWindow :: int where "kWindow = 60"

definition empty_bucket :: SecBucket where "empty_bucket = \<lparr>b_sec = 0, b_frames = 0, b_bytes = 0\<rparr>"

definition init_Stats :: Stats where
  "init_Stats = \<lparr>w_totalFrames = 0, w_totalBytes = 0, w_gaps = 0, w_lastSeq = 0, w_lastTaskId = 0,
     w_hasLastSeq = False, w_buckets = replicate 60 empty_bucket\<rparr>"

definition RollTo :: "int \<Rightarrow> Stats \<Rightarrow> Stats" where
  "RollTo nowSec s = (let idx = nat (nowSec mod kWindow) in
     if b_sec (w_buckets s ! idx) \<noteq> nowSec
     then s\<lparr>w_buckets := (w_buckets s)[idx := \<lparr>b_sec = nowSec, b_frames = 0, b_bytes = 0\<rparr>]\<rparr> else s)"

definition AddBucket :: "u32 \<Rightarrow> int \<Rightarrow> Stats \<Rightarrow> Stats" where
  "AddBucket bytes nowSec s = (let s1 = RollTo nowSec s; idx = nat (nowSec mod kWindow); b = w_buckets s1 ! idx in
     s1\<lparr>w_buckets := (w_buckets s1)[idx := b\<lparr>b_frames := b_frames b + 1, b_bytes := b_bytes b + ucast bytes\<rparr>]\<rparr>)"

text \<open>\<open>nowSec\<close> is the wall clock in whole seconds.\<close>

definition OnReport :: "ReportView \<Rightarrow> int \<Rightarrow> Stats \<Rightarrow> Stats" where
  "OnReport v nowSec s =
    (let s1 = s\<lparr>w_totalFrames := w_totalFrames s + 1, w_totalBytes := w_totalBytes s + ucast (v_frameLen v)\<rparr>;
         s2 = (if w_hasLastSeq s1 \<and> v_seq v \<noteq> w_lastSeq s1 + 1 then s1\<lparr>w_gaps := w_gaps s1 + 1\<rparr> else s1);
         s3 = s2\<lparr>w_lastSeq := v_seq v, w_hasLastSeq := True, w_lastTaskId := v_taskId v\<rparr>
     in AddBucket (v_frameLen v) nowSec s3)"

text \<open>
  \<open>SnapshotJson\<close> up to the printing: the two doubles are kept as the sums that are then divided, by
  5 for \<open>fps_5s\<close> and by 5 and by 1024 * 1024 for \<open>mbps_5s\<close>.
\<close>

record Snapshot =
  sn_frames :: u64
  sn_bytes :: u64
  sn_gaps :: u64
  sn_seq :: u32
  sn_task :: u32
  sn_fps_times_5 :: nat
  sn_bps_times_5 :: nat

definition counted :: "int \<Rightarrow> SecBucket \<Rightarrow> bool" where
  "counted nowSec b \<longleftrightarrow> b_sec b > 0 \<and> nowSec - b_sec b \<le> kWindow"

definition window_sum :: "(SecBucket \<Rightarrow> u64) \<Rightarrow> int \<Rightarrow> Stats \<Rightarrow> nat" where
  "window_sum g nowSec s = (\<Sum>i \<leftarrow> [1..<61].
     let b = w_buckets s ! nat ((nowSec - int i + kWindow * 4) mod kWindow)
     in if counted nowSec b then unat (g b) else 0)"

definition SnapshotJson :: "int \<Rightarrow> Stats \<Rightarrow> Snapshot \<times> Stats" where
  "SnapshotJson nowSec s = (let s1 = RollTo nowSec s in
     (\<lparr>sn_frames = w_totalFrames s1, sn_bytes = w_totalBytes s1, sn_gaps = w_gaps s1, sn_seq = w_lastSeq s1,
       sn_task = w_lastTaskId s1, sn_fps_times_5 = window_sum b_frames nowSec s1,
       sn_bps_times_5 = window_sum b_bytes nowSec s1\<rparr>, s1))"

section \<open>What the buckets hold\<close>

type_synonym arrivals = "(ReportView \<times> int) list"

definition arrived_at :: "arrivals \<Rightarrow> int \<Rightarrow> nat" where
  "arrived_at evs t = length (filter (\<lambda>e. snd e = t) evs)"

definition run_reports :: "arrivals \<Rightarrow> Stats \<Rightarrow> Stats" where
  "run_reports evs s = fold (\<lambda>(v, t). OnReport v t) evs s"

text \<open>Bucket \<open>k\<close> is still unused, or holds the count of the latest second of its residue class.\<close>

definition bucket_ok :: "arrivals \<Rightarrow> int \<Rightarrow> nat \<Rightarrow> SecBucket \<Rightarrow> bool" where
  "bucket_ok evs now k b \<longleftrightarrow>
     (\<forall>e \<in> set evs. nat (snd e mod 60) = k \<longrightarrow> snd e \<le> b_sec b) \<and>
     (b_sec b = 0 \<or> (0 < b_sec b \<and> b_sec b \<le> now \<and> nat (b_sec b mod 60) = k \<and> unat (b_frames b) = arrived_at evs (b_sec b)))"

definition buckets_ok :: "arrivals \<Rightarrow> int \<Rightarrow> Stats \<Rightarrow> bool" where
  "buckets_ok evs now s \<longleftrightarrow> length (w_buckets s) = 60 \<and> (\<forall>e \<in> set evs. 0 < snd e \<and> snd e \<le> now) \<and>
     (\<forall>k<60. bucket_ok evs now k (w_buckets s ! k))"

lemma idx_lt: "nat (t mod 60) < 60"
proof -
  have "t mod 60 < 60" "0 \<le> t mod 60" by simp_all
  then show ?thesis by linarith
qed

lemma arrived_at_zero: "(\<And>e. e \<in> set evs \<Longrightarrow> snd e \<noteq> t) \<Longrightarrow> arrived_at evs t = 0"
  by (auto simp: arrived_at_def filter_empty_conv)

lemma bucket_ok_later: "bucket_ok evs now k b \<Longrightarrow> now \<le> now' \<Longrightarrow> bucket_ok evs now' k b"
  by (auto simp: bucket_ok_def)

lemma RollTo_ok:
  assumes "buckets_ok evs now s" "now \<le> t" "0 < t"
  shows "buckets_ok evs t (RollTo t s) \<and> b_sec (w_buckets (RollTo t s) ! nat (t mod 60)) = t"
proof -
  let ?k = "nat (t mod 60)"
  have l: "length (w_buckets s) = 60" using assms(1) by (simp add: buckets_ok_def)
  have bk: "bucket_ok evs now ?k (w_buckets s ! ?k)" using assms(1) idx_lt by (simp add: buckets_ok_def)
  have new: "bucket_ok evs t ?k \<lparr>b_sec = t, b_frames = 0, b_bytes = 0\<rparr>" if "b_sec (w_buckets s ! ?k) \<noteq> t"
  proof -
    have "snd e \<noteq> t" if "e \<in> set evs" for e
    proof
      assume e: "snd e = t"
      then have "t \<le> b_sec (w_buckets s ! ?k)" using bk that by (auto simp: bucket_ok_def)
      moreover have "b_sec (w_buckets s ! ?k) \<le> t" using bk assms(2,3) by (auto simp: bucket_ok_def)
      ultimately show False using \<open>b_sec (w_buckets s ! ?k) \<noteq> t\<close> by simp
    qed
    then show ?thesis using arrived_at_zero [of evs t] assms by (auto simp: bucket_ok_def buckets_ok_def intro: order_trans)
  qed
  have "bucket_ok evs t k (w_buckets (RollTo t s) ! k)" if "k < 60" for k
  proof (cases "k = ?k \<and> b_sec (w_buckets s ! ?k) \<noteq> t")
    case True
    then show ?thesis using new l idx_lt by (simp add: RollTo_def Let_def kWindow_def)
  next
    case False
    then have "w_buckets (RollTo t s) ! k = w_buckets s ! k"
      by (auto simp: RollTo_def Let_def kWindow_def nth_list_update)
    then show ?thesis using assms(1,2) that bucket_ok_later by (auto simp: buckets_ok_def)
  qed
  then show ?thesis using assms l idx_lt by (auto simp: buckets_ok_def RollTo_def Let_def kWindow_def)
qed

lemma OnReport_buckets: "w_buckets (OnReport v t s) = w_buckets (AddBucket (v_frameLen v) t s)"
  by (auto simp: OnReport_def AddBucket_def RollTo_def Let_def)

lemma arrived_at_snoc: "arrived_at (evs @ [(v, t)]) u = arrived_at evs u + (if u = t then 1 else 0)"
  by (simp add: arrived_at_def)

lemma OnReport_ok:
  assumes "buckets_ok evs now s" "now \<le> t" "0 < t" "length evs < 2 ^ 64 - 1"
  shows "buckets_ok (evs @ [(v, t)]) t (OnReport v t s)"
proof -
  let ?k = "nat (t mod 60)" and ?s = "RollTo t s"
  have r: "buckets_ok evs t ?s" "b_sec (w_buckets ?s ! ?k) = t" using RollTo_ok [OF assms(1-3)] by auto
  have l: "length (w_buckets ?s) = 60" using r(1) by (simp add: buckets_ok_def)
  have bk: "bucket_ok evs t ?k (w_buckets ?s ! ?k)" using r(1) idx_lt by (simp add: buckets_ok_def)
  have cnt: "unat (b_frames (w_buckets ?s ! ?k)) = arrived_at evs t" using bk r(2) assms(3) by (auto simp: bucket_ok_def)
  have "arrived_at evs t < 2 ^ 64 - 1"
    unfolding arrived_at_def by (rule le_less_trans [OF length_filter_le assms(4)])
  then have inc: "unat (b_frames (w_buckets ?s ! ?k) + 1) = arrived_at evs t + 1"
    using cnt by (simp add: unat_word_ariths)
  have b: "w_buckets (OnReport v t s) = (w_buckets ?s)[?k := (w_buckets ?s ! ?k)
      \<lparr>b_frames := b_frames (w_buckets ?s ! ?k) + 1, b_bytes := b_bytes (w_buckets ?s ! ?k) + ucast (v_frameLen v)\<rparr>]"
    unfolding OnReport_buckets by (simp add: AddBucket_def Let_def kWindow_def)
  have "bucket_ok (evs @ [(v, t)]) t k (w_buckets (OnReport v t s) ! k)" if "k < 60" for k
  proof (cases "k = ?k")
    case True
    then show ?thesis using bk r(2) inc l idx_lt assms(3)
      by (simp add: b bucket_ok_def arrived_at_snoc ball_Un)
  next
    case False
    have bk2: "bucket_ok evs t k (w_buckets ?s ! k)" using r(1) that by (simp add: buckets_ok_def)
    have "b_sec (w_buckets ?s ! k) \<noteq> t \<or> b_sec (w_buckets ?s ! k) = 0"
      using bk2 False by (auto simp: bucket_ok_def)
    then show ?thesis using bk2 False assms(3) by (auto simp: b bucket_ok_def arrived_at_snoc)
  qed
  moreover have "\<forall>e \<in> set (evs @ [(v, t)]). 0 < snd e \<and> snd e \<le> t" using r(1) assms(3) by (auto simp: buckets_ok_def)
  ultimately show ?thesis using l b by (simp add: buckets_ok_def)
qed

lemma init_buckets_ok: "buckets_ok [] t init_Stats"
  by (simp add: buckets_ok_def init_Stats_def bucket_ok_def empty_bucket_def)

lemma run_reports_ok:
  assumes "sorted (map snd evs)" "\<forall>e \<in> set evs. 0 < snd e" "length evs < 2 ^ 64" "\<forall>e \<in> set evs. snd e \<le> now"
  shows "buckets_ok evs now (run_reports evs init_Stats)"
  using assms
proof (induction evs arbitrary: now rule: rev_induct)
  case Nil
  then show ?case by (simp add: run_reports_def init_buckets_ok)
next
  case (snoc e evs)
  obtain v t where e: "e = (v, t)" by (cases e)
  have "buckets_ok evs t (run_reports evs init_Stats)"
    using snoc.prems by (intro snoc.IH) (auto simp: sorted_append e)
  from OnReport_ok [OF this order_refl, of v] snoc.prems
  have "buckets_ok (evs @ [e]) t (run_reports (evs @ [e]) init_Stats)" by (simp add: run_reports_def e)
  moreover have "t \<le> now" using snoc.prems by (simp add: e)
  ultimately show ?case using bucket_ok_later by (fastforce simp: buckets_ok_def)
qed

text \<open>The 60 rounds of the sum visit the seconds \<open>now - 1\<close> back to \<open>now - 60\<close>, the last of which
  falls on the bucket of the current second.\<close>

lemma window_round:
  assumes ok: "buckets_ok evs now s" and cur: "b_sec (w_buckets s ! nat (now mod 60)) = now"
    and i: "1 \<le> i" "i \<le> 60" and now: "60 < now"
  shows "(let b = w_buckets s ! nat ((now - int i + kWindow * 4) mod kWindow)
     in if counted now b then unat (b_frames b) else 0) =
    (if i = 60 then arrived_at evs now else arrived_at evs (now - int i))"
proof -
  let ?k = "nat ((now - int i) mod 60)"
  let ?b = "w_buckets s ! ?k"
  define u where "u = (if i = 60 then now else now - int i)"
  have u: "u \<le> now" "now - 60 < u" "0 < u" using i now by (auto simp: u_def)
  have k: "nat ((now - int i + kWindow * 4) mod kWindow) = ?k"
    using mod_mult_self1 [of "now - int i" 4 60] by (simp add: kWindow_def)
  have kt: "?k = nat (u mod 60)" by (cases "i = 60") (simp_all add: u_def)
  have bk: "bucket_ok evs now ?k ?b" using ok idx_lt by (simp add: buckets_ok_def)
  note bkD = bk [unfolded bucket_ok_def]
  have le: "b_sec ?b \<le> now" using bkD now by auto
  have eq: "counted now ?b \<longleftrightarrow> b_sec ?b = u"
  proof
    assume c: "counted now ?b"
    then have pos: "0 < b_sec ?b" "now - b_sec ?b \<le> 60" by (simp_all add: counted_def kWindow_def)
    show "b_sec ?b = u"
    proof (cases "i = 60")
      case True
      then have "?k = nat (now mod 60)" by simp
      then show ?thesis using True cur by (simp add: u_def)
    next
      case False
      have "nat (b_sec ?b mod 60) = nat (u mod 60)" using bkD pos(1) kt by auto
      then have "b_sec ?b mod 60 = u mod 60" by (simp add: eq_nat_nat_iff)
      then have "60 dvd b_sec ?b - u" by (simp add: mod_eq_dvd_iff)
      then obtain c where c: "b_sec ?b - u = 60 * c" by (elim dvdE)
      have "u < now" using False i by (simp add: u_def)
      then have "60 * c \<le> 59" "- 60 < 60 * c" using c le pos(2) u(1,2) False i by (auto simp: u_def)
      then have "c = 0" by linarith
      then show ?thesis using c by simp
    qed
  qed (use u in \<open>simp add: counted_def kWindow_def\<close>)
  have none: "arrived_at evs u = 0" if "b_sec ?b \<noteq> u"
  proof (rule arrived_at_zero)
    fix e assume e: "e \<in> set evs"
    show "snd e \<noteq> u"
    proof
      assume t: "snd e = u"
      then have "u \<le> b_sec ?b" using bkD e kt by metis
      then have "counted now ?b" using u le by (simp add: counted_def kWindow_def)
      with eq that show False by simp
    qed
  qed
  have "unat (b_frames ?b) = arrived_at evs u" if "b_sec ?b = u" using that bkD u(3) by auto
  then have "(if counted now ?b then unat (b_frames ?b) else 0) = arrived_at evs u" using eq none by simp
  then show ?thesis using k by (simp add: Let_def u_def)
qed

definition arrived_in :: "arrivals \<Rightarrow> int \<Rightarrow> int \<Rightarrow> nat" where
  "arrived_in evs a b = length (filter (\<lambda>e. a < snd e \<and> snd e \<le> b) evs)"

lemma arrived_in_step:
  assumes "a < b"
  shows "arrived_in evs a b = arrived_at evs b + arrived_in evs a (b - 1)"
  using assms by (induction evs) (auto simp: arrived_in_def arrived_at_def)

lemma arrived_in_sum: "arrived_in evs (now - int n) now = (\<Sum>i\<leftarrow>[0..<n]. arrived_at evs (now - int i))"
proof (induction n)
  case 0
  have "filter (\<lambda>e. now < snd e \<and> snd e \<le> now) evs = []" by (simp add: filter_empty_conv)
  then show ?case by (simp add: arrived_in_def)
next
  case (Suc n)
  have "arrived_in evs (now - int (Suc n)) now =
      arrived_in evs (now - int n) now + arrived_at evs (now - int n)"
    by (induction evs) (auto simp: arrived_in_def arrived_at_def)
  then show ?case using Suc by simp
qed

lemma window_sum_frames:
  assumes "buckets_ok evs now s" "b_sec (w_buckets s ! nat (now mod 60)) = now" "60 < now"
  shows "window_sum b_frames now s = arrived_in evs (now - 60) now"
proof -
  have up: "[1..<61] = [1..<60] @ [60 :: nat]" using upt_Suc_append [of 1 60] by (simp del: upt_rec_numeral upt_Suc)
  have "window_sum b_frames now s =
      (\<Sum>i\<leftarrow>[1..<61]. if i = 60 then arrived_at evs now else arrived_at evs (now - int i))"
    unfolding window_sum_def using window_round [OF assms(1,2) _ _ assms(3)]
    by (intro arg_cong [of _ _ sum_list] map_cong refl) (auto simp del: upt_rec_numeral)
  also have "\<dots> = (\<Sum>i\<leftarrow>[1..<60]. arrived_at evs (now - int i)) + arrived_at evs now"
  proof -
    have "map (\<lambda>i. if i = 60 then arrived_at evs now else arrived_at evs (now - int i)) [1..<60] =
        map (\<lambda>i. arrived_at evs (now - int i)) [1..<60]"
      by (rule map_cong) (auto simp del: upt_rec_numeral)
    then show ?thesis unfolding up map_append sum_list_append by (simp only: list.map sum_list.Cons sum_list.Nil) simp
  qed
  also have "\<dots> = (\<Sum>i\<leftarrow>[0..<60]. arrived_at evs (now - int i))"
  proof -
    have "[0..<60] = 0 # [1..<60 :: nat]" by (simp add: upt_conv_Cons del: upt_rec_numeral)
    then show ?thesis by (simp del: upt_rec_numeral)
  qed
  also have "\<dots> = arrived_in evs (now - 60) now" using arrived_in_sum [of evs now 60] by simp
  finally show ?thesis .
qed

text \<open>The sequence counter: jumps between neighbouring reports.\<close>

fun seq_jumps :: "u32 list \<Rightarrow> nat" where
  "seq_jumps (a # b # rest) = (if b = a + 1 then 0 else 1) + seq_jumps (b # rest)"
| "seq_jumps _ = 0"

lemma AddBucket_fields [simp]:
  "w_totalFrames (AddBucket n t s) = w_totalFrames s" "w_gaps (AddBucket n t s) = w_gaps s"
  "w_lastSeq (AddBucket n t s) = w_lastSeq s" "w_hasLastSeq (AddBucket n t s) = w_hasLastSeq s"
  "w_lastTaskId (AddBucket n t s) = w_lastTaskId s" "w_totalBytes (AddBucket n t s) = w_totalBytes s"
  by (simp_all add: AddBucket_def RollTo_def Let_def)

lemma run_reports_counters:
  "w_totalFrames (run_reports evs s) = w_totalFrames s + of_nat (length evs) \<and>
   w_gaps (run_reports evs s) = w_gaps s + of_nat (seq_jumps
     ((if w_hasLastSeq s then [w_lastSeq s] else []) @ map (\<lambda>e. v_seq (fst e)) evs))"
proof (induction evs arbitrary: s)
  case Nil
  show ?case by (simp add: run_reports_def)
next
  case (Cons e evs)
  obtain v t where e: "e = (v, t)" by (cases e)
  have f: "w_hasLastSeq (OnReport v t s)" "w_lastSeq (OnReport v t s) = v_seq v"
    "w_totalFrames (OnReport v t s) = w_totalFrames s + 1"
    "w_gaps (OnReport v t s) = w_gaps s + (if w_hasLastSeq s \<and> v_seq v \<noteq> w_lastSeq s + 1 then 1 else 0)"
    by (simp_all add: OnReport_def Let_def)
  have "run_reports (e # evs) s = run_reports evs (OnReport v t s)" by (simp add: run_reports_def e)
  then show ?case using Cons.IH [of "OnReport v t s"] f by (simp add: e add.assoc)
qed

text \<open>C15: What the observation page is told. After reports with non-decreasing arrival seconds, the
  snapshot counts every report, counts one gap for each pair of neighbouring reports whose
  sequence numbers do not follow each other (modulo 2^32), and the sum that it divides by 5
  and labels \<open>fps_5s\<close> is the number of reports of the last 60 seconds, the current one included:
  at a steady rate it shows twelve times the rate.\<close>

theorem Snapshot_window:
  assumes "sorted (map snd evs)" "\<forall>e \<in> set evs. 0 < snd e" "\<forall>e \<in> set evs. snd e \<le> now" "60 < now"
    and "length evs < 2 ^ 64"
  shows "let sn = fst (SnapshotJson now (run_reports evs init_Stats)) in
    unat (sn_frames sn) = length evs \<and>
    sn_gaps sn = of_nat (seq_jumps (map (\<lambda>e. v_seq (fst e)) evs)) \<and>
    sn_fps_times_5 sn = arrived_in evs (now - 60) now"
proof -
  let ?s = "run_reports evs init_Stats"
  have ok: "buckets_ok evs now ?s" by (rule run_reports_ok) (use assms in auto)
  have r: "buckets_ok evs now (RollTo now ?s)" "b_sec (w_buckets (RollTo now ?s) ! nat (now mod 60)) = now"
    using RollTo_ok [OF ok order_refl] assms(4) by auto
  have c: "w_totalFrames ?s = of_nat (length evs)" "w_gaps ?s = of_nat (seq_jumps (map (\<lambda>e. v_seq (fst e)) evs))"
    using run_reports_counters [of evs init_Stats] by (auto simp: init_Stats_def)
  have roll: "w_totalFrames (RollTo now ?s) = w_totalFrames ?s" "w_gaps (RollTo now ?s) = w_gaps ?s"
    by (simp_all add: RollTo_def Let_def)
  have "unat (of_nat (length evs) :: u64) = length evs" using assms(5) by (simp add: unat_of_nat)
  then show ?thesis using window_sum_frames [OF r assms(4)] c roll by (simp add: SnapshotJson_def Let_def)
qed

theorem Snapshot_window_witness:
  "sn_fps_times_5 (fst (SnapshotJson 100 (run_reports (map (\<lambda>i. (zero_view, int i)) [41..<101]) init_Stats))) = 60"
proof -
  have f: "filter (\<lambda>i. 40 < i \<and> i \<le> 100) [41..<101] = [41..<101]"
    by (rule filter_True) auto
  have "arrived_in (map (\<lambda>i. (zero_view, int i)) [41..<101]) (100 - 60) 100 = 60"
    using f by (simp add: arrived_in_def filter_map comp_def del: upt_rec_numeral)
  moreover have "sorted (map int [41..<101])"
    by (rule sorted_map_mono) (auto simp: mono_on_def simp del: upt_rec_numeral)
  ultimately show ?thesis
    using Snapshot_window [of "map (\<lambda>i. (zero_view, int i)) [41..<101]" 100]
    by (simp add: Let_def comp_def del: upt_rec_numeral)
qed

end
