(* ===== verification/Pipeline.thy ===== *)
theory Pipeline
  imports Data_Factory Web_Report
begin

text \<open>
  The data path across components: what \<open>DataFactory::Process\<close> publishes is what the web server
  parses and counts. A full 32 KiB frame becomes one 34782-byte report that parses to 500 slices
  with ids 1 to 500; a frame too short for any slice uses up a sequence number without
  publishing, which the web server later counts as a lost report.
\<close>

lemma ids_min_eq:
  "d \<in> fst ` set ss \<Longrightarrow> (\<forall>s \<in> set ss. d \<le> fst s) \<Longrightarrow> d \<le> m \<Longrightarrow> ids_min m ss = d"
proof -
  have le: "ids_min m ss = d" if "m = d" "\<forall>s \<in> set ss. d \<le> fst s" for m ss
    using that by (induction ss arbitrary: m) (auto simp: ids_min_def)
  show "d \<in> fst ` set ss \<Longrightarrow> (\<forall>s \<in> set ss. d \<le> fst s) \<Longrightarrow> d \<le> m \<Longrightarrow> ids_min m ss = d"
  proof (induction ss arbitrary: m)
    case (Cons s ss)
    show ?case
    proof (cases "fst s = d")
      case True
      then show ?thesis using le [of d ss] Cons.prems by (auto simp: ids_min_def)
    next
      case False
      then show ?thesis using Cons.IH [of "if fst s < m then fst s else m"] Cons.prems by (auto simp: ids_min_def)
    qed
  qed simp
qed

lemma ids_max_eq:
  "d \<in> fst ` set ss \<Longrightarrow> (\<forall>s \<in> set ss. fst s \<le> d) \<Longrightarrow> m \<le> d \<Longrightarrow> ids_max m ss = d"
proof -
  have le: "ids_max m ss = d" if "m = d" "\<forall>s \<in> set ss. fst s \<le> d" for m ss
    using that by (induction ss arbitrary: m) (auto simp: ids_max_def)
  show "d \<in> fst ` set ss \<Longrightarrow> (\<forall>s \<in> set ss. fst s \<le> d) \<Longrightarrow> m \<le> d \<Longrightarrow> ids_max m ss = d"
  proof (induction ss arbitrary: m)
    case (Cons s ss)
    show ?case
    proof (cases "fst s = d")
      case True
      then show ?thesis using le [of d ss] Cons.prems by (auto simp: ids_max_def)
    next
      case False
      then show ?thesis using Cons.IH [of "if fst s > m then fst s else m"] Cons.prems by (auto simp: ids_max_def)
    qed
  qed simp
qed

lemma cell_ids_range:
  assumes "set is = {..<500}"
  shows "ids_min 0xFFFF (map (cell_slice raw) is) = 1" "ids_max 0 (map (cell_slice raw) is) = 500"
proof -
  have u: "unat (fst (cell_slice raw i)) = 1 + i" if "i \<in> set is" for i
    using that assms unat_cell_id [of i] by (simp add: cell_slice_def)
  show "ids_min 0xFFFF (map (cell_slice raw) is) = 1"
  proof (rule ids_min_eq)
    have "0 \<in> set is" using assms by simp
    then show "1 \<in> fst ` set (map (cell_slice raw) is)" by (force simp: cell_slice_def)
    show "\<forall>s \<in> set (map (cell_slice raw) is). 1 \<le> fst s" using u by (auto simp: word_le_nat_alt)
  qed simp
  show "ids_max 0 (map (cell_slice raw) is) = 500"
  proof (rule ids_max_eq)
    have "499 \<in> set is" using assms by simp
    then show "500 \<in> fst ` set (map (cell_slice raw) is)" by (force simp: cell_slice_def)
    show "\<forall>s \<in> set (map (cell_slice raw) is). fst s \<le> 500" using u assms by (auto simp: word_le_nat_alt)
  qed simp
qed

lemma full_frame_report:
  assumes "distinct order" "set order = dom (InitExtractors Map.empty)" "length raw = unat kRawLen"
    and "factory_ready f j r"
    and "AcquireBlock 0 10 (ExtractRawKey 0 (Some raw) kRawLen) (f_tick f) (f_mem f) = (Some p, im')"
  shows "\<exists>f' frame v r'. Process FULL us (InitExtractors Map.empty) order (Some raw) kRawLen 0 f = f' \<and>
    f_published f' = f_published f @ [frame] \<and> length frame = 34782 \<and>
    ParseReport (Some frame) 34782 zero_view = (True, v) \<and>
    v_taskId v = f_currentTask f \<and> v_seq v = f_seq f + 1 \<and> v_timestampMs v = ucast (f_tick f) * 100 \<and>
    v_sliceCount v = 500 \<and> v_dataIdMin v = 1 \<and> v_dataIdMax v = 500 \<and>
    s_frames (f_stats f') = s_frames (f_stats f) + 1 \<and> m_drops (f_agg f') = m_drops (f_agg f) \<and>
    f_seq f' = f_seq f + 1 \<and> factory_ready f' j r'"
proof -
  from Process_cells [OF assms, of us] obtain f' "is" pad ss r' where
    f': "Process FULL us (InitExtractors Map.empty) order (Some raw) kRawLen 0 f = f'"
      "distinct is" "set is = {i. i < 500 \<and> in_frame (length raw) i}" "ss = map (cell_slice raw) is" "length pad = 4"
      "f_published f' = f_published f @ (if ss = [] then [] else [report_of f pad ss])"
      "m_drops (f_agg f') = m_drops (f_agg f)" "f_seq f' = f_seq f + 1"
      "s_frames (f_stats f') = s_frames (f_stats f) + 1" "factory_ready f' j r'" by blast
  have all: "in_frame (length raw) i" if "i < 500" for i
    using slice_end [OF that] assms(3) by (simp add: in_frame_def kRawLen_def)
  then have iset: "set is = {..<500}" using f'(3) by auto
  have pl: "length (payload ss) = 34758"
    unfolding f'(4) by (rule payload_cells(2)) (use f'(2) iset all in auto)
  have n: "length ss = 500" using distinct_card [OF f'(2)] iset f'(4) by simp
  have ne: "ss \<noteq> []" using n by auto
  have short: "\<forall>s \<in> set ss. length (snd s) < 65536" unfolding f'(4) using iset cell_slice_short by auto
  let ?fr = "report_of f pad ss"
  have len: "length ?fr = 34782" using pl f'(5) by (simp add: report_of_def report_frame_def)
  obtain v where v: "ParseReport (Some ?fr) (of_nat (length ?fr)) zero_view = (True, v)"
    "v_taskId v = f_currentTask f" "v_timestampMs v = ucast (f_tick f) * 100" "v_seq v = f_seq f + 1"
    "unat (v_sliceCount v) = length ss" "v_dataIdMin v = ids_min 0xFFFF ss" "v_dataIdMax v = ids_max 0 ss"
    using parse_frame [OF f'(5) short _ _ _ ne, of ?fr "f_currentTask f" "ucast (f_tick f) * 100" "f_seq f + 1"] n pl
    unfolding report_of_def by auto
  have "v_sliceCount v = 500" using v(5) n by (simp add: word_unat_eq_iff)
  then show ?thesis
    using f' v len ne cell_ids_range [OF iset, of raw] unfolding f'(4) [symmetric]
    by (intro exI [of _ f'] exI [of _ ?fr] exI [of _ v] exI [of _ r']) simp
qed

text \<open>A full frame reaches the web page whole. Processing a 32768-byte frame publishes exactly one
  report of 34782 bytes, which the web server's parser reads as 500 slices with ids 1 to 500, the
  current task, the next sequence number and the tick time; no slice is dropped and the frame
  is counted once.\<close>

theorem Full_frame_reaches_web:
  assumes "distinct order" "set order = dom (InitExtractors Map.empty)" "length raw = unat kRawLen"
    and "factory_ready f j r"
    and "AcquireBlock 0 10 (ExtractRawKey 0 (Some raw) kRawLen) (f_tick f) (f_mem f) = (Some p, im')"
  shows "\<exists>f' frame v. Process FULL us (InitExtractors Map.empty) order (Some raw) kRawLen 0 f = f' \<and>
    f_published f' = f_published f @ [frame] \<and> length frame = 34782 \<and>
    ParseReport (Some frame) 34782 zero_view = (True, v) \<and>
    v_taskId v = f_currentTask f \<and> v_seq v = f_seq f + 1 \<and> v_timestampMs v = ucast (f_tick f) * 100 \<and>
    v_sliceCount v = 500 \<and> v_dataIdMin v = 1 \<and> v_dataIdMax v = 500 \<and>
    s_frames (f_stats f') = s_frames (f_stats f) + 1 \<and> m_drops (f_agg f') = m_drops (f_agg f)"
  using full_frame_report [OF assms, of us] by blast

theorem Full_frame_reaches_web_witness:
  "\<exists>frame. f_published (Process FULL 5 (InitExtractors Map.empty) start_order (Some (replicate 32768 7)) kRawLen 0
     (start_factory 9)) = [frame] \<and> length frame = 34782"
proof -
  have l: "length (replicate 32768 (7 :: u8)) = unat kRawLen" by (simp only: length_replicate kRawLen_def) simp
  obtain p im' where a: "AcquireBlock 0 10 (ExtractRawKey 0 (Some (replicate 32768 7)) kRawLen) (f_tick (start_factory 9))
      (f_mem (start_factory 9)) = (Some p, im')" using start_factory_acquire by blast
  have r: "factory_ready (start_factory 9) 0 (region0 (\<lambda>n. replicate n 0))" by (rule start_factory_ready) simp
  have f: "f_published (start_factory 9) = []"
    by (simp add: start_factory_def OnTask_def SetReportSink_def new_factory_def)
  from Full_frame_reaches_web [OF start_order_ok l r a, of 5] show ?thesis unfolding f append_Nil by blast
qed

text \<open>C11: A short frame looks like a lost report. Let a full frame be followed by a frame of the same
  object that is too short for any slice (less than 177 bytes) and by another full frame. Two
  reports are published, both arrive, and yet the web server's counter records a gap, because
  the short frame took a sequence number and published nothing.\<close>

theorem Short_frame_makes_gap:
  assumes "distinct order" "set order = dom (InitExtractors Map.empty)"
    and "length raw = unat kRawLen" "length short = unat len" "unat len < 177"
    and "ExtractRawKey 0 (Some short) len = ExtractRawKey 0 (Some raw) kRawLen"
    and "factory_ready f j r"
    and "AcquireBlock 0 10 (ExtractRawKey 0 (Some raw) kRawLen) (f_tick f) (f_mem f) = (Some p, im')"
  shows "let proc = (\<lambda>raw len. Process FULL us (InitExtractors Map.empty) order (Some raw) len 0) in
    \<exists>a b va vb. f_published (proc raw kRawLen (proc short len (proc raw kRawLen f))) = f_published f @ [a, b] \<and>
      ParseReport (Some a) 34782 zero_view = (True, va) \<and> ParseReport (Some b) 34782 zero_view = (True, vb) \<and>
      w_gaps (OnReport vb now' (OnReport va now init_Stats)) = 1"
proof -
  let ?P = "\<lambda>raw len. Process FULL us (InitExtractors Map.empty) order (Some raw) len 0"
  let ?f1 = "?P raw kRawLen f" and ?f2 = "?P short len (?P raw kRawLen f)"
  obtain a va r1 where 1: "f_published ?f1 = f_published f @ [a]" "ParseReport (Some a) 34782 zero_view = (True, va)"
    "v_seq va = f_seq f + 1" "f_seq ?f1 = f_seq f + 1" "factory_ready ?f1 j r1"
    using full_frame_report [OF assms(1-3,7,8), of us] by blast
  have acq1: "\<exists>q m. AcquireBlock 0 10 (ExtractRawKey 0 (Some raw) kRawLen) t (f_mem ?f1) = (Some q, m)" for t
    using Process_cells [OF assms(1-3,7,8), of us] by blast
  then obtain q m where "AcquireBlock 0 10 (ExtractRawKey 0 (Some short) len) (f_tick ?f1) (f_mem ?f1) = (Some q, m)"
    unfolding assms(6) by blast
  from Process_cells [OF assms(1,2,4) 1(5) this, of us] obtain "is" pad ss r2 where
    2: "set is = {i. i < 500 \<and> in_frame (length short) i}" "ss = map (cell_slice short) is"
      "f_published ?f2 = f_published ?f1 @ (if ss = [] then [] else [report_of ?f1 pad ss])"
      "f_seq ?f2 = f_seq ?f1 + 1" "factory_ready ?f2 j r2"
      "\<forall>t. \<exists>q m. AcquireBlock 0 10 (ExtractRawKey 0 (Some short) len) t (f_mem ?f2) = (Some q, m)" by blast
  have "\<not> in_frame (length short) i" if "i < 500" for i
  proof -
    have "slice_off 1 = 177" using slice_off_Suc [of 0] by (simp add: slice_len_def kCellCacheSizes_def)
    then have "177 \<le> slice_off i + slice_len i" using slice_off_mono [of 1 "Suc i"] that by (simp add: slice_off_Suc)
    then show ?thesis using assms(4,5) by (simp add: in_frame_def)
  qed
  then have "set is = {}" unfolding 2(1) by blast
  then have "ss = []" using 2(2) by simp
  obtain q' m' where "AcquireBlock 0 10 (ExtractRawKey 0 (Some raw) kRawLen) (f_tick ?f2) (f_mem ?f2) = (Some q', m')"
    using 2(6) unfolding assms(6) by blast
  from full_frame_report [OF assms(1-3) 2(5) this, of us] obtain b vb where
    3: "f_published (?P raw kRawLen ?f2) = f_published ?f2 @ [b]" "ParseReport (Some b) 34782 zero_view = (True, vb)"
      "v_seq vb = f_seq ?f2 + 1" by blast
  have "v_seq vb \<noteq> v_seq va + 1" using 1(3,4) 2(4) 3(3) by simp
  then have "w_gaps (OnReport vb now' (OnReport va now init_Stats)) = 1"
    by (simp add: OnReport_def Let_def init_Stats_def)
  moreover have "f_published (?P raw kRawLen ?f2) = f_published f @ [a, b]" using 1(1) 2(3) 3(1) \<open>ss = []\<close> by simp
  ultimately show ?thesis unfolding Let_def using 1(2) 3(2) by blast
qed

theorem Short_frame_makes_gap_witness:
  "\<exists>a b va vb. f_published (Process FULL 5 (InitExtractors Map.empty) start_order (Some (replicate 32768 0)) kRawLen 0
      (Process FULL 5 (InitExtractors Map.empty) start_order (Some (replicate 20 0)) 20 0
       (Process FULL 5 (InitExtractors Map.empty) start_order (Some (replicate 32768 0)) kRawLen 0 (start_factory 9)))) = [a, b] \<and>
    ParseReport (Some a) 34782 zero_view = (True, va) \<and> ParseReport (Some b) 34782 zero_view = (True, vb) \<and>
    w_gaps (OnReport vb 2 (OnReport va 1 init_Stats)) = 1"
proof -
  have l: "length (replicate 32768 (0 :: u8)) = unat kRawLen" by (simp only: length_replicate kRawLen_def) simp
  have s: "length (replicate 20 (0 :: u8)) = unat (20 :: u32)" "unat (20 :: u32) < 177" by simp_all
  have g: "get32 (replicate n 0) k = 0" if "k + 4 \<le> n" for n k
    using that by (simp add: get32_def mem_read_def numeral_eq_Suc)
  have k: "ExtractRawKey 0 (Some (replicate 20 0)) 20 = ExtractRawKey 0 (Some (replicate 32768 0)) kRawLen"
    by (simp only: ExtractRawKey_def option.case kRawLen_def) (simp add: g Let_def)
  obtain p im' where a: "AcquireBlock 0 10 (ExtractRawKey 0 (Some (replicate 32768 0)) kRawLen) (f_tick (start_factory 9))
      (f_mem (start_factory 9)) = (Some p, im')" using start_factory_acquire by blast
  have r: "factory_ready (start_factory 9) 0 (region0 (\<lambda>n. replicate n 0))" by (rule start_factory_ready) simp
  have f: "f_published (start_factory 9) = []"
    by (simp add: start_factory_def OnTask_def SetReportSink_def new_factory_def)
  from Short_frame_makes_gap [OF start_order_ok l s k r a, of 5 2 1] show ?thesis
    unfolding f append_Nil Let_def .
qed

end
