(* ===== verification/Td_Map.thy ===== *)
theory Td_Map
  imports Data_Model
begin

text \<open>
  The task information base of the data thread (\<open>tdmap_v2.h/.cpp\<close>): tasks by id, and the reverse index
  from data ids to tasks that every change rebuilds. Hash containers are walked in an order that
  is an argument: \<open>order\<close> for the task table, \<open>ids\<close> for the index, \<open>enum\<close> for a set of task ids. The
  index is proved to be exact after every sequence of changes.
\<close>

record TaskInfo =
  ti_taskId :: u32
  ti_dataIds :: "u16 list"
  ti_periodMs :: u32

record TdMapV2 =
  td_tasks :: "u32 \<Rightarrow> TaskInfo option"
  td_dataToTasks :: "u16 \<Rightarrow> u32 set option"

definition empty_td :: TdMapV2 where
  "empty_td = \<lparr>td_tasks = Map.empty, td_dataToTasks = Map.empty\<rparr>"

text \<open>\<open>m_dataToTasks[did].insert(task)\<close>: \<open>operator[]\<close> creates the missing set.\<close>

definition index_insert :: "u32 \<Rightarrow> u16 \<Rightarrow> (u16 \<Rightarrow> u32 set option) \<Rightarrow> u16 \<Rightarrow> u32 set option" where
  "index_insert task did ix = ix(did \<mapsto> insert task (case ix did of None \<Rightarrow> {} | Some S \<Rightarrow> S))"

definition RebuildIndex :: "u32 list \<Rightarrow> TdMapV2 \<Rightarrow> TdMapV2" where
  "RebuildIndex order td = td\<lparr>td_dataToTasks :=
     fold (\<lambda>k ix. case td_tasks td k of None \<Rightarrow> ix
       | Some t \<Rightarrow> fold (index_insert k) (ti_dataIds t) ix) order Map.empty\<rparr>"

definition UpsertTask :: "u32 list \<Rightarrow> TaskInfo \<Rightarrow> TdMapV2 \<Rightarrow> TdMapV2" where
  "UpsertTask order t td = RebuildIndex order (td\<lparr>td_tasks := (td_tasks td)(ti_taskId t \<mapsto> t)\<rparr>)"

definition RemoveTask :: "u32 list \<Rightarrow> u32 \<Rightarrow> TdMapV2 \<Rightarrow> TdMapV2" where
  "RemoveTask order taskId td = RebuildIndex order (td\<lparr>td_tasks := (td_tasks td)(taskId := None)\<rparr>)"

definition Empty :: "TdMapV2 \<Rightarrow> bool" where
  "Empty td \<longleftrightarrow> dom (td_tasks td) = {}"

text \<open>The loop of \<open>ActiveDataIds\<close>, with the set \<open>seen\<close> and the output.\<close>

fun active_loop :: "u16 \<Rightarrow> u16 list \<Rightarrow> u16 set \<Rightarrow> u16 list \<Rightarrow> u16 list" where
  "active_loop ty [] seen out = out"
| "active_loop ty (did # ids) seen out =
     (let s = SpecOf did in
      if ds_dataId s \<noteq> 0 \<and> ds_dataType s = ty \<and> did \<notin> seen
      then active_loop ty ids (insert did seen) (out @ [did])
      else active_loop ty ids seen out)"

definition ActiveDataIds :: "u16 list \<Rightarrow> u16 \<Rightarrow> u16 list" where
  "ActiveDataIds ids dataType = active_loop dataType ids {} []"

definition TasksOfDataId :: "(u32 set \<Rightarrow> u32 list) \<Rightarrow> u16 \<Rightarrow> TdMapV2 \<Rightarrow> u32 list" where
  "TasksOfDataId enum dataId td = (case td_dataToTasks td dataId of None \<Rightarrow> [] | Some S \<Rightarrow> enum S)"

section \<open>The index is exact\<close>

definition tracked_by :: "TdMapV2 \<Rightarrow> u16 \<Rightarrow> u32 set" where
  "tracked_by td d = {k. \<exists>t. td_tasks td k = Some t \<and> d \<in> set (ti_dataIds t)}"

definition index_exact :: "TdMapV2 \<Rightarrow> bool" where
  "index_exact td \<longleftrightarrow> (\<forall>d. td_dataToTasks td d = (if tracked_by td d = {} then None else Some (tracked_by td d)))"

lemma fold_index_insert:
  "fold (index_insert k) ds ix d =
     (if d \<in> set ds then Some (insert k (case ix d of None \<Rightarrow> {} | Some S \<Rightarrow> S)) else ix d)"
  by (induction ds arbitrary: ix) (auto simp: index_insert_def split: option.splits)

lemma fold_rebuild:
  "fold (\<lambda>k ix. case tasks k of None \<Rightarrow> ix | Some t \<Rightarrow> fold (index_insert k) (ti_dataIds t) ix) order ix d =
    (let new = {k \<in> set order. \<exists>t. tasks k = Some t \<and> d \<in> set (ti_dataIds t)} in
     if new = {} then ix d else Some (new \<union> (case ix d of None \<Rightarrow> {} | Some S \<Rightarrow> S)))"
proof (induction order arbitrary: ix)
  case (Cons k order)
  let ?ix = "case tasks k of None \<Rightarrow> ix | Some t \<Rightarrow> fold (index_insert k) (ti_dataIds t) ix"
  let ?P = "\<lambda>k. \<exists>t. tasks k = Some t \<and> d \<in> set (ti_dataIds t)"
  have d: "?ix d = (if ?P k then Some (insert k (case ix d of None \<Rightarrow> {} | Some S \<Rightarrow> S)) else ix d)"
    by (auto simp: fold_index_insert split: option.splits)
  have s: "{k' \<in> set (k # order). ?P k'} = (if ?P k then insert k {k' \<in> set order. ?P k'} else {k' \<in> set order. ?P k'})"
    by auto
  show ?case
    using Cons.IH [of ?ix] d unfolding s by (auto simp: Let_def split: if_splits)
qed simp

lemma RebuildIndex_exact:
  assumes "set order = dom (td_tasks td)"
  shows "index_exact (RebuildIndex order td) \<and> td_tasks (RebuildIndex order td) = td_tasks td"
proof -
  have "{k \<in> set order. \<exists>t. td_tasks td k = Some t \<and> d \<in> set (ti_dataIds t)} = tracked_by td d" for d
    using assms by (auto simp: tracked_by_def dom_def)
  then show ?thesis
    by (simp add: index_exact_def RebuildIndex_def fold_rebuild Let_def tracked_by_def)
qed

lemma active_loop_spec:
  assumes "distinct ids" "set ids \<inter> seen = {}"
  shows "active_loop ty ids seen out = out @ filter (\<lambda>d. ds_dataId (SpecOf d) \<noteq> 0 \<and> ds_dataType (SpecOf d) = ty) ids"
  using assms by (induction ids arbitrary: seen out) (auto simp: Let_def)

lemma SpecOf_valid: "ds_dataId (SpecOf d) \<noteq> 0 \<longleftrightarrow> 1 \<le> unat d \<and> unat d \<le> 500"
proof (cases "1 \<le> unat d \<and> unat d \<le> 500")
  case True
  then have i: "unat d - 1 < 500" by linarith
  then have "d = 1 + of_nat (unat d - 1)" using True by (simp add: word_unat_eq_iff unat_cell_id)
  then have "ds_dataId (SpecOf d) = d" using SpecOf_cell [OF i] by simp
  moreover have "d \<noteq> 0" using True by auto
  ultimately show ?thesis using True by simp
next
  case False
  then have "unat d = 0 \<or> 500 < unat d" by linarith
  then show ?thesis using SpecOf_none False by blast
qed

lemma SpecOf_type: "ds_dataType (SpecOf d) = 0"
  by (simp add: SpecOf_def Let_def)

text \<open>C18: The reverse index answers for the task table. Whatever the order in which the hash table is
  walked, after \<open>UpsertTask\<close> and after \<open>RemoveTask\<close> the tasks of a data id are exactly those whose
  list has it, in particular the upserted task with its new list, and not the removed one;
  and the active set lists exactly the tracked ids between 1 and 500, each once, for type CELL
  and nothing for UE.\<close>

theorem TdMap_index_exact:
  assumes "set o1 = insert (ti_taskId t) (dom (td_tasks td))" "set o2 = dom (td_tasks td) - {k}"
    and "\<And>S. set (enum S) = S"
    and "distinct ids" "set ids = dom (td_dataToTasks (UpsertTask o1 t td))"
  shows "set (TasksOfDataId enum d (UpsertTask o1 t td)) =
      {i. if i = ti_taskId t then d \<in> set (ti_dataIds t)
          else \<exists>t'. td_tasks td i = Some t' \<and> d \<in> set (ti_dataIds t')} \<and>
    set (TasksOfDataId enum d (RemoveTask o2 k td)) =
      {i. i \<noteq> k \<and> (\<exists>t'. td_tasks td i = Some t' \<and> d \<in> set (ti_dataIds t'))} \<and>
    distinct (ActiveDataIds ids ty) \<and>
    set (ActiveDataIds ids ty) = {a. ty = 0 \<and> 1 \<le> unat a \<and> unat a \<le> 500 \<and>
      set (TasksOfDataId enum a (UpsertTask o1 t td)) \<noteq> {}}"
proof -
  let ?u = "UpsertTask o1 t td" and ?r = "RemoveTask o2 k td"
  have u: "index_exact ?u" "td_tasks ?u = (td_tasks td)(ti_taskId t \<mapsto> t)"
    unfolding UpsertTask_def using RebuildIndex_exact [of o1 "td\<lparr>td_tasks := (td_tasks td)(ti_taskId t \<mapsto> t)\<rparr>"] assms(1)
    by simp_all
  have r: "index_exact ?r" "td_tasks ?r = (td_tasks td)(k := None)"
    unfolding RemoveTask_def using RebuildIndex_exact [of o2 "td\<lparr>td_tasks := (td_tasks td)(k := None)\<rparr>"] assms(2)
    by simp_all
  have tasks: "set (TasksOfDataId enum d x) = tracked_by x d" if "index_exact x" for x d
    using that assms(3) by (simp add: index_exact_def TasksOfDataId_def)
  have act: "ActiveDataIds ids ty = filter (\<lambda>d. ds_dataId (SpecOf d) \<noteq> 0 \<and> ds_dataType (SpecOf d) = ty) ids"
    using active_loop_spec [OF assms(4), of "{}"] by (simp add: ActiveDataIds_def)
  have "set (TasksOfDataId enum d ?u) = {i. if i = ti_taskId t then d \<in> set (ti_dataIds t)
          else \<exists>t'. td_tasks td i = Some t' \<and> d \<in> set (ti_dataIds t')}"
    using tasks [OF u(1)] u(2) by (auto simp: tracked_by_def)
  moreover have "set (TasksOfDataId enum d ?r) = {i. i \<noteq> k \<and> (\<exists>t'. td_tasks td i = Some t' \<and> d \<in> set (ti_dataIds t'))}"
    using tasks [OF r(1)] r(2) by (auto simp: tracked_by_def)
  moreover have "set ids = {a. tracked_by ?u a \<noteq> {}}"
    unfolding assms(5) using u(1) by (auto simp: index_exact_def dom_def split: if_splits)
  then have "set (ActiveDataIds ids ty) = {a. ty = 0 \<and> 1 \<le> unat a \<and> unat a \<le> 500 \<and>
      set (TasksOfDataId enum a ?u) \<noteq> {}}"
    unfolding act tasks [OF u(1)] by (auto simp: SpecOf_valid SpecOf_type)
  ultimately show ?thesis using assms(4) by (simp add: act)
qed

theorem TdMap_index_exact_witness:
  "set (ActiveDataIds [5, 600] 0) = {5} \<and> ActiveDataIds [5] 0 = [5]"
proof -
  let ?t = "\<lparr>ti_taskId = 1, ti_dataIds = [5, 600], ti_periodMs = 1000\<rparr>"
  let ?enum = "sorted_list_of_set :: u32 set \<Rightarrow> u32 list"
  have e: "set (?enum S) = S" for S by simp
  have ix: "td_dataToTasks (UpsertTask [1] ?t empty_td) = [5 \<mapsto> {1}, 600 \<mapsto> {1}]"
    by (simp add: UpsertTask_def RebuildIndex_def empty_td_def index_insert_def fun_eq_iff)
  have "set (ActiveDataIds [5, 600] 0) = {a. (0 :: u16) = 0 \<and> 1 \<le> unat a \<and> unat a \<le> 500 \<and>
      set (TasksOfDataId ?enum a (UpsertTask [1] ?t empty_td)) \<noteq> {}}"
    using TdMap_index_exact [of "[1]" ?t empty_td "[]" 9 ?enum "[5, 600]" 5 0] e ix by (simp add: empty_td_def insert_commute)
  also have "\<dots> = {5}" using e ix by (auto simp: TasksOfDataId_def split: if_splits)
  finally have s: "set (ActiveDataIds [5, 600] 0) = {5}" .
  then show ?thesis by (simp add: ActiveDataIds_def Let_def SpecOf_valid SpecOf_type)
qed

end
