(* ===== verification/Routing.thy ===== *)
theory Routing
  imports Prelude_DTS
begin

text \<open>
  The three-level message routing (\<open>infrastructure/include/msg_table.h\<close> and the message ids of
  \<open>dts_def.h\<close>): tables from message id to handler, groups of tables by session instance, and the
  two compile-time checks. A handler acts on the state of its thread. The checks are proved to
  be exactly what makes the two lookups unambiguous.
\<close>

section \<open>Message ids and sessions (dts\_def.h)\<close>

definition MSG_ID_STATUS :: u32 where "MSG_ID_STATUS = 0x0000"
definition MSG_ID_TASK_ACTIVE :: u32 where "MSG_ID_TASK_ACTIVE = 0x0001"
definition MSG_ID_DATA_TASK_ACTIVE :: u32 where "MSG_ID_DATA_TASK_ACTIVE = 0x0002"
definition MSG_ID_AGENT_DATA :: u32 where "MSG_ID_AGENT_DATA = 0x0003"
definition MSG_ID_REPORT :: u32 where "MSG_ID_REPORT = 0x0004"
definition MSG_ID_LOG_COLLECT :: u32 where "MSG_ID_LOG_COLLECT = 0x0005"
definition MSG_ID_LOG_REPORT :: u32 where "MSG_ID_LOG_REPORT = 0x0006"
definition MSG_ID_TASK_CONFIG :: u32 where "MSG_ID_TASK_CONFIG = 0x0007"
definition MSG_ID_TASK_RESPONSE :: u32 where "MSG_ID_TASK_RESPONSE = 0x0008"
definition MSG_ID_TIMER :: u32 where "MSG_ID_TIMER = 0x0009"
definition MSG_ID_OAM_STATS_REQ :: u32 where "MSG_ID_OAM_STATS_REQ = 0x000A"
definition MSG_ID_OAM_STATS_RESP :: u32 where "MSG_ID_OAM_STATS_RESP = 0x000B"
definition MSG_ID_OAM_CMD_REQ :: u32 where "MSG_ID_OAM_CMD_REQ = 0x000C"
definition MSG_ID_OAM_CMD_RESP :: u32 where "MSG_ID_OAM_CMD_RESP = 0x000D"

definition SESSION_TYPE_DTS :: string where "SESSION_TYPE_DTS = ''DTS''"
definition SESSION_INST_TASK :: string where "SESSION_INST_TASK = ''task''"
definition SESSION_INST_DATA :: string where "SESSION_INST_DATA = ''data''"
definition SESSION_INST_LOG :: string where "SESSION_INST_LOG = ''log''"
definition SESSION_INST_OAM :: string where "SESSION_INST_OAM = ''oam''"

lemmas msg_id_defs = MSG_ID_STATUS_def MSG_ID_TASK_ACTIVE_def MSG_ID_DATA_TASK_ACTIVE_def MSG_ID_AGENT_DATA_def
  MSG_ID_REPORT_def MSG_ID_LOG_COLLECT_def MSG_ID_LOG_REPORT_def MSG_ID_TASK_CONFIG_def MSG_ID_TASK_RESPONSE_def
  MSG_ID_TIMER_def MSG_ID_OAM_STATS_REQ_def MSG_ID_OAM_STATS_RESP_def MSG_ID_OAM_CMD_REQ_def MSG_ID_OAM_CMD_RESP_def

lemmas session_defs = SESSION_TYPE_DTS_def SESSION_INST_TASK_def SESSION_INST_DATA_def SESSION_INST_LOG_def
  SESSION_INST_OAM_def

section \<open>Tables\<close>

text \<open>A handler gets the payload (\<open>None\<close> is the null pointer) and its length.\<close>

type_synonym 's handler_fn = "bytes option \<Rightarrow> u32 \<Rightarrow> 's \<Rightarrow> 's"

record 's MsgHandler =
  mh_msgId :: u32
  mh_fn :: "'s handler_fn option"
  mh_name :: cstr

type_synonym 's MsgTable = "'s MsgHandler list"

fun Find_handler :: "u32 \<Rightarrow> 's MsgTable \<Rightarrow> 's MsgHandler option" where
  "Find_handler msgId [] = None"
| "Find_handler msgId (h # hs) = (if mh_msgId h = msgId then Some h else Find_handler msgId hs)"

definition Dispatch_table :: "'s MsgTable \<Rightarrow> u32 \<Rightarrow> bytes option \<Rightarrow> u32 \<Rightarrow> 's \<Rightarrow> bool \<times> 's" where
  "Dispatch_table tb msgId data len s = (case Find_handler msgId tb of
     None \<Rightarrow> (False, s)
   | Some h \<Rightarrow> (case mh_fn h of None \<Rightarrow> (False, s) | Some fn \<Rightarrow> (True, fn data len s)))"

record 's SessionMsgTable =
  sg_sessionType :: cstr
  sg_sessionInst :: cstr
  sg_entries :: "'s MsgTable option"

text \<open>
  \<open>CStrEq\<close>. A C string ends at its first NUL; the lists here stop before it, and a NUL inside a
  list ends the comparison as in the code. Equal pointers have equal texts.
\<close>

fun cstr_loop :: "string \<Rightarrow> string \<Rightarrow> bool" where
  "cstr_loop (a # as) (b # bs) =
     (if a \<noteq> CHR 0x00 \<and> b \<noteq> CHR 0x00 then (if a \<noteq> b then False else cstr_loop as bs) else a = b)"
| "cstr_loop [] (b # bs) = (b = CHR 0x00)"
| "cstr_loop (a # as) [] = (a = CHR 0x00)"
| "cstr_loop [] [] = True"

definition CStrEq :: "cstr \<Rightarrow> cstr \<Rightarrow> bool" where
  "CStrEq a b = (case (a, b) of (None, None) \<Rightarrow> True | (Some x, Some y) \<Rightarrow> cstr_loop x y | _ \<Rightarrow> False)"

fun id_in :: "u32 \<Rightarrow> 's MsgTable \<Rightarrow> bool" where
  "id_in i [] = False"
| "id_in i (h # hs) = (if i = mh_msgId h then True else id_in i hs)"

fun MsgIdsUnique :: "'s MsgTable \<Rightarrow> bool" where
  "MsgIdsUnique [] = True"
| "MsgIdsUnique (h # hs) = (if id_in (mh_msgId h) hs then False else MsgIdsUnique hs)"

fun inst_in :: "cstr \<Rightarrow> 's SessionMsgTable list \<Rightarrow> bool" where
  "inst_in i [] = False"
| "inst_in i (g # gs) = (if CStrEq i (sg_sessionInst g) then True else inst_in i gs)"

text \<open>The outer loop; \<open>ty\<close> is \<open>groups[0].sessionType\<close>.\<close>

fun groups_loop :: "cstr \<Rightarrow> 's SessionMsgTable list \<Rightarrow> bool" where
  "groups_loop ty [] = True"
| "groups_loop ty (g # gs) =
     (if sg_sessionType g = None \<or> sg_sessionInst g = None \<or> sg_entries g = None then False
      else if \<not> CStrEq ty (sg_sessionType g) then False
      else if inst_in (sg_sessionInst g) gs then False
      else groups_loop ty gs)"

definition SessionGroupsValid :: "'s SessionMsgTable list option \<Rightarrow> bool" where
  "SessionGroupsValid groups = (case groups of
     None \<Rightarrow> False
   | Some [] \<Rightarrow> False
   | Some (g # gs) \<Rightarrow> groups_loop (sg_sessionType g) (g # gs))"

fun find_session_loop :: "'s SessionMsgTable list \<Rightarrow> cstr \<Rightarrow> 's SessionMsgTable option" where
  "find_session_loop [] inst = None"
| "find_session_loop (g # gs) inst =
     (if sg_sessionInst g \<noteq> None \<and> CStrEq (sg_sessionInst g) inst then Some g else find_session_loop gs inst)"

definition FindSessionTable :: "'s SessionMsgTable list option \<Rightarrow> cstr \<Rightarrow> 's SessionMsgTable option" where
  "FindSessionTable groups sessionInst = (case groups of
     None \<Rightarrow> None
   | Some gs \<Rightarrow> if sessionInst = None then None else find_session_loop gs sessionInst)"

section \<open>What the checks guarantee\<close>

lemma cstr_loop_c_str: "cstr_loop a b \<longleftrightarrow> c_str a = c_str b"
  by (induction a b rule: cstr_loop.induct) (auto simp: c_str_def)

lemma CStrEq_iff: "CStrEq a b \<longleftrightarrow> map_option c_str a = map_option c_str b"
  by (auto simp: CStrEq_def cstr_loop_c_str split: option.split)

lemma id_in_iff: "id_in i hs \<longleftrightarrow> i \<in> mh_msgId ` set hs"
  by (induction hs) auto

lemma MsgIdsUnique_iff: "MsgIdsUnique hs \<longleftrightarrow> distinct (map mh_msgId hs)"
  by (induction hs) (auto simp: id_in_iff)

definition inst_name :: "'s SessionMsgTable \<Rightarrow> string option" where
  "inst_name g = map_option c_str (sg_sessionInst g)"

lemma inst_in_iff: "inst_in i gs \<longleftrightarrow> map_option c_str i \<in> inst_name ` set gs"
  by (induction gs) (auto simp: CStrEq_iff inst_name_def)

lemma groups_loop_iff:
  "groups_loop ty gs \<longleftrightarrow> distinct (map inst_name gs) \<and>
     (\<forall>g \<in> set gs. sg_sessionType g \<noteq> None \<and> sg_sessionInst g \<noteq> None \<and> sg_entries g \<noteq> None \<and>
        map_option c_str (sg_sessionType g) = map_option c_str ty)"
  by (induction gs) (auto simp: inst_in_iff CStrEq_iff inst_name_def)

lemma find_session_loop_unique:
  "distinct (map inst_name gs) \<Longrightarrow> g \<in> set gs \<Longrightarrow> sg_sessionInst g \<noteq> None \<Longrightarrow> inst_name g = map_option c_str inst \<Longrightarrow>
   find_session_loop gs inst = Some g"
proof (induction gs)
  case (Cons a gs)
  show ?case
  proof (cases "a = g")
    case True
    with Cons.prems show ?thesis by (simp add: CStrEq_iff inst_name_def)
  next
    case False
    then have "g \<in> set gs" "inst_name a \<noteq> inst_name g" using Cons.prems(1,2) by auto
    then show ?thesis using Cons by (simp add: CStrEq_iff inst_name_def)
  qed
qed simp

lemma find_session_loop_Some:
  "find_session_loop gs inst = Some g \<Longrightarrow> g \<in> set gs \<and> inst_name g = map_option c_str inst"
  by (induction gs) (auto simp: CStrEq_iff inst_name_def split: if_splits)

lemma Find_handler_unique:
  "distinct (map mh_msgId hs) \<Longrightarrow> h \<in> set hs \<Longrightarrow> Find_handler (mh_msgId h) hs = Some h"
  by (induction hs) auto

lemma Find_handler_Some: "Find_handler i hs = Some h \<Longrightarrow> h \<in> set hs \<and> mh_msgId h = i"
  by (induction hs) (auto split: if_splits)

text \<open>Two-level lookup, as the \<open>Dispatch\<close> of every business thread does it.\<close>

definition lookup_route :: "'s SessionMsgTable list \<Rightarrow> cstr \<Rightarrow> u32 \<Rightarrow> 's MsgHandler option" where
  "lookup_route groups inst msgId = (case FindSessionTable (Some groups) inst of
     None \<Rightarrow> None
   | Some g \<Rightarrow> (case sg_entries g of None \<Rightarrow> None | Some tb \<Rightarrow> Find_handler msgId tb))"

text \<open>C19: The compile-time checks make routing unambiguous. For groups that pass
  \<open>SessionGroupsValid\<close> and whose tables pass \<open>MsgIdsUnique\<close>, a message for (instance, id) reaches
  the handler h exactly if h is declared under that id in the group of that instance, so the
  order of groups and of table rows has no influence; a message without instance (a thread's
  own timer) reaches no group.\<close>

theorem Routing_unambiguous:
  assumes "SessionGroupsValid (Some groups)" "\<forall>g \<in> set groups. \<forall>tb. sg_entries g = Some tb \<longrightarrow> MsgIdsUnique tb"
  shows "(lookup_route groups (Some inst) msgId = Some h \<longleftrightarrow>
      (\<exists>g \<in> set groups. \<exists>i tb. sg_sessionInst g = Some i \<and> c_str i = c_str inst \<and> sg_entries g = Some tb \<and>
         h \<in> set tb \<and> mh_msgId h = msgId)) \<and>
    lookup_route groups None msgId = None"
proof -
  have v: "distinct (map inst_name groups)"
    "\<forall>g \<in> set groups. sg_sessionType g \<noteq> None \<and> sg_sessionInst g \<noteq> None \<and> sg_entries g \<noteq> None"
    using assms(1) by (auto simp: SessionGroupsValid_def groups_loop_iff split: list.splits)
  have "lookup_route groups (Some inst) msgId = Some h \<longleftrightarrow>
      (\<exists>g \<in> set groups. inst_name g = Some (c_str inst) \<and> (\<exists>tb. sg_entries g = Some tb \<and> h \<in> set tb \<and> mh_msgId h = msgId))"
  proof
    assume "lookup_route groups (Some inst) msgId = Some h"
    then obtain g tb where g: "find_session_loop groups (Some inst) = Some g" "sg_entries g = Some tb" "Find_handler msgId tb = Some h"
      by (auto simp: lookup_route_def FindSessionTable_def split: option.splits)
    then show "\<exists>g \<in> set groups. inst_name g = Some (c_str inst) \<and> (\<exists>tb. sg_entries g = Some tb \<and> h \<in> set tb \<and> mh_msgId h = msgId)"
      using find_session_loop_Some [OF g(1)] Find_handler_Some [OF g(3)] by auto
  next
    assume "\<exists>g \<in> set groups. inst_name g = Some (c_str inst) \<and> (\<exists>tb. sg_entries g = Some tb \<and> h \<in> set tb \<and> mh_msgId h = msgId)"
    then obtain g tb where g: "g \<in> set groups" "inst_name g = Some (c_str inst)" "sg_entries g = Some tb" "h \<in> set tb" "mh_msgId h = msgId"
      by blast
    have "find_session_loop groups (Some inst) = Some g"
      using find_session_loop_unique [OF v(1) g(1)] v(2) g(1,2) by simp
    moreover have "Find_handler msgId tb = Some h"
      using Find_handler_unique [of tb h] assms(2) g(1,3-5) by (auto simp: MsgIdsUnique_iff)
    ultimately show "lookup_route groups (Some inst) msgId = Some h"
      using g(3) by (simp add: lookup_route_def FindSessionTable_def)
  qed
  then show ?thesis by (auto simp: inst_name_def lookup_route_def FindSessionTable_def)
qed

theorem Routing_unambiguous_witness:
  "lookup_route [\<lparr>sg_sessionType = Some ''DTS'', sg_sessionInst = Some ''data'', sg_entries =
       Some [\<lparr>mh_msgId = 2, mh_fn = None, mh_name = None\<rparr>, \<lparr>mh_msgId = 3, mh_fn = Some (\<lambda>_ _. Suc), mh_name = None\<rparr>]\<rparr>]
     (Some ''data'') 3 = Some \<lparr>mh_msgId = 3, mh_fn = Some (\<lambda>_ _. Suc), mh_name = None\<rparr>"
  by (subst conjunct1 [OF Routing_unambiguous]) (auto simp: SessionGroupsValid_def CStrEq_def)

end
