(* ===== verification/Detmw.thy ===== *)
theory Detmw
  imports Complex_Main Prelude_DTS
begin

text \<open>
  The communication middleware (\<open>thirdparty/detmw\<close>): endpoints and topic names, the \<open>Communicator\<close>
  (\<open>detmw.h\<close>, \<open>src/detmw.cpp\<close>) with its configuration, its local subscribers and its fall-back to
  the transport. cJSON is not part of the sources: its accessors are the record \<open>cjson\<close> that the
  configuration loop takes as an argument. The transport is an argument too (the record
  \<open>transport_ops\<close> over its state); \<open>Detmw_Fastdds\<close> provides the one the program uses.
\<close>

section \<open>Endpoints\<close>

record endpoint =
  session_type :: string
  session_inst :: string
  msg_id :: u32

definition ToString :: "endpoint \<Rightarrow> string" where
  "ToString e = session_type e @ ''.'' @ session_inst e @ ''.'' @ dec_string (unat (msg_id e))"

definition MakeTopic :: "string \<Rightarrow> string \<Rightarrow> u32 \<Rightarrow> string" where
  "MakeTopic st si mid = st @ ''_'' @ si @ ''_'' @ dec_string (unat mid)"

text \<open>\<open>strrchr(cfg_path, '/')\<close>: the path up to the last slash.\<close>

definition MakeStaticXmlPath :: "string \<Rightarrow> string" where
  "MakeStaticXmlPath cfg_path =
     (if CHR ''/'' \<notin> set cfg_path then ''staticdiscovery.xml''
      else rev (dropWhile (\<lambda>c. c \<noteq> CHR ''/'') (rev cfg_path)) @ ''staticdiscovery.xml'')"

section \<open>The Communicator\<close>

record ConfigEntry =
  ce_ep :: endpoint
  ce_is_publish :: bool
  ce_plain_size :: u32
  ce_topic :: string

text \<open>A subscriber is its callback, here the identity of (function, context).\<close>

type_synonym recv_id = "nat option \<times> nat"

record ('t) transport_ops =
  tr_CreateReader :: "endpoint \<Rightarrow> recv_id \<Rightarrow> 't \<Rightarrow> int \<times> 't"
  tr_CreateWriter :: "endpoint \<Rightarrow> 't \<Rightarrow> int \<times> 't"
  tr_Send :: "endpoint \<Rightarrow> bytes option \<Rightarrow> u32 \<Rightarrow> 't \<Rightarrow> int \<times> 't"

record ('t) Communicator =
  c_config :: "ConfigEntry list"
  c_transport :: "'t option"
  c_domain_id :: int
  c_process :: string
  c_plainTopics :: "string \<Rightarrow> u32 option"
  c_localSubs :: "endpoint \<Rightarrow> recv_id list"

text \<open>cJSON's accessors over its nodes.\<close>

record ('j) cjson =
  GetObjectItem :: "'j \<Rightarrow> string \<Rightarrow> 'j option"
  GetStringValue :: "'j \<Rightarrow> string option"
  IsNumber :: "'j \<Rightarrow> bool"
  IsArray :: "'j \<Rightarrow> bool"
  valuedouble :: "'j \<Rightarrow> rat"
  ArrayItems :: "'j \<Rightarrow> 'j list"

definition item_string :: "('j, 'x) cjson_scheme \<Rightarrow> 'j \<Rightarrow> string \<Rightarrow> string option" where
  "item_string cj t k = (case GetObjectItem cj t k of None \<Rightarrow> None | Some v \<Rightarrow> GetStringValue cj v)"

definition item_number :: "('j, 'x) cjson_scheme \<Rightarrow> 'j \<Rightarrow> string \<Rightarrow> rat option" where
  "item_number cj t k = (case GetObjectItem cj t k of None \<Rightarrow> None
     | Some v \<Rightarrow> if IsNumber cj v then Some (valuedouble cj v) else None)"

text \<open>The conversion of a double to an integer type cuts the fraction off.\<close>

definition trunc :: "rat \<Rightarrow> int" where
  "trunc q = (if q < 0 then - \<lfloor>- q\<rfloor> else \<lfloor>q\<rfloor>)"

text \<open>One round of the loop over \<open>topics\<close>.\<close>

definition load_topic :: "('j, 'x) cjson_scheme \<Rightarrow> 'j \<Rightarrow> 't Communicator \<Rightarrow> 't Communicator" where
  "load_topic cj t im =
    (case (item_string cj t ''session_type'', item_string cj t ''session_inst'', item_number cj t ''msg_id'', item_string cj t ''role'') of
       (Some st, Some si, Some mid, Some role) \<Rightarrow>
         (let ep = \<lparr>session_type = st, session_inst = si, msg_id = of_int (trunc mid)\<rparr>;
              topic = MakeTopic st si (msg_id ep);
              ps = (case item_number cj t ''plain_size'' of Some p \<Rightarrow> if p > 0 then Some (of_int (trunc p)) else None | None \<Rightarrow> None);
              im1 = (case ps of None \<Rightarrow> im | Some p \<Rightarrow> im\<lparr>c_plainTopics := (c_plainTopics im)(topic \<mapsto> p)\<rparr>)
          in im1\<lparr>c_config := c_config im1 @ [\<lparr>ce_ep = ep, ce_is_publish = (role = ''publish''),
                   ce_plain_size = (case ps of None \<Rightarrow> 0 | Some p \<Rightarrow> p), ce_topic = topic\<rparr>]\<rparr>)
     | _ \<Rightarrow> im)"

definition empty_communicator :: "'t Communicator" where
  "empty_communicator = \<lparr>c_config = [], c_transport = None, c_domain_id = - 1, c_process = '''',
     c_plainTopics = Map.empty, c_localSubs = (\<lambda>_. [])\<rparr>"

text \<open>Step 3 of the constructor: writers for the publishing entries.\<close>

fun create_writers :: "'t transport_ops \<Rightarrow> ConfigEntry list \<Rightarrow> 't \<Rightarrow> 't" where
  "create_writers ops [] t = t"
| "create_writers ops (e # es) t =
     create_writers ops es (if ce_is_publish e then snd (tr_CreateWriter ops (ce_ep e) t) else t)"

text \<open>
  The constructor. \<open>read_file path\<close> is the content of the file, at most \<open>size\<close> bytes as measured;
  \<open>parse\<close> is \<open>cJSON_Parse\<close>; \<open>mk\<close> is the transport factory.
\<close>

definition new_communicator :: "('j, 'x) cjson_scheme \<Rightarrow> (string \<Rightarrow> 'j option) \<Rightarrow> (string \<Rightarrow> string option) \<Rightarrow>
    't transport_ops \<Rightarrow> (int \<Rightarrow> string \<Rightarrow> string \<Rightarrow> (string \<Rightarrow> u32 option) \<Rightarrow> 't option) \<Rightarrow> cstr \<Rightarrow> 't Communicator" where
  "new_communicator cj parse read_file ops mk cfg_path = (case cfg_path of
     None \<Rightarrow> empty_communicator
   | Some path \<Rightarrow>
      (case read_file path of
         None \<Rightarrow> empty_communicator
       | Some buf \<Rightarrow>
          if length buf = 0 \<or> length buf > 1048576 then empty_communicator
          else (case parse (c_str buf) of
             None \<Rightarrow> empty_communicator
           | Some tree \<Rightarrow>
              (case (item_string cj tree ''process'', item_number cj tree ''domain'', GetObjectItem cj tree ''topics'') of
                 (Some process, Some domain, Some topics) \<Rightarrow>
                   if \<not> IsArray cj topics then empty_communicator
                   else (let im = fold (load_topic cj) (ArrayItems cj topics)
                              (empty_communicator\<lparr>c_process := process, c_domain_id := trunc domain\<rparr>)
                         in if c_config im = [] then im
                            else im\<lparr>c_transport := map_option (create_writers ops (c_config im))
                                    (mk (c_domain_id im) process (MakeStaticXmlPath path) (c_plainTopics im))\<rparr>)
               | _ \<Rightarrow> empty_communicator))))"

definition good :: "'t Communicator \<Rightarrow> bool" where
  "good c \<longleftrightarrow> c_transport c \<noteq> None"

definition subscribe :: "'t transport_ops \<Rightarrow> endpoint \<Rightarrow> recv_id \<Rightarrow> 't Communicator \<Rightarrow> int \<times> 't Communicator" where
  "subscribe ops src r c = (case c_transport c of
     None \<Rightarrow> (- 1, c)
   | Some t \<Rightarrow> (let (rc, t') = tr_CreateReader ops src r t; c1 = c\<lparr>c_transport := Some t'\<rparr> in
       if rc \<noteq> 0 then (rc, c1)
       else (0, c1\<lparr>c_localSubs := (c_localSubs c1)(src := c_localSubs c1 src @ [r])\<rparr>)))"

definition publish_external :: "'t transport_ops \<Rightarrow> endpoint \<Rightarrow> bytes option \<Rightarrow> u32 \<Rightarrow> 't Communicator \<Rightarrow> int \<times> 't Communicator" where
  "publish_external ops dst data len c = (case c_transport c of
     None \<Rightarrow> (- 1, c)
   | Some t \<Rightarrow> (let (rc, t') = tr_Send ops dst data len t in (rc, c\<lparr>c_transport := Some t'\<rparr>)))"

text \<open>
  \<open>publish_internal\<close>: the third result are the callbacks made, each with its own copy of the payload.
\<close>

definition payload_copy :: "bytes option \<Rightarrow> u32 \<Rightarrow> bytes" where
  "payload_copy data len = (case data of None \<Rightarrow> [] | Some d \<Rightarrow> if len > 0 then take (unat len) d else [])"

fun call_subs :: "recv_id list \<Rightarrow> bytes \<Rightarrow> (recv_id \<times> bytes) list" where
  "call_subs [] p = []"
| "call_subs (s # ss) p = (if fst s = None then call_subs ss p else (s, p) # call_subs ss p)"

definition publish_internal :: "'t transport_ops \<Rightarrow> endpoint \<Rightarrow> bytes option \<Rightarrow> u32 \<Rightarrow> 't Communicator \<Rightarrow>
    int \<times> 't Communicator \<times> (recv_id \<times> bytes) list" where
  "publish_internal ops dst data len c =
    (if c_localSubs c dst \<noteq> [] then (0, c, call_subs (c_localSubs c dst) (payload_copy data len))
     else (case c_transport c of
             None \<Rightarrow> (- 1, c, [])
           | Some t \<Rightarrow> (let (rc, t') = tr_Send ops dst data len t in (rc, c\<lparr>c_transport := Some t'\<rparr>, []))))"

text \<open>
  \<open>dump\<close>: every \<open>snprintf\<close> with its start in the buffer, the size it is given (\<open>cap - off\<close> in
  \<open>size_t\<close>) and its text.
\<close>

definition dump_head :: "'t Communicator \<Rightarrow> string" where
  "dump_head c = ''[detmw] process='' @ c_str (c_process c) @ '' domain='' @
     (if c_domain_id c < 0 then ''-'' @ dec_string (nat (- c_domain_id c)) else dec_string (nat (c_domain_id c))) @
     '' topics='' @ dec_string (length (c_config c)) @ [CHR 0x0A]"

definition dump_line :: "ConfigEntry \<Rightarrow> string" where
  "dump_line e = ''  '' @ c_str (ce_topic e) @ '' '' @ c_str (ToString (ce_ep e)) @ '' role='' @
     (if ce_is_publish e then ''pub'' else ''sub'') @ [CHR 0x0A]"

fun dump_loop :: "u64 \<Rightarrow> ConfigEntry list \<Rightarrow> u64 \<Rightarrow> (u64 \<times> u64 \<times> string) list" where
  "dump_loop cap [] off = []"
| "dump_loop cap (e # es) off =
     (off, cap - off, dump_line e) # dump_loop cap es (off + of_nat (length (dump_line e)))"

definition dump :: "u64 \<Rightarrow> 't Communicator \<Rightarrow> int \<times> (u64 \<times> u64 \<times> string) list" where
  "dump cap c = (if cap = 0 then (- 1, [])
     else (0, (0, cap, dump_head c) # dump_loop cap (c_config c) (of_nat (length (dump_head c)))))"

section \<open>What a transport promises the Communicator\<close>

text \<open>
  \<open>wire\<close> are the messages a transport has handed to the network, by topic. The contract: creating
  endpoints sends nothing, and a send that returns 0 puts exactly the given bytes on the wire,
  any other nothing.
\<close>

definition sent_bytes :: "bytes option \<Rightarrow> u32 \<Rightarrow> bytes" where
  "sent_bytes data len = take (unat len) (case data of None \<Rightarrow> [] | Some d \<Rightarrow> d)"

locale transport =
  fixes ops :: "'t transport_ops"
    and wire :: "'t \<Rightarrow> (string \<times> bytes) list"
  assumes reader_wire: "wire (snd (tr_CreateReader ops ep r t)) = wire t"
    and writer_wire: "wire (snd (tr_CreateWriter ops ep t)) = wire t"
    and send_wire: "wire (snd (tr_Send ops ep data len t)) =
      wire t @ (if fst (tr_Send ops ep data len t) = 0
        then [(MakeTopic (session_type ep) (session_inst ep) (msg_id ep), sent_bytes data len)] else [])"
begin

definition on_wire :: "'t Communicator \<Rightarrow> (string \<times> bytes) list" where
  "on_wire c = (case c_transport c of None \<Rightarrow> [] | Some t \<Rightarrow> wire t)"

lemma subscribe_wire: "on_wire (snd (subscribe ops src r c)) = on_wire c"
proof (cases "c_transport c")
  case (Some t)
  then show ?thesis using reader_wire [of src r t]
    by (cases "tr_CreateReader ops src r t") (simp add: subscribe_def on_wire_def Let_def)
qed (simp add: subscribe_def on_wire_def)

lemma publish_external_wire:
  "on_wire (snd (publish_external ops dst data len c)) = on_wire c @
     (if fst (publish_external ops dst data len c) = 0
      then [(MakeTopic (session_type dst) (session_inst dst) (msg_id dst), sent_bytes data len)] else [])"
proof (cases "c_transport c")
  case (Some t)
  then show ?thesis using send_wire [of dst data len t]
    by (cases "tr_Send ops dst data len t") (simp add: publish_external_def on_wire_def)
qed (simp add: publish_external_def on_wire_def)

text \<open>A message goes to the local subscribers or onto the wire, never both.\<close>

lemma publish_internal_exclusive:
  "publish_internal ops dst data len c = (rc, c', calls) \<Longrightarrow>
   (c_localSubs c dst \<noteq> [] \<longrightarrow> rc = 0 \<and> on_wire c' = on_wire c) \<and>
   (c_localSubs c dst = [] \<longrightarrow> calls = [] \<and> (rc, c') = publish_external ops dst data len c)"
  by (auto simp: publish_internal_def publish_external_def split: option.splits prod.splits)

end

section \<open>Topic names\<close>

lemma takeWhile_us: "CHR ''_'' \<notin> set xs \<Longrightarrow> takeWhile (\<lambda>c. c \<noteq> CHR ''_'') (xs @ CHR ''_'' # ys) = xs"
  by (induction xs) auto

lemma dropWhile_us: "CHR ''_'' \<notin> set xs \<Longrightarrow> dropWhile (\<lambda>c. c \<noteq> CHR ''_'') (xs @ CHR ''_'' # ys) = CHR ''_'' # ys"
  by (induction xs) auto

lemma split_us:
  assumes "xs @ CHR ''_'' # ys = xs' @ CHR ''_'' # ys'" "CHR ''_'' \<notin> set xs" "CHR ''_'' \<notin> set xs'"
  shows "xs = xs' \<and> ys = ys'"
  using arg_cong [OF assms(1), of "takeWhile (\<lambda>c. c \<noteq> CHR ''_'')"]
    arg_cong [OF assms(1), of "dropWhile (\<lambda>c. c \<noteq> CHR ''_'')"] assms(2,3)
  by (simp add: takeWhile_us dropWhile_us)

text \<open>Topic names identify endpoints only as long as session names have no underscore. For such
  names different endpoints have different topics; with underscores two different endpoints can share a topic, and
  a message published for one goes out under the topic of the other.\<close>

theorem MakeTopic_identifies:
  assumes "CHR ''_'' \<notin> set st" "CHR ''_'' \<notin> set si" "CHR ''_'' \<notin> set st'" "CHR ''_'' \<notin> set si'"
  shows "(MakeTopic st si mid = MakeTopic st' si' mid' \<longleftrightarrow> st = st' \<and> si = si' \<and> mid = mid') \<and>
    MakeTopic ''a_b'' ''c'' m = MakeTopic ''a'' ''b_c'' m"
proof
  show "MakeTopic st si mid = MakeTopic st' si' mid' \<longleftrightarrow> st = st' \<and> si = si' \<and> mid = mid'"
  proof
    assume a: "MakeTopic st si mid = MakeTopic st' si' mid'"
    have "st @ CHR ''_'' # (si @ CHR ''_'' # dec_string (unat mid)) = st' @ CHR ''_'' # (si' @ CHR ''_'' # dec_string (unat mid'))"
      using a by (simp only: MakeTopic_def append_Cons append_Nil)
    note s = split_us [OF this assms(1,3)]
    note s2 = split_us [OF conjunct2 [OF s] assms(2,4)]
    have "mid = mid'" using dec_string_inj [OF conjunct2 [OF s2]] by (simp only: word_unat_eq_iff)
    then show "st = st' \<and> si = si' \<and> mid = mid'" using s s2 by blast
  qed simp
qed (simp add: MakeTopic_def)

theorem MakeTopic_identifies_witness:
  "MakeTopic ''DTS'' ''data'' 4 \<noteq> MakeTopic ''DTS'' ''data'' 40"
  using MakeTopic_identifies [of "''DTS''" "''data''" "''DTS''" "''data''" 4 40 0] by simp

section \<open>Subscribing and publishing\<close>

text \<open>A sequence of subscriptions, all of whose readers the transport creates.\<close>

fun subscribe_all :: "'t transport_ops \<Rightarrow> (endpoint \<times> recv_id) list \<Rightarrow> 't Communicator \<Rightarrow> 't Communicator" where
  "subscribe_all ops [] c = c"
| "subscribe_all ops ((e, r) # es) c = subscribe_all ops es (snd (subscribe ops e r c))"

lemma call_subs_filter: "call_subs ss p = map (\<lambda>s. (s, p)) (filter (\<lambda>s. fst s \<noteq> None) ss)"
  by (induction ss) auto

lemma subscribe_all_subs:
  assumes "\<And>e r t. fst (tr_CreateReader ops e r t) = 0" "c_transport c \<noteq> None"
  shows "c_localSubs (subscribe_all ops es c) ep = c_localSubs c ep @ map snd (filter (\<lambda>x. fst x = ep) es) \<and>
    c_transport (subscribe_all ops es c) \<noteq> None"
  using assms(2)
proof (induction es arbitrary: c)
  case (Cons x es)
  obtain e r t where x: "x = (e, r)" "c_transport c = Some t" using Cons.prems by (cases x) auto
  obtain t' where t: "tr_CreateReader ops e r t = (0, t')" using assms(1) [of e r t] by (cases "tr_CreateReader ops e r t") auto
  have "subscribe ops e r c = (0, c\<lparr>c_transport := Some t', c_localSubs := (c_localSubs c)(e := c_localSubs c e @ [r])\<rparr>)"
    by (simp add: subscribe_def x(2) t)
  then show ?case
    using Cons.IH [of "c\<lparr>c_transport := Some t', c_localSubs := (c_localSubs c)(e := c_localSubs c e @ [r])\<rparr>"] x(1)
    by (auto simp: fun_upd_def)
qed simp

text \<open>A message published inside the process reaches every subscriber of its endpoint. After any
  sequence of successful subscriptions, \<open>publish_internal\<close> calls the callbacks subscribed to
  exactly that endpoint, in subscription order, each with its own copy of the first \<open>len\<close> bytes,
  returns 0 and leaves the transport alone; if nobody has subscribed, it does what \<open>publish_external\<close>
  does; and before the transport is up everything but a local delivery fails with -1.\<close>

theorem publish_internal_delivers:
  assumes "\<And>e r t. fst (tr_CreateReader ops e r t) = 0" "good c" "c_localSubs c = (\<lambda>_. [])"
    and "subs = map snd (filter (\<lambda>x. fst x = dst) es)" "c1 = subscribe_all ops es c"
  shows "(subs \<noteq> [] \<longrightarrow> publish_internal ops dst data len c1 =
      (0, c1, map (\<lambda>s. (s, payload_copy data len)) (filter (\<lambda>s. fst s \<noteq> None) subs))) \<and>
    (subs = [] \<longrightarrow> publish_internal ops dst data len c1 =
      (let (rc, c2) = publish_external ops dst data len c1 in (rc, c2, []))) \<and>
    good c1 \<and>
    (\<not> good c0 \<longrightarrow> fst (subscribe ops dst r c0) = - 1 \<and> fst (publish_external ops dst data len c0) = - 1)"
proof -
  have s: "c_localSubs c1 dst = subs" "c_transport c1 \<noteq> None"
    using subscribe_all_subs [OF assms(1), of c es dst] assms(2-5) by (auto simp: good_def)
  then show ?thesis
    by (auto simp: publish_internal_def call_subs_filter good_def publish_external_def subscribe_def
        split: option.splits prod.splits)
qed

definition silent_ops :: "unit transport_ops" where
  "silent_ops = \<lparr>tr_CreateReader = \<lambda>_ _ t. (0, t), tr_CreateWriter = \<lambda>_ t. (0, t), tr_Send = \<lambda>_ _ _ t. (0, t)\<rparr>"

definition data_ep :: endpoint where
  "data_ep = \<lparr>session_type = ''DTS'', session_inst = ''data'', msg_id = 2\<rparr>"

theorem publish_internal_delivers_witness:
  "publish_internal silent_ops data_ep (Some [1, 2, 3]) 2
      (subscribe_all silent_ops [(data_ep, (Some 7, 0))] (empty_communicator\<lparr>c_transport := Some ()\<rparr>)) =
    (0, subscribe_all silent_ops [(data_ep, (Some 7, 0))] (empty_communicator\<lparr>c_transport := Some ()\<rparr>), [((Some 7, 0), [1, 2])])"
proof -
  have "fst (tr_CreateReader silent_ops e r t) = 0" for e r t by (simp add: silent_ops_def)
  moreover have "good (empty_communicator\<lparr>c_transport := Some ()\<rparr>)"
    "c_localSubs (empty_communicator\<lparr>c_transport := Some ()\<rparr>) = (\<lambda>_. [])"
    by (simp_all add: good_def empty_communicator_def)
  ultimately show ?thesis
    using publish_internal_delivers [where ops = silent_ops and c = "empty_communicator\<lparr>c_transport := Some ()\<rparr>"
        and dst = data_ep and es = "[(data_ep, (Some 7, 0))]" and data = "Some [1, 2, 3]" and len = 2, OF _ _ _ refl refl]
    by (simp add: payload_copy_def)
qed

section \<open>Dump\<close>

text \<open>The first byte behind what a call may write: its text and the final NUL, at most the size given.\<close>

definition write_end :: "u64 \<times> u64 \<times> string \<Rightarrow> nat" where
  "write_end w = (case w of (off, lm, txt) \<Rightarrow> unat off + min (unat lm) (length txt + 1))"

definition in_bounds :: "u64 \<Rightarrow> (u64 \<times> u64 \<times> string) list \<Rightarrow> bool" where
  "in_bounds cap ws \<longleftrightarrow> (\<forall>w \<in> set ws. write_end w \<le> unat cap)"

lemma dump_loop_fits:
  assumes "unat off + (\<Sum>e\<leftarrow>es. length (dump_line e)) < unat cap"
  shows "in_bounds cap (dump_loop cap es off)"
  using assms
proof (induction es arbitrary: off)
  case (Cons e es)
  have lt: "unat off + length (dump_line e) < 2 ^ 64" using Cons.prems unat_lt_u64 [of cap] by simp
  then have u: "unat (of_nat (length (dump_line e)) :: u64) = length (dump_line e)" by (simp add: unat_of_nat)
  then have "unat (off + of_nat (length (dump_line e))) = unat off + length (dump_line e)"
    using lt by (simp add: unat_add_u64)
  then have "in_bounds cap (dump_loop cap es (off + of_nat (length (dump_line e))))"
    using Cons by simp
  then show ?case using Cons.prems by (auto simp: in_bounds_def write_end_def)
qed (simp add: in_bounds_def)

text \<open>\<open>dump\<close> stays inside its buffer exactly while its text fits. With room for the whole text and
  a NUL every \<open>snprintf\<close> writes inside the buffer; but once the text so far is longer than the buffer,
  the next line is written behind its end, because \<open>cap - off\<close> wraps around and bounds nothing.\<close>

theorem dump_bounds:
  assumes "length (dump_head c) < 2 ^ 63" "0 < cap" "unat cap < 2 ^ 63"
  shows "(length (dump_head c) + (\<Sum>e\<leftarrow>c_config c. length (dump_line e)) < unat cap \<longrightarrow> in_bounds cap (snd (dump cap c))) \<and>
    (unat cap < length (dump_head c) \<and> c_config c \<noteq> [] \<longrightarrow>
      \<not> in_bounds cap (snd (dump cap c)) \<and>
      (let (off, lm, txt) = snd (dump cap c) ! 1 in unat cap < unat off \<and> 2 ^ 63 < unat lm))"
proof (intro conjI impI)
  let ?n = "of_nat (length (dump_head c)) :: u64"
  have n: "unat ?n = length (dump_head c)" using assms(1) by (simp add: unat_of_nat)
  have nz: "cap \<noteq> 0" using assms(2) by auto
  show "in_bounds cap (snd (dump cap c))"
    if "length (dump_head c) + (\<Sum>e\<leftarrow>c_config c. length (dump_line e)) < unat cap"
    using dump_loop_fits [of ?n "c_config c" cap] that n nz by (auto simp: dump_def in_bounds_def write_end_def)
  assume a: "unat cap < length (dump_head c) \<and> c_config c \<noteq> []"
  then obtain e es where e: "c_config c = e # es" by (cases "c_config c") auto
  have lm: "unat (cap - ?n) = 2 ^ 64 - (length (dump_head c) - unat cap)"
    using unat_sub_wrap [of cap ?n] a n by simp
  have w: "snd (dump cap c) ! 1 = (?n, cap - ?n, dump_line e)" using nz by (simp add: dump_def e)
  show "let (off, lm, txt) = snd (dump cap c) ! 1 in unat cap < unat off \<and> 2 ^ 63 < unat lm"
    unfolding w using a n lm assms(1) by simp
  have "(?n, cap - ?n, dump_line e) \<in> set (snd (dump cap c))" using nz by (simp add: dump_def e)
  moreover have "unat cap < write_end (?n, cap - ?n, dump_line e)" using a n by (simp add: write_end_def)
  ultimately show "\<not> in_bounds cap (snd (dump cap c))" by (auto simp: in_bounds_def not_le)
qed

theorem dump_bounds_witness:
  "\<not> in_bounds 16 (snd (dump 16 \<lparr>c_config = [\<lparr>ce_ep = \<lparr>session_type = ''DTS'', session_inst = ''data'', msg_id = 2\<rparr>,
     ce_is_publish = False, ce_plain_size = 0, ce_topic = ''DTS_data_2''\<rparr>], c_transport = Some (), c_domain_id = 0,
     c_process = ''dts'', c_plainTopics = Map.empty, c_localSubs = (\<lambda>_. [])\<rparr>))"
  by (rule dump_bounds [THEN conjunct2, THEN mp, THEN conjunct1])
    (simp_all add: dump_head_def c_str_def dec_string.simps digit_char_def)

end
