(* ===== verification/Contexts.thy ===== *)
theory Contexts
  imports Routing Detmw Data_Factory
begin

text \<open>
  The application layer of the three business threads: the task table (\<open>task_manager.cpp\<close>) and the
  message handlers and dispatchers of the task, data and log threads (\<open>task_msg_handler.cpp\<close>,
  \<open>data_msg_handler.cpp\<close>, \<open>log_msg_handler.cpp\<close>). A thread's state holds what it publishes through
  the middleware handle \<open>DtsMw()\<close>, which may be null, as a list of publications.
\<close>

section \<open>Publications\<close>

datatype publication = Internal endpoint bytes u32 | External endpoint bytes u32

definition dts_endpoint :: "string \<Rightarrow> u32 \<Rightarrow> endpoint" where
  "dts_endpoint inst mid = \<lparr>session_type = SESSION_TYPE_DTS, session_inst = inst, msg_id = mid\<rparr>"

section \<open>The task table\<close>

record TaskConfig =
  tc_taskId :: u16
  tc_type :: u16
  tc_dataIds :: "u16 list"

type_synonym TaskManager = "(u16 \<times> TaskConfig) list"

definition kMaxTasks :: nat where "kMaxTasks = 64"

definition Size :: "TaskManager \<Rightarrow> nat" where
  "Size m = length m"

definition Find_task :: "TaskManager \<Rightarrow> u16 \<Rightarrow> TaskConfig option" where
  "Find_task m taskId = map_of m taskId"

text \<open>\<open>None\<close> is the return value \<open>false\<close>.\<close>

definition Add_task :: "TaskConfig \<Rightarrow> TaskManager \<Rightarrow> TaskManager option" where
  "Add_task cfg m = (if Size m \<ge> kMaxTasks \<or> Find_task m (tc_taskId cfg) \<noteq> None then None
     else Some (m @ [(tc_taskId cfg, cfg)]))"

definition Remove_task :: "u16 \<Rightarrow> TaskManager \<Rightarrow> bool \<times> TaskManager" where
  "Remove_task taskId m = (Find_task m taskId \<noteq> None, filter (\<lambda>e. fst e \<noteq> taskId) m)"

text \<open>\<open>TaskFactory::Create\<close>.\<close>

definition Create_task :: "TaskConfig \<Rightarrow> TaskManager \<Rightarrow> TaskManager option" where
  "Create_task cfg m = Add_task cfg m"

interpretation task_table: registry Find_task tc_taskId Add_task
  by unfold_locales (auto simp: Add_task_def Find_task_def fun_eq_iff map_add_def split: if_splits option.splits)

section \<open>The task thread\<close>

record task_ctx =
  tk_mgr :: TaskManager
  tk_mw :: bool
  tk_pubs :: "publication list"

text \<open>\<open>TaskActiveMsg\<close>: three 16-bit fields and eight 16-bit ids, 22 bytes.\<close>

definition task_active_config :: "bytes \<Rightarrow> TaskConfig" where
  "task_active_config d = \<lparr>tc_taskId = get16 d 0, tc_type = get16 d 2,
     tc_dataIds = map (\<lambda>i. get16 d (6 + 2 * i)) [0..<unat (get16 d 4)]\<rparr>"

definition OnTaskActive_task :: "task_ctx handler_fn" where
  "OnTaskActive_task data len s = (case data of
     None \<Rightarrow> s
   | Some d \<Rightarrow>
      if len < 22 then s
      else if get16 d 4 > 8 then s
      else (case Create_task (task_active_config d) (tk_mgr s) of
              None \<Rightarrow> s
            | Some m \<Rightarrow>
                (let s1 = s\<lparr>tk_mgr := m\<rparr> in
                 if tk_mw s1 then s1\<lparr>tk_pubs := tk_pubs s1 @ [Internal (dts_endpoint SESSION_INST_DATA MSG_ID_DATA_TASK_ACTIVE) d len]\<rparr>
                 else s1)))"

text \<open>The scan for the key, which is only logged, and the answer.\<close>

definition taskId_text :: bytes where
  "taskId_text = map of_char ''taskId''"

fun config_scan :: "bytes \<Rightarrow> nat \<Rightarrow> nat \<Rightarrow> nat" where
  "config_scan d i 0 = 0"
| "config_scan d i (Suc n) =
     (if d ! i = of_char CHR 0x22 \<and> mem_read d (i + 1) 6 = taskId_text then i else config_scan d (i + 1) n)"

definition config_keyPos :: "bytes \<Rightarrow> u32 \<Rightarrow> nat" where
  "config_keyPos d len = config_scan d 0 (unat len - 8)"

definition OnTaskConfig :: "task_ctx handler_fn" where
  "OnTaskConfig data len s = (case data of
     None \<Rightarrow> s
   | Some d \<Rightarrow>
      if len = 0 then s
      else if tk_mw s then s\<lparr>tk_pubs := tk_pubs s @ [External (dts_endpoint SESSION_INST_TASK MSG_ID_TASK_RESPONSE) d len]\<rparr>
      else s)"

definition kTaskHandlers :: "task_ctx MsgTable" where
  "kTaskHandlers = [\<lparr>mh_msgId = MSG_ID_TASK_ACTIVE, mh_fn = Some OnTaskActive_task, mh_name = Some ''task_active''\<rparr>,
     \<lparr>mh_msgId = MSG_ID_TASK_CONFIG, mh_fn = Some OnTaskConfig, mh_name = Some ''task_config''\<rparr>]"

definition kTaskGroups :: "task_ctx SessionMsgTable list" where
  "kTaskGroups = [\<lparr>sg_sessionType = Some SESSION_TYPE_DTS, sg_sessionInst = Some SESSION_INST_TASK, sg_entries = Some kTaskHandlers\<rparr>]"

text \<open>The common end of the three dispatchers: pick the group, then the row; an unhandled message is only logged.\<close>

definition dispatch_groups :: "'s SessionMsgTable list \<Rightarrow> cstr \<Rightarrow> u32 \<Rightarrow> bytes option \<Rightarrow> u32 \<Rightarrow> 's \<Rightarrow> 's" where
  "dispatch_groups groups sessionInst msgId msg len s = (case FindSessionTable (Some groups) sessionInst of
     None \<Rightarrow> s
   | Some g \<Rightarrow> snd (Dispatch_table (case sg_entries g of Some tb \<Rightarrow> tb | None \<Rightarrow> []) msgId msg len s))"

definition TaskMsgHandlerDispatch :: "cstr \<Rightarrow> u32 \<Rightarrow> bytes option \<Rightarrow> u32 \<Rightarrow> task_ctx \<Rightarrow> task_ctx" where
  "TaskMsgHandlerDispatch sessionInst msgId msg len s =
     (if msgId = MSG_ID_TIMER then s else dispatch_groups kTaskGroups sessionInst msgId msg len s)"

section \<open>The log thread\<close>

record log_ctx =
  lg_mw :: bool
  lg_pubs :: "publication list"

definition OnCollect :: "log_ctx handler_fn" where
  "OnCollect data len s = (case data of
     None \<Rightarrow> s
   | Some d \<Rightarrow> if lg_mw s then s\<lparr>lg_pubs := lg_pubs s @ [External (dts_endpoint SESSION_INST_LOG MSG_ID_LOG_REPORT) d len]\<rparr> else s)"

definition kLogHandlers :: "log_ctx MsgTable" where
  "kLogHandlers = [\<lparr>mh_msgId = MSG_ID_LOG_COLLECT, mh_fn = Some OnCollect, mh_name = Some ''log_collect''\<rparr>]"

definition kLogGroups :: "log_ctx SessionMsgTable list" where
  "kLogGroups = [\<lparr>sg_sessionType = Some SESSION_TYPE_DTS, sg_sessionInst = Some SESSION_INST_LOG, sg_entries = Some kLogHandlers\<rparr>]"

definition LogMsgHandlerDispatch :: "cstr \<Rightarrow> u32 \<Rightarrow> bytes option \<Rightarrow> u32 \<Rightarrow> log_ctx \<Rightarrow> log_ctx" where
  "LogMsgHandlerDispatch sessionInst msgId msg len s =
     (if msgId = MSG_ID_TIMER then s else dispatch_groups kLogGroups sessionInst msgId msg len s)"

section \<open>The data thread\<close>

record data_ctx =
  dc_factory :: DataFactory
  dc_mw :: bool
  dc_pubs :: "publication list"

text \<open>What a call of \<open>Process\<close> takes from outside.\<close>

record process_env =
  pe_bypass :: Bypass
  pe_us :: u64
  pe_reg :: extractor_table
  pe_order :: "u32 list"

text \<open>\<open>TaskRequest\<close>: two 32-bit fields.\<close>

definition OnTaskActive_data :: "data_ctx handler_fn" where
  "OnTaskActive_data data len s = (case data of
     None \<Rightarrow> s
   | Some d \<Rightarrow>
      if len < 8 then s
      else if get32 d 4 \<noteq> 1 then s
      else s\<lparr>dc_factory := OnTask (get32 d 0) [] 0 (dc_factory s)\<rparr>)"

definition OnAgentData :: "process_env \<Rightarrow> data_ctx handler_fn" where
  "OnAgentData pe data len s = (case data of
     None \<Rightarrow> s
   | Some d \<Rightarrow>
      if len < 2 then s
      else s\<lparr>dc_factory := Process (pe_bypass pe) (pe_us pe) (pe_reg pe) (pe_order pe) data len (get16 d 0) (dc_factory s)\<rparr>)"

definition OnTick_data :: "data_ctx handler_fn" where
  "OnTick_data data len s = s\<lparr>dc_factory := OnTick (dc_factory s)\<rparr>"

definition dec64 :: "u64 \<Rightarrow> string" where "dec64 w = dec_string (unat w)"
definition nl :: string where "nl = [CHR 0x0A]"

definition oam_stats_text :: "DataStatsSnapshot \<Rightarrow> string" where
  "oam_stats_text s =
     ''frames='' @ dec64 (s_frames s) @ nl @ ''max_us='' @ dec64 (s_frameMaxUs s) @ nl @
     ''warn='' @ dec64 (s_frameBudgetWarn s) @ nl @ ''alarm='' @ dec64 (s_frameBudgetAlarm s) @ nl @
     ''ticks='' @ dec_string (unat (s_ticks s)) @ nl @
     ''drop_pool_full='' @ dec64 (s_dropPoolFull s) @ nl @
     ''drop_slice_overcap='' @ dec64 (s_dropSliceOverCap s) @ nl @ ''key_fail='' @ dec64 (s_keyFail s) @ nl @
     ''budget_warn_us='' @ dec64 (s_budgetWarnUs s) @ nl @ ''budget_alarm_us='' @ dec64 (s_budgetAlarmUs s) @ nl"

definition OnOamStatsReq :: "data_ctx handler_fn" where
  "OnOamStatsReq data len s =
     (let buf = snprintf_text 512 (oam_stats_text (Stats (dc_factory s))) in
      if dc_mw s then s\<lparr>dc_pubs := dc_pubs s @
        [External (dts_endpoint SESSION_INST_OAM MSG_ID_OAM_STATS_RESP) (map of_char buf) (of_nat (length buf))]\<rparr>
      else s)"

definition kDataHandlers :: "process_env \<Rightarrow> data_ctx MsgTable" where
  "kDataHandlers pe = [\<lparr>mh_msgId = MSG_ID_DATA_TASK_ACTIVE, mh_fn = Some OnTaskActive_data, mh_name = Some ''data_task_active''\<rparr>,
     \<lparr>mh_msgId = MSG_ID_AGENT_DATA, mh_fn = Some (OnAgentData pe), mh_name = Some ''agent_data''\<rparr>]"

definition kOamHandlers :: "data_ctx MsgTable" where
  "kOamHandlers = [\<lparr>mh_msgId = MSG_ID_OAM_STATS_REQ, mh_fn = Some OnOamStatsReq, mh_name = Some ''oam_stats_req''\<rparr>]"

definition kDataGroups :: "process_env \<Rightarrow> data_ctx SessionMsgTable list" where
  "kDataGroups pe = [\<lparr>sg_sessionType = Some SESSION_TYPE_DTS, sg_sessionInst = Some SESSION_INST_DATA, sg_entries = Some (kDataHandlers pe)\<rparr>,
     \<lparr>sg_sessionType = Some SESSION_TYPE_DTS, sg_sessionInst = Some SESSION_INST_OAM, sg_entries = Some kOamHandlers\<rparr>]"

definition DataMsgHandlerDispatch :: "process_env \<Rightarrow> cstr \<Rightarrow> u32 \<Rightarrow> bytes option \<Rightarrow> u32 \<Rightarrow> data_ctx \<Rightarrow> data_ctx" where
  "DataMsgHandlerDispatch pe sessionInst msgId msg len s =
     (if msgId = MSG_ID_TIMER then OnTick_data msg len s
      else dispatch_groups (kDataGroups pe) sessionInst msgId msg len s)"

section \<open>Routing tables of the threads\<close>

lemma c_str_insts [simp]: "c_str ''task'' = ''task''" "c_str ''data'' = ''data''" "c_str ''log'' = ''log''" "c_str ''oam'' = ''oam''"
    "c_str ''DTS'' = ''DTS''"
  by (simp_all add: c_str_def)

text \<open>Every table passes the checks the code asserts at compile time.\<close>

lemma tables_valid:
  "SessionGroupsValid (Some kTaskGroups) \<and> SessionGroupsValid (Some kLogGroups) \<and> SessionGroupsValid (Some (kDataGroups pe)) \<and>
   MsgIdsUnique kTaskHandlers \<and> MsgIdsUnique kLogHandlers \<and> MsgIdsUnique (kDataHandlers pe) \<and> MsgIdsUnique kOamHandlers"
  by (simp add: SessionGroupsValid_def kTaskGroups_def kLogGroups_def kDataGroups_def session_defs CStrEq_iff
      kTaskHandlers_def kLogHandlers_def kDataHandlers_def kOamHandlers_def msg_id_defs)

text \<open>A null instance finds no group, as the loop would decide as well.\<close>

lemma FindSessionTable_loop: "FindSessionTable (Some gs) inst = find_session_loop gs inst"
proof (cases inst)
  case None
  have "find_session_loop gs None = None" by (induction gs) (auto simp: CStrEq_iff)
  then show ?thesis by (simp add: None FindSessionTable_def)
qed (simp add: FindSessionTable_def)

lemma CStrEq_Some: "CStrEq (Some x) inst \<longleftrightarrow> map_option c_str inst = Some (c_str x)"
  unfolding CStrEq_iff option.map by (rule eq_commute)

lemmas dispatch_simps = dispatch_groups_def FindSessionTable_loop CStrEq_Some session_defs Dispatch_table_def msg_id_defs

lemma task_dispatch:
  "TaskMsgHandlerDispatch inst mid msg len s =
     (if map_option c_str inst = Some ''task'' \<and> mid = MSG_ID_TASK_ACTIVE then OnTaskActive_task msg len s
      else if map_option c_str inst = Some ''task'' \<and> mid = MSG_ID_TASK_CONFIG then OnTaskConfig msg len s
      else s)"
  by (cases "map_option c_str inst = Some ''task''")
    (auto simp: TaskMsgHandlerDispatch_def kTaskGroups_def kTaskHandlers_def dispatch_simps simp del: map_option_eq_Some)

lemma log_dispatch:
  "LogMsgHandlerDispatch inst mid msg len s =
     (if map_option c_str inst = Some ''log'' \<and> mid = MSG_ID_LOG_COLLECT then OnCollect msg len s else s)"
  by (cases "map_option c_str inst = Some ''log''")
    (auto simp: LogMsgHandlerDispatch_def kLogGroups_def kLogHandlers_def dispatch_simps simp del: map_option_eq_Some)

lemma data_dispatch:
  "DataMsgHandlerDispatch pe inst mid msg len s =
     (if mid = MSG_ID_TIMER then OnTick_data msg len s
      else if map_option c_str inst = Some ''data'' \<and> mid = MSG_ID_DATA_TASK_ACTIVE then OnTaskActive_data msg len s
      else if map_option c_str inst = Some ''data'' \<and> mid = MSG_ID_AGENT_DATA then OnAgentData pe msg len s
      else if map_option c_str inst = Some ''oam'' \<and> mid = MSG_ID_OAM_STATS_REQ then OnOamStatsReq msg len s
      else s)"
proof -
  consider "map_option c_str inst = Some ''data''" | "map_option c_str inst = Some ''oam''"
    | "map_option c_str inst \<noteq> Some ''data'' \<and> map_option c_str inst \<noteq> Some ''oam''" by blast
  then show ?thesis
    by cases (simp_all add: DataMsgHandlerDispatch_def kDataGroups_def kDataHandlers_def kOamHandlers_def dispatch_simps del: map_option_eq_Some)
qed

text \<open>What each business thread does with a message, for every instance, id and payload: the
  routing tables pass the asserted checks, the task thread handles activation and configuration,
  the log thread collection, the data thread activation, frames and statistics requests of
  its two groups, and ticks whatever their instance; every other message changes nothing.\<close>

theorem Threads_dispatch:
  "(SessionGroupsValid (Some kTaskGroups) \<and> SessionGroupsValid (Some kLogGroups) \<and> SessionGroupsValid (Some (kDataGroups pe)) \<and>
    MsgIdsUnique kTaskHandlers \<and> MsgIdsUnique kLogHandlers \<and> MsgIdsUnique (kDataHandlers pe) \<and> MsgIdsUnique kOamHandlers) \<and>
   TaskMsgHandlerDispatch inst mid msg len st =
     (if map_option c_str inst = Some ''task'' \<and> mid = MSG_ID_TASK_ACTIVE then OnTaskActive_task msg len st
      else if map_option c_str inst = Some ''task'' \<and> mid = MSG_ID_TASK_CONFIG then OnTaskConfig msg len st
      else st) \<and>
   LogMsgHandlerDispatch inst mid msg len sl =
     (if map_option c_str inst = Some ''log'' \<and> mid = MSG_ID_LOG_COLLECT then OnCollect msg len sl else sl) \<and>
   DataMsgHandlerDispatch pe inst mid msg len sd =
     (if mid = MSG_ID_TIMER then OnTick_data msg len sd
      else if map_option c_str inst = Some ''data'' \<and> mid = MSG_ID_DATA_TASK_ACTIVE then OnTaskActive_data msg len sd
      else if map_option c_str inst = Some ''data'' \<and> mid = MSG_ID_AGENT_DATA then OnAgentData pe msg len sd
      else if map_option c_str inst = Some ''oam'' \<and> mid = MSG_ID_OAM_STATS_REQ then OnOamStatsReq msg len sd
      else sd)"
  using tables_valid task_dispatch log_dispatch data_dispatch by blast

section \<open>Task activation across the two threads\<close>

text \<open>A \<open>TaskActiveMsg\<close> as its sender lays it out.\<close>

definition task_active_msg :: "u16 \<Rightarrow> u16 \<Rightarrow> u16 \<Rightarrow> u16 list \<Rightarrow> bytes" where
  "task_active_msg taskId ty cnt ids = le16 taskId @ le16 ty @ le16 cnt @ concat (map le16 ids)"

lemma length_concat_le16: "length (concat (map le16 ids)) = 2 * length ids"
  by (induction ids) auto

lemma get16_concat: "i < length ids \<Longrightarrow> mem_read (concat (map le16 ids)) (2 * i) 2 = le16 (ids ! i)"
proof (induction ids arbitrary: i)
  case (Cons a ids)
  show ?case
  proof (cases i)
    case 0
    then show ?thesis by (simp add: mem_read_def)
  next
    case (Suc j)
    then have "mem_read (concat (map le16 ids)) (2 * j) 2 = le16 (ids ! j)" using Cons by simp
    then show ?thesis using Suc by (simp add: mem_read_append_right)
  qed
qed simp

lemma task_active_fields:
  "get16 (task_active_msg t ty c ids) 0 = t" "get16 (task_active_msg t ty c ids) 2 = ty" "get16 (task_active_msg t ty c ids) 4 = c"
  "i < length ids \<Longrightarrow> get16 (task_active_msg t ty c ids) (6 + 2 * i) = ids ! i"
  by (rule get16_eq, simp add: task_active_msg_def mem_read_append_left mem_read_append_right mem_read_def get16_concat [unfolded mem_read_def])+

lemma length_task_active: "length (task_active_msg t ty c ids) = 6 + 2 * length ids"
  by (simp add: task_active_msg_def length_concat_le16)

lemma le_val_append: "le_val (xs @ ys) = le_val xs + 256 ^ length xs * le_val ys"
  by (induction xs) (auto simp: algebra_simps)

text \<open>The data thread reads the same bytes as a \<open>TaskRequest\<close>.\<close>

lemma task_request_fields:
  assumes "ids = i0 # is'"
  shows "unat (get32 (task_active_msg t ty c ids) 0) = unat t + 65536 * unat ty"
    and "unat (get32 (task_active_msg t ty c ids) 4) = unat c + 65536 * unat i0"
proof -
  have "mem_read (task_active_msg t ty c ids) 0 4 = le16 t @ le16 ty"
       "mem_read (task_active_msg t ty c ids) 4 4 = le16 c @ le16 i0"
    by (simp_all add: task_active_msg_def mem_read_def assms)
  moreover have "unat (of_nat (unat a + 65536 * unat b) :: u32) = unat a + 65536 * unat b" for a b :: u16
    using unat_lt_u16 [of a] unat_lt_u16 [of b] by (subst unat_of_nat) (simp add: take_bit_nat_eq_self)
  ultimately show "unat (get32 (task_active_msg t ty c ids) 0) = unat t + 65536 * unat ty"
    and "unat (get32 (task_active_msg t ty c ids) 4) = unat c + 65536 * unat i0"
    by (simp_all add: get32_def le_val_append le_val_le16 del: of_nat_add of_nat_mult)
qed

lemma task_active_config_msg:
  assumes "unat c \<le> length ids"
  shows "task_active_config (task_active_msg t ty c ids) = \<lparr>tc_taskId = t, tc_type = ty, tc_dataIds = take (unat c) ids\<rparr>"
proof -
  have "map (\<lambda>i. get16 (task_active_msg t ty c ids) (6 + 2 * i)) [0..<unat c] = take (unat c) ids"
    using assms by (intro nth_equalityI) (auto simp: task_active_fields)
  then show ?thesis by (simp add: task_active_config_def task_active_fields)
qed

lemma accept_case:
  assumes "tk_mw st" "get16 m 4 = cnt" "\<not> len < 22" "\<not> 8 < cnt" "unat cnt \<le> 8"
    "task_active_config m = \<lparr>tc_taskId = taskId, tc_type = ty, tc_dataIds = take (unat cnt) ids\<rparr>"
  shows "OnTaskActive_task (Some m) len st = (if unat cnt \<le> 8 \<and> Find_task (tk_mgr st) taskId = None \<and> Size (tk_mgr st) < 64
       then st\<lparr>tk_mgr := tk_mgr st @ [(taskId, \<lparr>tc_taskId = taskId, tc_type = ty, tc_dataIds = take (unat cnt) ids\<rparr>)],
               tk_pubs := tk_pubs st @ [Internal (dts_endpoint SESSION_INST_DATA MSG_ID_DATA_TASK_ACTIVE) m len]\<rparr>
       else st)"
  unfolding OnTaskActive_task_def using assms
  apply (simp only: option.case if_False assms(2) Create_task_def Add_task_def kMaxTasks_def Let_def TaskConfig.simps if_True simp_thms)
  apply (simp only: split: if_split)
  apply auto
  done

text \<open>The two threads' views of an activation.\<close>

lemma task_thread_activation:
  assumes "length ids = 8" "tk_mw st" "m = task_active_msg taskId ty cnt ids" "\<not> len < 22"
  shows "OnTaskActive_task (Some m) len st =
    (if unat cnt \<le> 8 \<and> Find_task (tk_mgr st) taskId = None \<and> Size (tk_mgr st) < 64
     then st\<lparr>tk_mgr := tk_mgr st @ [(taskId, \<lparr>tc_taskId = taskId, tc_type = ty, tc_dataIds = take (unat cnt) ids\<rparr>)],
             tk_pubs := tk_pubs st @ [Internal (dts_endpoint SESSION_INST_DATA MSG_ID_DATA_TASK_ACTIVE) m len]\<rparr>
     else st)"
proof (cases "unat cnt \<le> 8")
  case True
  have g: "get16 m 4 = cnt" by (simp add: assms(3) task_active_fields)
  have "task_active_config m = \<lparr>tc_taskId = taskId, tc_type = ty, tc_dataIds = take (unat cnt) ids\<rparr>"
    using True assms(1,3) by (simp add: task_active_config_msg)
  moreover have "\<not> cnt > 8" using True by (simp add: word_less_nat_alt)
  ultimately show ?thesis using True assms(2,4) by (intro accept_case [OF _ g])
next
  case False
  then have "cnt > 8" by (simp add: word_less_nat_alt)
  with False assms(4) show ?thesis by (simp add: OnTaskActive_task_def assms(3) task_active_fields)
qed

lemma task_request_view:
  assumes "length ids = 8" "m = task_active_msg taskId ty cnt ids"
  shows "get32 m 4 = 1 \<longleftrightarrow> cnt = 1 \<and> ids ! 0 = 0" "get32 m 0 = of_nat (unat taskId + 65536 * unat ty)"
proof -
  obtain i0 r where ids: "ids = i0 # r" using assms(1) by (cases ids) auto
  have one: "w = 1 \<longleftrightarrow> unat w = 1" for w :: "'a::len word" by (metis unat_1 word_unat_eq_iff)
  have zero: "w = 0 \<longleftrightarrow> unat w = 0" for w :: "'a::len word" by (metis unat_0 word_unat_eq_iff)
  have "unat (get32 m 4) = unat cnt + 65536 * unat i0"
    unfolding assms(2) by (rule task_request_fields(2) [OF ids])
  then have "get32 m 4 = 1 \<longleftrightarrow> unat cnt + 65536 * unat i0 = 1" unfolding one [of "get32 m 4"] by simp
  also have "\<dots> \<longleftrightarrow> unat cnt = 1 \<and> unat i0 = 0" by (cases "unat i0") simp_all
  finally show "get32 m 4 = 1 \<longleftrightarrow> cnt = 1 \<and> ids ! 0 = 0"
    unfolding one [of cnt] ids nth_Cons_0 zero [of i0] .
  have "unat (get32 m 0) = unat taskId + 65536 * unat ty"
    unfolding assms(2) by (rule task_request_fields(1) [OF ids])
  then show "get32 m 0 = of_nat (unat taskId + 65536 * unat ty)" by (metis of_nat_unat ucast_id)
qed

text \<open>C22: Activating a task through both threads. The task thread accepts a \<open>TaskActiveMsg\<close> exactly if
  its id count is at most 8, the task is not known and the table has room; it then records the
  task with its first ids and forwards the same bytes to the data thread. The data thread reads
  them as a \<open>TaskRequest\<close>: it takes the message exactly if the id count is 1 and the first id is 0,
  and then takes the task to be the number taskId + 65536 * type. So an ordinary activation with
  some other id list does not start processing, and with a type the task number differs.\<close>

theorem Task_activation_across_threads:
  assumes "length ids = 8" "tk_mw st" "m = task_active_msg taskId ty cnt ids" "unat len = length m"
  shows "TaskMsgHandlerDispatch (Some SESSION_INST_TASK) MSG_ID_TASK_ACTIVE (Some m) len st =
      (if unat cnt \<le> 8 \<and> Find_task (tk_mgr st) taskId = None \<and> Size (tk_mgr st) < 64
       then st\<lparr>tk_mgr := tk_mgr st @ [(taskId, \<lparr>tc_taskId = taskId, tc_type = ty, tc_dataIds = take (unat cnt) ids\<rparr>)],
               tk_pubs := tk_pubs st @ [Internal (dts_endpoint SESSION_INST_DATA MSG_ID_DATA_TASK_ACTIVE) m len]\<rparr>
       else st) \<and>
    DataMsgHandlerDispatch pe (Some SESSION_INST_DATA) MSG_ID_DATA_TASK_ACTIVE (Some m) len sd =
      (if cnt = 1 \<and> ids ! 0 = 0
       then sd\<lparr>dc_factory := (dc_factory sd)\<lparr>f_currentTask := of_nat (unat taskId + 65536 * unat ty)\<rparr>\<rparr>
       else sd)"
proof -
  have l: "unat len = 22" using assms by (simp add: length_task_active)
  then have l': "\<not> len < 22" "\<not> len < 8" by (simp_all add: word_less_nat_alt)
  note v = task_request_view [OF assms(1,3)]
  have "TaskMsgHandlerDispatch (Some SESSION_INST_TASK) MSG_ID_TASK_ACTIVE (Some m) len st = OnTaskActive_task (Some m) len st"
    by (simp add: task_dispatch session_defs)
  moreover have "DataMsgHandlerDispatch pe (Some SESSION_INST_DATA) MSG_ID_DATA_TASK_ACTIVE (Some m) len sd = OnTaskActive_data (Some m) len sd"
    by (simp add: data_dispatch session_defs msg_id_defs)
  moreover have "OnTaskActive_data (Some m) len sd = (if cnt = 1 \<and> ids ! 0 = 0
       then sd\<lparr>dc_factory := (dc_factory sd)\<lparr>f_currentTask := of_nat (unat taskId + 65536 * unat ty)\<rparr>\<rparr> else sd)"
    using l'(2) by (simp add: OnTaskActive_data_def v OnTask_def)
  ultimately show ?thesis using task_thread_activation [OF assms(1-3) l'(1)] by simp
qed

theorem Task_activation_across_threads_witness:
  "\<forall>pe sd. DataMsgHandlerDispatch pe (Some SESSION_INST_DATA) MSG_ID_DATA_TASK_ACTIVE (Some (task_active_msg 7 2 1 (replicate 8 0))) 22 sd =
     sd\<lparr>dc_factory := (dc_factory sd)\<lparr>f_currentTask := 131079\<rparr>\<rparr>"
  using Task_activation_across_threads [of "replicate 8 0" "\<lparr>tk_mgr = [], tk_mw = True, tk_pubs = []\<rparr>" "task_active_msg 7 2 1 (replicate 8 0)" 7 2 1 22]
  by (simp add: length_task_active)

section \<open>The task table over a run\<close>

type_synonym message = "cstr \<times> u32 \<times> bytes option \<times> u32"

text \<open>The task thread's mailbox, message after message.\<close>

fun run_task :: "message list \<Rightarrow> task_ctx \<Rightarrow> task_ctx" where
  "run_task [] s = s"
| "run_task ((inst, mid, msg, len) # ms) s = run_task ms (TaskMsgHandlerDispatch inst mid msg len s)"

text \<open>The invariant of the table: bounded, no id twice, every entry under its own id.\<close>

definition table_ok :: "TaskManager \<Rightarrow> bool" where
  "table_ok m \<longleftrightarrow> Size m \<le> kMaxTasks \<and> distinct (map fst m) \<and> (\<forall>e \<in> set m. tc_taskId (snd e) = fst e \<and> length (tc_dataIds (snd e)) \<le> 8)"

lemma Find_task_None: "Find_task m i = None \<longleftrightarrow> i \<notin> fst ` set m"
  by (simp add: Find_task_def map_of_eq_None_iff)

lemma Add_task_ok:
  assumes "table_ok m" "Add_task cfg m = Some m'" "length (tc_dataIds cfg) \<le> 8"
  shows "table_ok m'"
  using assms Find_task_None [of m "tc_taskId cfg"]
  by (auto simp: Add_task_def table_ok_def Size_def split: if_splits)

text \<open>What a message can do to the table.\<close>

lemma task_dispatch_mgr:
  "tk_mgr (TaskMsgHandlerDispatch inst mid msg len s) = tk_mgr s \<or>
   (\<exists>cfg. Create_task cfg (tk_mgr s) = Some (tk_mgr (TaskMsgHandlerDispatch inst mid msg len s)) \<and> length (tc_dataIds cfg) \<le> 8)"
proof -
  have "unat x \<le> 8" if "\<not> 8 < x" for x :: u16 using that by (simp add: word_less_nat_alt)
  then have ok: "length (tc_dataIds (task_active_config d)) \<le> 8" if "\<not> 8 < get16 d 4" for d
    using that by (simp add: task_active_config_def)
  show ?thesis
    unfolding task_dispatch
    by (auto simp: OnTaskActive_task_def OnTaskConfig_def Let_def ok split: option.split)
qed

lemma run_task_table:
  "table_ok (tk_mgr s) \<Longrightarrow> table_ok (tk_mgr (run_task ms s)) \<and>
   (\<forall>i c. Find_task (tk_mgr s) i = Some c \<longrightarrow> Find_task (tk_mgr (run_task ms s)) i = Some c) \<and>
   (Size (tk_mgr s) = kMaxTasks \<longrightarrow> tk_mgr (run_task ms s) = tk_mgr s)"
proof (induction ms s rule: run_task.induct)
  case (2 inst mid msg len ms s)
  let ?s1 = "TaskMsgHandlerDispatch inst mid msg len s"
  have step: "table_ok (tk_mgr ?s1) \<and> (\<forall>i c. Find_task (tk_mgr s) i = Some c \<longrightarrow> Find_task (tk_mgr ?s1) i = Some c) \<and>
      (Size (tk_mgr s) = kMaxTasks \<longrightarrow> tk_mgr ?s1 = tk_mgr s)"
  proof (cases "tk_mgr ?s1 = tk_mgr s")
    case True
    with "2.prems" show ?thesis by simp
  next
    case False
    then obtain cfg where c: "Add_task cfg (tk_mgr s) = Some (tk_mgr ?s1)" "length (tc_dataIds cfg) \<le> 8"
      using task_dispatch_mgr [of inst mid msg len s] by (auto simp: Create_task_def)
    have "Find_task (tk_mgr ?s1) i = Some d" if "Find_task (tk_mgr s) i = Some d" for i d
      using task_table.lookup_add [OF c(1)] task_table.add_taken [of "tk_mgr s" cfg] c(1) that
      by (cases "i = tc_taskId cfg") auto
    moreover have "Size (tk_mgr s) \<noteq> kMaxTasks" using c(1) by (auto simp: Add_task_def split: if_splits)
    ultimately show ?thesis using Add_task_ok [OF "2.prems" c] by blast
  qed
  then show ?case using "2.IH" by auto
qed simp

text \<open>C23: The task table over any sequence of messages: it never holds rest than 64 tasks, no id
  twice, each under its own id with at most 8 data ids; a task once recorded stays recorded with
  the same configuration; and no message ever removes one, so that from the 64th task on the
  table never changes again.\<close>

theorem Task_table_invariant:
  assumes "tk_mgr s = []"
  shows "table_ok (tk_mgr (run_task ms s)) \<and>
    (\<forall>i c. Find_task (tk_mgr (run_task ms s)) i = Some c \<longrightarrow> Find_task (tk_mgr (run_task (ms @ rest) s)) i = Some c) \<and>
    (Size (tk_mgr (run_task ms s)) = 64 \<longrightarrow> tk_mgr (run_task (ms @ rest) s) = tk_mgr (run_task ms s))"
proof -
  have app: "run_task (ms @ rest) s = run_task rest (run_task ms s)"
    by (induction ms s rule: run_task.induct) simp_all
  have "table_ok (tk_mgr s)" by (simp add: assms table_ok_def Size_def)
  then have "table_ok (tk_mgr (run_task ms s))" by (rule run_task_table [THEN conjunct1])
  with run_task_table [OF this, of rest] show ?thesis unfolding app by (simp add: kMaxTasks_def)
qed

theorem Task_table_invariant_witness:
  "table_ok (tk_mgr (run_task [(Some ''task'', 1, Some (replicate 22 1), 22)] \<lparr>tk_mgr = [], tk_mw = False, tk_pubs = []\<rparr>))"
  by (rule Task_table_invariant [THEN conjunct1]) simp

section \<open>Statistics over the operations session\<close>

lemma length_dec64: "length (dec64 w) \<le> 20"
proof -
  have "unat w < 10 ^ 20" using unat_lt_u64 [of w] by simp
  then show ?thesis unfolding dec64_def by (rule length_dec_string) simp
qed

text \<open>A statistics request is answered in full: whatever the counters, the text fits into the
  512-byte buffer, so the whole text is published to the operations session with its exact
  length, nothing else of the state changes, and without middleware nothing happens.\<close>

theorem Oam_stats_not_truncated:
  "DataMsgHandlerDispatch pe (Some SESSION_INST_OAM) MSG_ID_OAM_STATS_REQ msg len sd =
     (if dc_mw sd
      then sd\<lparr>dc_pubs := dc_pubs sd @ [External (dts_endpoint SESSION_INST_OAM MSG_ID_OAM_STATS_RESP)
              (map of_char (oam_stats_text (Stats (dc_factory sd)))) (of_nat (length (oam_stats_text (Stats (dc_factory sd)))))]\<rparr>
      else sd) \<and>
   length (oam_stats_text (Stats (dc_factory sd))) < 512"
proof -
  let ?x = "Stats (dc_factory sd)"
  have "length (oam_stats_text ?x) < 512"
    using length_dec64 [of "s_frames ?x"] length_dec64 [of "s_frameMaxUs ?x"] length_dec64 [of "s_frameBudgetWarn ?x"]
      length_dec64 [of "s_frameBudgetAlarm ?x"] length_dec32 [of "s_ticks ?x"] length_dec64 [of "s_dropPoolFull ?x"]
      length_dec64 [of "s_dropSliceOverCap ?x"] length_dec64 [of "s_keyFail ?x"] length_dec64 [of "s_budgetWarnUs ?x"]
      length_dec64 [of "s_budgetAlarmUs ?x"]
    by (simp add: oam_stats_text_def nl_def del: One_nat_def)
  then show ?thesis
    by (simp add: data_dispatch session_defs msg_id_defs OnOamStatsReq_def snprintf_text_def Let_def)
qed

end
