(* ===== verification/Thread_Loop.thy ===== *)
theory Thread_Loop
  imports Routing Interfaces
begin

text \<open>
  The business threads: the mailbox (\<open>infrastructure/include/mailbox.h\<close>) and the loop
  \<open>ThreadRun\<close> (\<open>infrastructure/src/dts_thread.cpp\<close>). The mailbox is an interpretation of the
  ordered-channel contract. The loop is a step relation in which other threads send and request
  the stop and time passes between the loop's own steps; its invariants give first-in
  first-out handling and the rate and priority of the 100 ms tick.
\<close>

section \<open>The mailbox\<close>

record MailMsg =
  mm_msgId :: u32
  mm_sessionInst :: cstr
  mm_payload :: "bytes option"

type_synonym Mailbox = "MailMsg list"

definition Send_move :: "u32 \<Rightarrow> bytes option \<Rightarrow> cstr \<Rightarrow> Mailbox \<Rightarrow> Mailbox" where
  "Send_move msgId payload sessionInst q =
     q @ [\<lparr>mm_msgId = msgId, mm_sessionInst = sessionInst, mm_payload = payload\<rparr>]"

definition Send_copy :: "u32 \<Rightarrow> bytes option \<Rightarrow> u32 \<Rightarrow> cstr \<Rightarrow> Mailbox \<Rightarrow> Mailbox" where
  "Send_copy msgId data len sessionInst q =
     Send_move msgId (Some (case data of None \<Rightarrow> [] | Some d \<Rightarrow> if len > 0 then take (unat len) d else [])) sessionInst q"

definition EmptyLocked :: "Mailbox \<Rightarrow> bool" where
  "EmptyLocked q \<longleftrightarrow> q = []"

definition TryPopLocked :: "Mailbox \<Rightarrow> (MailMsg \<times> Mailbox) option" where
  "TryPopLocked q = (if EmptyLocked q then None else Some (hd q, tl q))"

text \<open>Every thread's mailbox is an unbounded ordered channel.\<close>

interpretation mailbox: fifo "\<lambda>_. True" "\<lambda>q. q" "\<lambda>_ _. True"
    "\<lambda>m q. Some (Send_move (mm_msgId m) (mm_payload m) (mm_sessionInst m) q)" TryPopLocked
  by unfold_locales (auto simp: Send_move_def TryPopLocked_def EmptyLocked_def)

section \<open>The thread\<close>

text \<open>
  \<open>ThreadStatus\<close> is an enumeration over \<open>uint8_t\<close> whose value is taken from the message unchecked; the
  status is kept as that byte.
\<close>

type_synonym ThreadStatus = u8

definition IDLE :: ThreadStatus where "IDLE = 0"
definition WORKING :: ThreadStatus where "WORKING = 1"
definition STOP :: ThreadStatus where "STOP = 2"

text \<open>A call of the thread's entry function.\<close>

record entry_call =
  ec_status :: ThreadStatus
  ec_sessionInst :: cstr
  ec_msgId :: u32
  ec_data :: "bytes option"
  ec_len :: u32

datatype phase = Check | Wait | Done

text \<open>
  \<open>t_entry\<close> tells whether an entry function was set; \<open>t_now\<close> is the steady clock in milliseconds and
  \<open>t_next\<close> the next tick's deadline; \<open>t_calls\<close> are the calls of the entry function, each with the time of its
  call, and \<open>t_sent\<close> all messages ever sent.
\<close>

record thread =
  t_status :: ThreadStatus
  t_stop :: bool
  t_entry :: bool
  t_mailbox :: Mailbox
  t_phase :: phase
  t_now :: nat
  t_next :: nat
  t_calls :: "(nat \<times> entry_call) list"
  t_sent :: "MailMsg list"

definition start_thread :: "bool \<Rightarrow> nat \<Rightarrow> thread" where
  "start_thread entry now = \<lparr>t_status = IDLE, t_stop = False, t_entry = entry, t_mailbox = [], t_phase = Check,
     t_now = now, t_next = now + 100, t_calls = [], t_sent = []\<rparr>"

definition call_entry :: "entry_call \<Rightarrow> thread \<Rightarrow> thread" where
  "call_entry c s = (if t_entry s then s\<lparr>t_calls := t_calls s @ [(t_now s, c)]\<rparr> else s)"

definition timer_call :: "thread \<Rightarrow> entry_call" where
  "timer_call s = \<lparr>ec_status = t_status s, ec_sessionInst = None, ec_msgId = MSG_ID_TIMER, ec_data = None, ec_len = 0\<rparr>"

text \<open>The catch-up: \<open>do nextTick += 100ms while (nextTick <= now)\<close>, \<open>now\<close> being what the clock shows then.\<close>

function catch_up :: "nat \<Rightarrow> nat \<Rightarrow> nat" where
  "catch_up now next = (if next + 100 \<le> now then catch_up now (next + 100) else next + 100)"
  by pat_completeness auto
termination by (relation "measure (\<lambda>(now, next). now - next)") auto

declare catch_up.simps [simp del]

text \<open>Part 1 of the loop body: the tick, if due; the entry function takes \<open>d\<close> milliseconds.\<close>

definition tick_part :: "nat \<Rightarrow> thread \<Rightarrow> thread" where
  "tick_part d s = (if t_next s \<le> t_now s
     then (let s1 = (call_entry (timer_call s) s)\<lparr>t_now := t_now s + d\<rparr> in s1\<lparr>t_next := catch_up (t_now s1) (t_next s1)\<rparr>)
     else s)"

text \<open>Parts 3 and 4: a status message sets the status, and every message goes to the entry function.\<close>

definition handle_part :: "MailMsg \<Rightarrow> thread \<Rightarrow> thread" where
  "handle_part m s =
    (let s1 = (case mm_payload m of
                 Some p \<Rightarrow> if mm_msgId m = MSG_ID_STATUS \<and> length p \<ge> 4 then s\<lparr>t_status := hd p\<rparr> else s
               | None \<Rightarrow> s);
         p = (case mm_payload m of Some b \<Rightarrow> if b = [] then None else Some b | None \<Rightarrow> None);
         n = (case mm_payload m of Some b \<Rightarrow> of_nat (length b) | None \<Rightarrow> 0)
     in call_entry \<lparr>ec_status = t_status s1, ec_sessionInst = mm_sessionInst m, ec_msgId = mm_msgId m,
                    ec_data = p, ec_len = n\<rparr> s1)"

text \<open>
  The steps. The wait ends when the mailbox has a message, the stop is requested, or the deadline
  has come; then one message is taken, if there is one.
\<close>

inductive tstep :: "thread \<Rightarrow> thread \<Rightarrow> bool" where
  pass: "tstep s (s\<lparr>t_now := t_now s + d\<rparr>)"
| send: "tstep s (s\<lparr>t_mailbox := Send_move (mm_msgId m) (mm_payload m) (mm_sessionInst m) (t_mailbox s), t_sent := t_sent s @ [m]\<rparr>)"
| RequestStop: "tstep s (s\<lparr>t_stop := True\<rparr>)"
| leave: "t_phase s = Check \<Longrightarrow> t_stop s \<Longrightarrow> tstep s (s\<lparr>t_phase := Done\<rparr>)"
| check: "t_phase s = Check \<Longrightarrow> \<not> t_stop s \<Longrightarrow> tstep s ((tick_part d s)\<lparr>t_phase := Wait\<rparr>)"
| take: "t_phase s = Wait \<Longrightarrow> TryPopLocked (t_mailbox s) = Some (m, q) \<Longrightarrow>
    tstep s (handle_part m (s\<lparr>t_mailbox := q, t_phase := Check\<rparr>))"
| timeout: "t_phase s = Wait \<Longrightarrow> EmptyLocked (t_mailbox s) \<Longrightarrow> t_stop s \<or> t_next s \<le> t_now s \<Longrightarrow>
    tstep s (s\<lparr>t_phase := Check\<rparr>)"

inductive_cases tstepE: "tstep s s'"

inductive thread_reaches :: "thread \<Rightarrow> thread \<Rightarrow> bool" for s0 where
  start: "thread_reaches s0 s0"
| step: "thread_reaches s0 s \<Longrightarrow> tstep s s' \<Longrightarrow> thread_reaches s0 s'"

section \<open>Invariants\<close>

definition is_timer :: "nat \<times> entry_call \<Rightarrow> bool" where
  "is_timer c \<longleftrightarrow> ec_msgId (snd c) = MSG_ID_TIMER \<and> ec_sessionInst (snd c) = None \<and> ec_data (snd c) = None"

text \<open>What a message looks like to the entry function.\<close>

definition presents :: "MailMsg \<Rightarrow> nat \<times> entry_call \<Rightarrow> bool" where
  "presents m c \<longleftrightarrow> ec_sessionInst (snd c) = mm_sessionInst m \<and> ec_msgId (snd c) = mm_msgId m \<and>
     ec_data (snd c) = (if mm_payload m = Some [] then None else mm_payload m) \<and>
     ec_len (snd c) = (case mm_payload m of None \<Rightarrow> 0 | Some b \<Rightarrow> of_nat (length b))"

text \<open>Messages that the loop's own timer call cannot be mistaken for.\<close>

definition not_timer :: "MailMsg \<Rightarrow> bool" where
  "not_timer m \<longleftrightarrow> mm_msgId m \<noteq> MSG_ID_TIMER"

definition handled :: "thread \<Rightarrow> (nat \<times> entry_call) list" where
  "handled s = filter (\<lambda>c. \<not> is_timer c) (t_calls s)"

definition ticks :: "thread \<Rightarrow> (nat \<times> entry_call) list" where
  "ticks s = filter is_timer (t_calls s)"

lemma catch_up_bounds: "next \<le> now \<Longrightarrow> now < catch_up now next \<and> catch_up now next \<le> now + 100"
  by (induction now "next" rule: catch_up.induct) (subst (1 2) catch_up.simps, auto)

lemma catch_up_grid: "\<exists>k \<ge> 1. catch_up now next = next + 100 * k"
proof (induction now "next" rule: catch_up.induct)
  case (1 now "next")
  show ?case
  proof (cases "next + 100 \<le> now")
    case True
    with 1 obtain k where "k \<ge> 1" "catch_up now (next + 100) = next + 100 + 100 * k" by blast
    with True show ?thesis by (intro exI [of _ "Suc k"]) (simp add: catch_up.simps [of now "next"])
  next
    case False
    then show ?thesis by (intro exI [of _ 1]) (simp add: catch_up.simps [of now "next"])
  qed
qed

definition thread_inv :: "nat \<Rightarrow> thread \<Rightarrow> bool" where
  "thread_inv t0 s \<longleftrightarrow>
     (\<exists>done. t_sent s = done @ t_mailbox s \<and> list_all2 presents done (handled s)) \<and>
     (\<exists>k \<ge> 1. t_next s = t0 + 100 * k \<and> length (ticks s) + 1 \<le> k) \<and>
     t0 \<le> t_now s \<and> t_next s \<le> t_now s + 100 \<and> list_all not_timer (t_sent s)"

lemma is_timer_timer_call [simp]: "is_timer (t, timer_call s)"
  by (simp add: is_timer_def timer_call_def)

lemma thread_inv_start: "thread_inv t0 (start_thread True t0)"
  by (auto simp: thread_inv_def start_thread_def handled_def ticks_def)

lemma thread_inv_tick:
  assumes "thread_inv t0 s" "t_entry s"
  shows "thread_inv t0 (tick_part d s)" "t_entry (tick_part d s)"
proof -
  show e: "t_entry (tick_part d s)" using assms(2) by (simp add: tick_part_def call_entry_def Let_def)
  show "thread_inv t0 (tick_part d s)"
  proof (cases "t_next s \<le> t_now s")
    case True
    let ?n = "catch_up (t_now s + d) (t_next s)"
    have s: "tick_part d s = s\<lparr>t_calls := t_calls s @ [(t_now s, timer_call s)], t_now := t_now s + d, t_next := ?n\<rparr>"
      using True assms(2) by (simp add: tick_part_def call_entry_def Let_def)
    obtain k where k: "k \<ge> 1" "t_next s = t0 + 100 * k" "length (ticks s) + 1 \<le> k" using assms(1) by (auto simp: thread_inv_def)
    obtain j where j: "j \<ge> 1" "?n = t_next s + 100 * j" using catch_up_grid by blast
    have "?n \<le> t_now s + d + 100" using catch_up_bounds [of "t_next s" "t_now s + d"] True by simp
    moreover have "\<exists>i \<ge> 1. ?n = t0 + 100 * i \<and> Suc (length (ticks s)) + 1 \<le> i"
      using k j by (intro exI [of _ "k + j"]) simp
    ultimately show ?thesis using assms(1) unfolding s thread_inv_def
      by (simp add: handled_def ticks_def)
  qed (use assms(1) in \<open>simp add: tick_part_def\<close>)
qed

lemma handle_part_eq:
  assumes "t_entry s"
  shows "\<exists>st c. handle_part m s = s\<lparr>t_status := st, t_calls := t_calls s @ [(t_now s, c)]\<rparr> \<and> presents m (t_now s, c)"
proof (cases "mm_payload m")
  case None
  then show ?thesis using assms
    by (intro exI [of _ "t_status s"] exI [of _ "\<lparr>ec_status = t_status s, ec_sessionInst = mm_sessionInst m,
        ec_msgId = mm_msgId m, ec_data = None, ec_len = 0\<rparr>"])
      (simp add: handle_part_def call_entry_def presents_def)
next
  case (Some p)
  let ?st = "if mm_msgId m = MSG_ID_STATUS \<and> length p \<ge> 4 then hd p else t_status s"
  show ?thesis using assms Some
    by (intro exI [of _ ?st] exI [of _ "\<lparr>ec_status = ?st, ec_sessionInst = mm_sessionInst m,
        ec_msgId = mm_msgId m, ec_data = (if p = [] then None else Some p), ec_len = of_nat (length p)\<rparr>"])
      (simp add: handle_part_def call_entry_def presents_def)
qed

lemma thread_inv_handle:
  assumes "thread_inv t0 s" "t_entry s" "t_mailbox s = m # q"
  shows "thread_inv t0 (handle_part m (s\<lparr>t_mailbox := q, t_phase := p\<rparr>))"
proof -
  let ?s = "handle_part m (s\<lparr>t_mailbox := q, t_phase := p\<rparr>)"
  obtain st c where e: "?s = (s\<lparr>t_mailbox := q, t_phase := p\<rparr>)\<lparr>t_status := st, t_calls := t_calls s @ [(t_now s, c)]\<rparr>"
    and c2: "presents m (t_now s, c)"
    using handle_part_eq [of "s\<lparr>t_mailbox := q, t_phase := p\<rparr>" m] assms(2) by auto
  have c: "t_calls ?s = t_calls s @ [(t_now s, c)]" "presents m (t_now s, c)" using c2 by (simp_all add: e)
  have f: "t_sent ?s = t_sent s" "t_mailbox ?s = q" "t_next ?s = t_next s" "t_now ?s = t_now s" by (simp_all add: e)
  obtain dn where dn: "t_sent s = dn @ t_mailbox s" "list_all2 presents dn (handled s)" using assms(1) by (auto simp: thread_inv_def)
  have "not_timer m" using assms(1,3) dn(1) by (auto simp: thread_inv_def)
  then have nt: "\<not> is_timer (t_now s, c)" using c(2) by (auto simp: presents_def is_timer_def not_timer_def)
  have "list_all2 presents (dn @ [m]) (handled ?s)"
    using dn(2) c nt by (simp add: handled_def list_all2_appendI)
  moreover have "t_sent ?s = (dn @ [m]) @ t_mailbox ?s" using f dn(1) assms(3) by simp
  moreover have "ticks ?s = ticks s" using c nt by (simp add: ticks_def)
  ultimately show ?thesis using assms(1) f unfolding thread_inv_def by metis
qed

lemma thread_inv_step:
  assumes "tstep s s'" "thread_inv t0 s" "t_entry s" "list_all not_timer (t_sent s')"
  shows "thread_inv t0 s' \<and> t_entry s'"
  using assms(1)
proof cases
  case (send m)
  then show ?thesis using assms by (auto simp: thread_inv_def handled_def ticks_def Send_move_def)
next
  case (check d)
  then have "thread_inv t0 (tick_part d s)" "t_entry (tick_part d s)" using thread_inv_tick assms(2,3) by auto
  then show ?thesis using check by (simp add: thread_inv_def handled_def ticks_def)
next
  case (take m q)
  then have "t_mailbox s = m # q" by (auto simp: TryPopLocked_def EmptyLocked_def split: if_splits)
  from thread_inv_handle [OF assms(2,3) this] have "thread_inv t0 s'" using take by simp
  moreover have "t_entry s'" using handle_part_eq [of "s\<lparr>t_mailbox := q, t_phase := Check\<rparr>" m] take assms(3) by auto
  ultimately show ?thesis ..
qed (use assms in \<open>auto simp: thread_inv_def handled_def ticks_def\<close>)

lemma tstep_sent: "tstep s s' \<Longrightarrow> \<exists>ms. t_sent s' = t_sent s @ ms"
proof (erule tstepE)
  fix m q assume "s' = handle_part m (s\<lparr>t_mailbox := q, t_phase := Check\<rparr>)"
  then have "t_sent s' = t_sent s"
    by (cases "mm_payload m") (simp_all add: handle_part_def call_entry_def Let_def)
  then show ?thesis by simp
qed (auto simp: tick_part_def call_entry_def Let_def)

lemma thread_inv_reach:
  "thread_reaches (start_thread True t0) s \<Longrightarrow> list_all not_timer (t_sent s) \<Longrightarrow> thread_inv t0 s \<and> t_entry s"
proof (induction rule: thread_reaches.induct)
  case start
  show ?case by (simp add: thread_inv_start) (simp add: start_thread_def)
next
  case (step s s')
  then show ?case using tstep_sent [of s s'] thread_inv_step [of s s' t0] by auto
qed

text \<open>C20: A thread handles its messages in order and keeps its tick. In every state that the loop
  reaches, under any interleaving of senders and any durations: the messages handled so far are
  the first messages sent, each once and in order, and the rest is in the mailbox; there was at most
  one timer call per 100 ms since the start; a pass that begins at or after the deadline calls
  the timer before it looks at the mailbox, however full it is, and moves the deadline into the
  future; and once the stop is requested, the loop ends after at most one more message.\<close>

theorem Thread_fifo_and_tick:
  assumes "thread_reaches (start_thread True t0) s" "list_all not_timer (t_sent s)"
  shows "(\<exists>done. t_sent s = done @ t_mailbox s \<and> list_all2 presents done (handled s)) \<and>
    100 * length (ticks s) \<le> t_now s - t0 \<and>
    (t_phase s = Check \<and> \<not> t_stop s \<and> t_next s \<le> t_now s \<and> tstep s s' \<and> t_phase s' = Wait \<longrightarrow>
       t_calls s' = t_calls s @ [(t_now s, timer_call s)] \<and> t_mailbox s' = t_mailbox s \<and> t_now s' < t_next s') \<and>
    (t_stop s \<and> t_phase s = Wait \<longrightarrow>
       (\<exists>s1 s2. tstep s s1 \<and> tstep s1 s2 \<and> t_phase s2 = Done \<and> length (t_calls s2) \<le> length (t_calls s) + 1))"
proof (intro conjI impI)
  have inv: "thread_inv t0 s" "t_entry s" using thread_inv_reach [OF assms] by auto
  show "\<exists>done. t_sent s = done @ t_mailbox s \<and> list_all2 presents done (handled s)"
    using inv(1) by (simp add: thread_inv_def)
  show "100 * length (ticks s) \<le> t_now s - t0" using inv(1) by (auto simp: thread_inv_def)
  assume a: "t_phase s = Check \<and> \<not> t_stop s \<and> t_next s \<le> t_now s \<and> tstep s s' \<and> t_phase s' = Wait"
  then have "\<exists>d. s' = (tick_part d s)\<lparr>t_phase := Wait\<rparr>" by (auto elim: tstepE)
  then obtain d where d: "s' = (tick_part d s)\<lparr>t_phase := Wait\<rparr>" ..
  then show "t_calls s' = t_calls s @ [(t_now s, timer_call s)]" "t_mailbox s' = t_mailbox s" "t_now s' < t_next s'"
    using a inv(2) catch_up_bounds [of "t_next s" "t_now s + d"]
    by (simp_all add: tick_part_def call_entry_def Let_def)
next
  have inv: "t_entry s" using thread_inv_reach [OF assms] by auto
  assume a: "t_stop s \<and> t_phase s = Wait"
  show "\<exists>s1 s2. tstep s s1 \<and> tstep s1 s2 \<and> t_phase s2 = Done \<and> length (t_calls s2) \<le> length (t_calls s) + 1"
  proof (cases "t_mailbox s")
    case Nil
    then have "tstep s (s\<lparr>t_phase := Check\<rparr>)" using a by (intro timeout) (auto simp: EmptyLocked_def)
    moreover have "tstep (s\<lparr>t_phase := Check\<rparr>) (s\<lparr>t_phase := Check\<rparr>\<lparr>t_phase := Done\<rparr>)" using a by (intro leave) auto
    ultimately show ?thesis
      by (intro exI [of _ "s\<lparr>t_phase := Check\<rparr>"] exI [of _ "s\<lparr>t_phase := Check\<rparr>\<lparr>t_phase := Done\<rparr>"]) simp
  next
    case (Cons m q)
    let ?s1 = "handle_part m (s\<lparr>t_mailbox := q, t_phase := Check\<rparr>)"
    have 1: "tstep s ?s1" using a Cons by (intro take) (auto simp: TryPopLocked_def EmptyLocked_def)
    obtain st c where e: "?s1 = (s\<lparr>t_mailbox := q, t_phase := Check\<rparr>)\<lparr>t_status := st, t_calls := t_calls s @ [(t_now s, c)]\<rparr>"
      using handle_part_eq [of "s\<lparr>t_mailbox := q, t_phase := Check\<rparr>" m] inv by auto
    have "tstep ?s1 (?s1\<lparr>t_phase := Done\<rparr>)" using a by (intro leave) (simp_all add: e)
    with 1 show ?thesis by (intro exI [of _ ?s1] exI [of _ "?s1\<lparr>t_phase := Done\<rparr>"]) (simp add: e)
  qed
qed

theorem Thread_fifo_and_tick_witness:
  "\<exists>s. thread_reaches (start_thread True 0) s \<and> length (handled s) = 1 \<and> 100 * length (ticks s) \<le> t_now s"
proof -
  let ?m = "\<lparr>mm_msgId = 3, mm_sessionInst = Some ''data'', mm_payload = Some [1, 2]\<rparr>"
  let ?s0 = "start_thread True 0"
  let ?s1 = "?s0\<lparr>t_mailbox := Send_move (mm_msgId ?m) (mm_payload ?m) (mm_sessionInst ?m) (t_mailbox ?s0), t_sent := t_sent ?s0 @ [?m]\<rparr>"
  let ?s2 = "?s1\<lparr>t_now := t_now ?s1 + 250\<rparr>"
  let ?s3 = "(tick_part 0 ?s2)\<lparr>t_phase := Wait\<rparr>"
  let ?s4 = "handle_part ?m (?s3\<lparr>t_mailbox := [], t_phase := Check\<rparr>)"
  have "thread_reaches ?s0 ?s1" by (rule thread_reaches.step [OF thread_reaches.start]) (rule send)
  then have "thread_reaches ?s0 ?s2" by (rule thread_reaches.step) (rule pass)
  then have "thread_reaches ?s0 ?s3" by (rule thread_reaches.step) (rule check; simp add: start_thread_def)
  moreover have "t_mailbox ?s3 = [?m]"
    by (simp add: tick_part_def call_entry_def start_thread_def Send_move_def Let_def)
  ultimately have r: "thread_reaches ?s0 ?s4"
    by - (rule thread_reaches.step, assumption, rule take, simp_all add: TryPopLocked_def EmptyLocked_def)
  have sent: "t_sent ?s4 = [?m]" "t_mailbox ?s4 = []"
    by (simp_all add: handle_part_def tick_part_def call_entry_def start_thread_def Let_def)
  then have "list_all not_timer (t_sent ?s4)" by (simp add: not_timer_def MSG_ID_TIMER_def)
  from Thread_fifo_and_tick [OF r this, of ?s4] sent have "length (handled ?s4) = 1" "100 * length (ticks ?s4) \<le> t_now ?s4"
    by (auto dest: list_all2_lengthD)
  with r show ?thesis by blast
qed

section \<open>The end of the loop\<close>

text \<open>
  Runs of the thread among the others: \<open>thread_run n s s'\<close> has \<open>n\<close> steps of the loop itself, those that move it
  from one phase to the next, and any number of steps of other threads and of the clock.
\<close>

inductive thread_run :: "nat \<Rightarrow> thread \<Rightarrow> thread \<Rightarrow> bool" where
  none: "thread_run 0 s s"
| other: "thread_run n s s' \<Longrightarrow> tstep s' s'' \<Longrightarrow> t_phase s'' = t_phase s' \<Longrightarrow> thread_run n s s''"
| own: "thread_run n s s' \<Longrightarrow> tstep s' s'' \<Longrightarrow> t_phase s'' \<noteq> t_phase s' \<Longrightarrow> thread_run (Suc n) s s''"

text \<open>The steps of its own that a stopped thread has left, and the calls of its entry function.\<close>

fun steps_left :: "phase \<Rightarrow> nat" where
  "steps_left Done = 0" | "steps_left Check = 1" | "steps_left Wait = 2"

fun calls_left :: "phase \<Rightarrow> nat" where
  "calls_left Done = 0" | "calls_left Check = 0" | "calls_left Wait = 1"

lemma handle_part_fields [simp]:
  "t_phase (handle_part m s) = t_phase s" "t_stop (handle_part m s) = t_stop s" "t_mailbox (handle_part m s) = t_mailbox s"
  "length (t_calls (handle_part m s)) \<le> Suc (length (t_calls s))"
  by (cases "mm_payload m"; simp add: handle_part_def call_entry_def Let_def)+

lemma stopped_step:
  assumes "tstep s s'" "t_stop s"
  shows "t_stop s' \<and> (t_phase s' = t_phase s \<or> steps_left (t_phase s) = Suc (steps_left (t_phase s'))) \<and>
    length (t_calls s') + calls_left (t_phase s') \<le> length (t_calls s) + calls_left (t_phase s)"
  using assms(1)
proof cases
  case (take m q)
  have "length (t_calls s') \<le> Suc (length (t_calls s))"
    using handle_part_fields(4) [of m "s\<lparr>t_mailbox := q, t_phase := Check\<rparr>"] unfolding take(1) by simp
  moreover have "t_phase s' = Check" "t_stop s'" unfolding take(1) using assms(2) by simp_all
  ultimately show ?thesis using take(2) by simp
qed (use assms(2) in simp_all)

lemma stopped_enabled:
  assumes "t_stop s" "t_phase s \<noteq> Done"
  shows "\<exists>s'. tstep s s' \<and> t_phase s' \<noteq> t_phase s"
proof (cases "t_phase s")
  case Check
  with assms(1) show ?thesis by (intro exI [of _ "s\<lparr>t_phase := Done\<rparr>"]) (simp add: tstep.leave)
next
  case Wait
  show ?thesis
  proof (cases "t_mailbox s")
    case Nil
    with Wait assms(1) show ?thesis by (intro exI [of _ "s\<lparr>t_phase := Check\<rparr>"]) (simp add: tstep.timeout EmptyLocked_def)
  next
    case (Cons m q)
    let ?s = "handle_part m (s\<lparr>t_mailbox := q, t_phase := Check\<rparr>)"
    have "tstep s ?s" using Wait Cons by (intro tstep.take) (simp_all add: TryPopLocked_def EmptyLocked_def)
    moreover have "t_phase ?s \<noteq> t_phase s" unfolding Wait by simp
    ultimately show ?thesis by blast
  qed
qed (use assms in simp)

lemma stopped_run:
  "thread_run n s s' \<Longrightarrow> t_stop s \<Longrightarrow> t_stop s' \<and> n + steps_left (t_phase s') = steps_left (t_phase s) \<and>
     length (t_calls s') + calls_left (t_phase s') \<le> length (t_calls s) + calls_left (t_phase s)"
proof (induction rule: thread_run.induct)
  case (other n s s' s'')
  with stopped_step [OF other.hyps(2)] show ?case by simp
next
  case (own n s s' s'')
  then have "t_stop s'" by blast
  from stopped_step [OF own.hyps(2) this] own show ?case by simp
qed simp

text \<open>C21: The join of a stopped thread returns. Once its stop is requested, a thread makes at most two more steps
  of its own, whatever the other threads send and however the time passes; at every moment before its
  end one such step is possible, so that a thread that is given processor time ends; and it calls its
  entry function at most once more, leaving whatever else is in the mailbox.\<close>

theorem Stopped_thread_ends:
  assumes "t_stop s" "thread_run n s s'"
  shows "n \<le> 2 \<and> length (t_calls s') \<le> length (t_calls s) + 1 \<and>
    (t_phase s' = Done \<longleftrightarrow> n = steps_left (t_phase s)) \<and>
    (t_phase s' \<noteq> Done \<longrightarrow> (\<exists>s''. tstep s' s'' \<and> thread_run (Suc n) s s''))"
proof -
  note r = stopped_run [OF assms(2,1)]
  have "steps_left p \<le> 2" "calls_left p \<le> 1" "steps_left p = 0 \<longleftrightarrow> p = Done" for p by (cases p; simp)+
  then have "n \<le> 2" "length (t_calls s') \<le> length (t_calls s) + 1" "t_phase s' = Done \<longleftrightarrow> n = steps_left (t_phase s)"
    using r by (metis add_leD1, metis add_leD1 le_trans nat_add_left_cancel_le, metis add_cancel_left_right)
  moreover have "\<exists>s''. tstep s' s'' \<and> thread_run (Suc n) s s''" if "t_phase s' \<noteq> Done"
    using stopped_enabled [of s'] that r thread_run.own [OF assms(2)] by blast
  ultimately show ?thesis by blast
qed

theorem Stopped_thread_ends_witness:
  "\<exists>s'. thread_run 2 ((start_thread True 0)\<lparr>t_phase := Wait, t_stop := True\<rparr>) s' \<and> t_phase s' = Done"
proof -
  let ?s = "(start_thread True 0)\<lparr>t_phase := Wait, t_stop := True\<rparr>"
  have st: "t_stop ?s" by simp
  from Stopped_thread_ends [OF st thread_run.none] obtain s1 where 1: "thread_run 1 ?s s1" by auto
  from Stopped_thread_ends [OF st this] obtain s2 where 2: "thread_run 2 ?s s2" by (auto simp: numeral_2_eq_2)
  from Stopped_thread_ends [OF st this] have "t_phase s2 = Done" by simp
  with 2 show ?thesis by blast
qed

end
