(* ===== verification/Detmw_Fastdds.thy ===== *)
theory Detmw_Fastdds
  imports Detmw
begin

text \<open>
  The FastDDS transport of the middleware (\<open>detmw_fastdds.cpp\<close>, \<open>detmw_fixed_type.h\<close>): the two payload
  types, per-topic types, topics, readers and writers, the strict length of fixed-size channels
  and the zero-copy path with its fall-back, and the participant configuration chosen from the
  environment. FastDDS itself is not part of the sources: what its calls answer is the record
  \<open>dds\<close>, and what a successful write hands over is the list \<open>fd_wire\<close>. The transport is an
  interpretation of the contract that the \<open>Communicator\<close> relies on.
\<close>

section \<open>Payload types\<close>

text \<open>\<open>Bytes\<close> is \<open>BytesType\<close>, \<open>Fixed n\<close> is \<open>FixedBytesType(n)\<close>.\<close>

datatype topic_type = Bytes | Fixed u32

definition type_name :: "topic_type \<Rightarrow> string" where
  "type_name ty = (case ty of Bytes \<Rightarrow> ''detmw::Bytes'' | Fixed n \<Rightarrow> ''detmw::FixedBytes_'' @ dec_string (unat n))"

definition max_serialized_type_size :: "topic_type \<Rightarrow> u32" where
  "max_serialized_type_size ty = (case ty of Bytes \<Rightarrow> 65536 | Fixed n \<Rightarrow> n)"

definition is_plain :: "topic_type \<Rightarrow> bool" where
  "is_plain ty \<longleftrightarrow> ty \<noteq> Bytes"

text \<open>\<open>serialize\<close>: the payload made of the vector; the fixed type copies \<open>m_size\<close> bytes unchecked.\<close>

definition serialize :: "topic_type \<Rightarrow> bytes \<Rightarrow> bytes" where
  "serialize ty vec = (case ty of Bytes \<Rightarrow> vec | Fixed n \<Rightarrow> take (unat n) vec)"

text \<open>\<open>deserialize\<close> into the vector \<open>vec\<close> that the listener has allocated.\<close>

definition deserialize :: "topic_type \<Rightarrow> bytes \<Rightarrow> bytes \<Rightarrow> bytes" where
  "deserialize ty payload vec = (case ty of
     Bytes \<Rightarrow> payload
   | Fixed sz \<Rightarrow> (let n = (if length payload < unat sz then length payload else unat sz)
                 in take n (mem_write vec 0 (take n payload))))"

definition create_data :: "topic_type \<Rightarrow> bytes" where
  "create_data ty = (case ty of Bytes \<Rightarrow> [] | Fixed n \<Rightarrow> replicate (unat n) 0)"

text \<open>
  \<open>RecvListener::on_data_available\<close>: all samples are taken; each valid one is handed to the callback in
  a vector of its own. A sample is its validity and its payload.
\<close>

fun on_data_available :: "topic_type \<Rightarrow> u32 \<Rightarrow> recv_id \<Rightarrow> (bool \<times> bytes) list \<Rightarrow> (recv_id \<times> bytes) list" where
  "on_data_available ty plainSize r [] = []"
| "on_data_available ty plainSize r ((valid, p) # samples) =
     (let vec = deserialize ty p (replicate (unat plainSize) 0) in
      (if valid \<and> fst r \<noteq> None then [(r, vec)] else []) @ on_data_available ty plainSize r samples)"

section \<open>QoS from the environment\<close>

record QosSettings =
  q_reliable :: bool
  q_keepLast :: bool
  q_depth :: u32
  q_transientLocal :: bool
  q_maxSamples :: "32 word"

definition LoadQos :: "(string \<Rightarrow> string option) \<Rightarrow> QosSettings" where
  "LoadQos env =
    \<lparr>q_reliable = (case env ''DETMW_QOS_RELIABILITY'' of Some v \<Rightarrow> v \<noteq> ''best_effort'' | None \<Rightarrow> True),
     q_keepLast = (case env ''DETMW_QOS_HISTORY'' of Some v \<Rightarrow> v \<noteq> ''keep_all'' | None \<Rightarrow> True),
     q_depth = (case env ''DETMW_QOS_DEPTH'' of Some v \<Rightarrow> ucast (fst (strtoull10 v)) | None \<Rightarrow> 1000),
     q_transientLocal = (case env ''DETMW_QOS_DURABILITY'' of Some v \<Rightarrow> v = ''transient_local'' | None \<Rightarrow> False),
     q_maxSamples = (case env ''DETMW_QOS_MAX_SAMPLES'' of Some v \<Rightarrow> of_int (strtol10 v) | None \<Rightarrow> - 1)\<rparr>"

section \<open>The transport's state\<close>

record fd_reader =
  rd_topic :: string
  rd_recv :: recv_id
  rd_plainSize :: u32
  rd_qos :: QosSettings

record FastDdsState =
  fd_participant :: bool
  fd_types :: "string \<Rightarrow> topic_type option"
  fd_plainSizes :: "string \<Rightarrow> u32 option"
  fd_topics :: "string list"
  fd_writers :: "(string \<times> QosSettings) list"
  fd_readers :: "fd_reader list"
  fd_writeCount :: "string \<Rightarrow> u64 option"
  fd_wire :: "(string \<times> bytes) list"

text \<open>What FastDDS answers: whether it creates a topic, reader or writer, lends a sample, writes.\<close>

record dds =
  dds_topic :: "string \<Rightarrow> string \<Rightarrow> bool"
  dds_reader :: "string \<Rightarrow> bool"
  dds_writer :: "string \<Rightarrow> bool"
  dds_loan :: "string \<Rightarrow> bytes \<Rightarrow> bool"
  dds_write :: "string \<Rightarrow> bytes \<Rightarrow> bool"

definition GetOrCreateType :: "string \<Rightarrow> FastDdsState \<Rightarrow> topic_type \<times> FastDdsState" where
  "GetOrCreateType topic s = (case fd_types s topic of
     Some ty \<Rightarrow> (ty, s)
   | None \<Rightarrow> (let ty = (case fd_plainSizes s topic of Some n \<Rightarrow> if n > 0 then Fixed n else Bytes | None \<Rightarrow> Bytes)
              in (ty, s\<lparr>fd_types := (fd_types s)(topic \<mapsto> ty)\<rparr>)))"

definition FindOrCreateTopic :: "dds \<Rightarrow> string \<Rightarrow> FastDdsState \<Rightarrow> bool \<times> FastDdsState" where
  "FindOrCreateTopic d topic s =
    (if topic \<in> set (fd_topics s) then (True, s)
     else (let (ty, s1) = GetOrCreateType topic s in
           if dds_topic d topic (type_name ty) then (True, s1\<lparr>fd_topics := fd_topics s1 @ [topic]\<rparr>) else (False, s1)))"

definition FindWriter :: "FastDdsState \<Rightarrow> string \<Rightarrow> bool" where
  "FindWriter s topic \<longleftrightarrow> topic \<in> fst ` set (fd_writers s)"

definition MakeTopic_ep :: "endpoint \<Rightarrow> string" where
  "MakeTopic_ep ep = session_type ep @ ''_'' @ session_inst ep @ ''_'' @ dec_string (unat (msg_id ep))"

definition CreateReader :: "dds \<Rightarrow> QosSettings \<Rightarrow> endpoint \<Rightarrow> recv_id \<Rightarrow> FastDdsState \<Rightarrow> int \<times> FastDdsState" where
  "CreateReader d qos ep r s =
    (if \<not> fd_participant s then (- 1, s)
     else (let topic = MakeTopic_ep ep; (ok, s1) = FindOrCreateTopic d topic s in
       if \<not> ok then (- 1, s1)
       else (let plainSize = (case fd_plainSizes s1 topic of Some n \<Rightarrow> n | None \<Rightarrow> 0) in
         if \<not> dds_reader d topic then (- 1, s1)
         else (0, s1\<lparr>fd_readers := fd_readers s1 @ [\<lparr>rd_topic = topic, rd_recv = r, rd_plainSize = plainSize, rd_qos = qos\<rparr>]\<rparr>))))"

definition CreateWriter :: "dds \<Rightarrow> QosSettings \<Rightarrow> endpoint \<Rightarrow> FastDdsState \<Rightarrow> int \<times> FastDdsState" where
  "CreateWriter d qos ep s =
    (if \<not> fd_participant s then (- 1, s)
     else (let topic = MakeTopic_ep ep in
       if FindWriter s topic then (0, s)
       else (let (ok, s1) = FindOrCreateTopic d topic s in
         if \<not> ok then (- 1, s1)
         else if \<not> dds_writer d topic then (- 1, s1)
         else (0, s1\<lparr>fd_writers := fd_writers s1 @ [(topic, qos)]\<rparr>))))"

text \<open>A successful write: the payload goes out and the topic's counter goes up.\<close>

definition written :: "string \<Rightarrow> bytes \<Rightarrow> FastDdsState \<Rightarrow> FastDdsState" where
  "written topic p s = s\<lparr>fd_wire := fd_wire s @ [(topic, p)],
     fd_writeCount := (fd_writeCount s)(topic \<mapsto> (case fd_writeCount s topic of None \<Rightarrow> 1 | Some n \<Rightarrow> n + 1))\<rparr>"

text \<open>
  \<open>Send\<close>. On a fixed-size topic the payload is written into a lent sample if FastDDS lends one;
  otherwise, and on every other topic, a vector is written and serialised by the topic's type.
\<close>

definition Send :: "dds \<Rightarrow> endpoint \<Rightarrow> bytes option \<Rightarrow> u32 \<Rightarrow> FastDdsState \<Rightarrow> int \<times> FastDdsState" where
  "Send d ep data len s =
    (if \<not> fd_participant s then (- 1, s)
     else (let topic = MakeTopic_ep ep; payload = sent_bytes data len in
       if \<not> FindWriter s topic then (- 1, s)
       else (let sz = (case fd_plainSizes s topic of Some n \<Rightarrow> n | None \<Rightarrow> 0) in
         if sz > 0 \<and> len \<noteq> sz then (- 1, s)
         else if sz > 0 \<and> dds_loan d topic payload
           then (if dds_write d topic payload then (0, written topic payload s) else (- 1, s))
         else if dds_write d topic payload then (0, written topic payload s) else (- 1, s))))"

definition fastdds_ops :: "dds \<Rightarrow> QosSettings \<Rightarrow> FastDdsState transport_ops" where
  "fastdds_ops d qos = \<lparr>tr_CreateReader = CreateReader d qos, tr_CreateWriter = CreateWriter d qos, tr_Send = Send d\<rparr>"

text \<open>Whether the participant is there; the end of the transport, which deletes it with all its endpoints; and
  the count of samples that a listener keeps for the end's log lines.\<close>

definition Ready :: "FastDdsState option \<Rightarrow> bool" where
  "Ready s = (case s of None \<Rightarrow> False | Some st \<Rightarrow> fd_participant st)"

definition destroy_fastdds :: "FastDdsState \<Rightarrow> FastDdsState option" where
  "destroy_fastdds s = None"

definition recv_count :: "u64 \<Rightarrow> (bool \<times> bytes) list \<Rightarrow> u64" where
  "recv_count n samples = n + of_nat (length (filter fst samples))"

text \<open>Each valid sample is counted, and each counted one reaches a callback if there is one.\<close>

lemma recv_count_callbacks:
  "fst r \<noteq> None \<Longrightarrow> recv_count 0 samples = of_nat (length (on_data_available ty plainSize r samples))"
  unfolding recv_count_def by (induction ty plainSize r samples rule: on_data_available.induct) (auto simp: Let_def)

section \<open>The participant's configuration\<close>

datatype user_transport = Udp "u32 option" | Bucket u32

record participant_config =
  pc_builtin_transports :: bool
  pc_user_transports :: "user_transport list"
  pc_max_msg_size_no_frag :: "u32 option"
  pc_peers :: "u32 list"
  pc_multicast :: bool
  pc_static :: bool

definition udp_mtu :: "(string \<Rightarrow> string option) \<Rightarrow> u32" where
  "udp_mtu env = (case env ''DETMW_UDP_MTU'' of
     None \<Rightarrow> 0
   | Some mtu \<Rightarrow> (let v = ucast (fst (strtoull10 mtu)) in if v \<ge> 576 \<and> v \<le> 65500 then v else 0))"

definition peer_port :: "u32 \<Rightarrow> u32 \<Rightarrow> u32" where
  "peer_port domain_id pid = 7400 + 250 * domain_id + 10 + 2 * pid"

definition default_config :: participant_config where
  "default_config = \<lparr>pc_builtin_transports = True, pc_user_transports = [], pc_max_msg_size_no_frag = None,
     pc_peers = [], pc_multicast = True, pc_static = False\<rparr>"

text \<open>\<open>DETMW_UDP_ONLY\<close> and \<open>DETMW_UDP_MTU\<close>.\<close>

definition udp_config :: "(string \<Rightarrow> string option) \<Rightarrow> participant_config \<Rightarrow> participant_config" where
  "udp_config env pc = (let mtu = udp_mtu env in
     if env ''DETMW_UDP_ONLY'' \<noteq> None \<or> mtu > 0
     then pc\<lparr>pc_builtin_transports := False,
             pc_user_transports := pc_user_transports pc @ [Udp (if mtu > 0 then Some mtu else None)],
             pc_max_msg_size_no_frag := (if mtu > 0 then Some mtu else pc_max_msg_size_no_frag pc)\<rparr>
     else pc)"

text \<open>\<open>DETMW_BUCKET\<close>: \<open>None\<close> if shared memory is not available; \<open>dflt\<close> is the descriptor's default size.\<close>

definition bucket_config :: "(string \<Rightarrow> string option) \<Rightarrow> bool \<Rightarrow> u32 \<Rightarrow> participant_config \<Rightarrow> participant_config option" where
  "bucket_config env shm_ok dflt pc =
    (if env ''DETMW_BUCKET'' = None then Some pc
     else if \<not> shm_ok then None
     else (let sz = (case env ''DETMW_BUCKET_CAP_MB'' of
                 Some cap \<Rightarrow> ucast (fst (strtoull10 cap)) * 1024 * 1024 | None \<Rightarrow> dflt)
           in Some (pc\<lparr>pc_builtin_transports := False,
                       pc_user_transports := pc_user_transports pc @ [Bucket sz, Udp None]\<rparr>)))"

definition peers_config :: "(string \<Rightarrow> string option) \<Rightarrow> u32 \<Rightarrow> participant_config \<Rightarrow> participant_config" where
  "peers_config env domain_id pc =
    (if env ''DETMW_LOCAL_PEERS'' = None then pc
     else pc\<lparr>pc_multicast := False,
             pc_peers := pc_peers pc @ map (\<lambda>pid. peer_port domain_id (of_nat pid)) [0..<16]\<rparr>)"

text \<open>
  The constructor and \<open>CreateFastDdsTransport\<close>: \<open>None\<close> when there is no participant. \<open>xml_ok\<close> and
  \<open>participant_ok\<close> are FastDDS' answers.
\<close>

definition participant_config_of :: "(string \<Rightarrow> string option) \<Rightarrow> bool \<Rightarrow> u32 \<Rightarrow> int \<Rightarrow> participant_config option" where
  "participant_config_of env shm_ok dflt domain_id =
    (case bucket_config env shm_ok dflt (udp_config env default_config) of
       None \<Rightarrow> None
     | Some pc \<Rightarrow> Some ((peers_config env (of_int domain_id) pc)\<lparr>pc_static := (env ''DETMW_STATIC'' \<noteq> None)\<rparr>))"

definition CreateFastDdsTransport :: "(string \<Rightarrow> string option) \<Rightarrow> bool \<Rightarrow> u32 \<Rightarrow> (string \<Rightarrow> bool) \<Rightarrow>
    (int \<Rightarrow> participant_config \<Rightarrow> bool) \<Rightarrow> int \<Rightarrow> string \<Rightarrow> string \<Rightarrow> (string \<Rightarrow> u32 option) \<Rightarrow> FastDdsState option" where
  "CreateFastDdsTransport env shm_ok dflt xml_ok participant_ok domain_id process static_xml plain_topics =
    (case participant_config_of env shm_ok dflt domain_id of
       None \<Rightarrow> None
     | Some pc \<Rightarrow>
         if pc_static pc \<and> \<not> xml_ok (''file://'' @ static_xml) then None
         else if \<not> participant_ok domain_id pc then None
         else Some \<lparr>fd_participant = True, fd_types = Map.empty, fd_plainSizes = plain_topics, fd_topics = [],
                    fd_writers = [], fd_readers = [], fd_writeCount = Map.empty, fd_wire = []\<rparr>)"

section \<open>The contract holds\<close>

lemma MakeTopic_ep_eq: "MakeTopic_ep ep = MakeTopic (session_type ep) (session_inst ep) (msg_id ep)"
  by (simp add: MakeTopic_ep_def MakeTopic_def)

lemma GetOrCreateType_wire: "fd_wire (snd (GetOrCreateType topic s)) = fd_wire s"
  by (simp add: GetOrCreateType_def Let_def split: option.split)

lemma FindOrCreateTopic_wire: "fd_wire (snd (FindOrCreateTopic d topic s)) = fd_wire s"
  using GetOrCreateType_wire [of topic s]
  by (cases "GetOrCreateType topic s") (simp add: FindOrCreateTopic_def)

lemma CreateReader_wire: "fd_wire (snd (CreateReader d qos ep r s)) = fd_wire s"
  using FindOrCreateTopic_wire [of d "MakeTopic_ep ep" s]
  by (cases "FindOrCreateTopic d (MakeTopic_ep ep) s") (simp add: CreateReader_def Let_def)

lemma CreateWriter_wire: "fd_wire (snd (CreateWriter d qos ep s)) = fd_wire s"
  using FindOrCreateTopic_wire [of d "MakeTopic_ep ep" s]
  by (cases "FindOrCreateTopic d (MakeTopic_ep ep) s") (simp add: CreateWriter_def Let_def)

lemma Send_wire:
  "fd_wire (snd (Send d ep data len s)) = fd_wire s @
     (if fst (Send d ep data len s) = 0 then [(MakeTopic_ep ep, sent_bytes data len)] else [])"
  by (simp add: Send_def Let_def written_def)

interpretation fastdds: transport "fastdds_ops d qos" fd_wire
  by unfold_locales
    (simp_all add: fastdds_ops_def CreateReader_wire CreateWriter_wire Send_wire MakeTopic_ep_eq)

text \<open>A topic's type always follows the configuration.\<close>

definition type_of :: "u32 option \<Rightarrow> topic_type" where
  "type_of ps = (case ps of Some n \<Rightarrow> if n > 0 then Fixed n else Bytes | None \<Rightarrow> Bytes)"

definition fd_inv :: "FastDdsState \<Rightarrow> bool" where
  "fd_inv s \<longleftrightarrow> (\<forall>topic ty. fd_types s topic = Some ty \<longrightarrow> ty = type_of (fd_plainSizes s topic)) \<and>
     (\<forall>r \<in> set (fd_readers s). rd_plainSize r = (case fd_plainSizes s (rd_topic r) of Some n \<Rightarrow> n | None \<Rightarrow> 0))"

lemma GetOrCreateType_inv:
  "fd_inv s \<Longrightarrow> fd_inv (snd (GetOrCreateType topic s)) \<and> fst (GetOrCreateType topic s) = type_of (fd_plainSizes s topic) \<and>
   fd_plainSizes (snd (GetOrCreateType topic s)) = fd_plainSizes s \<and> fd_writers (snd (GetOrCreateType topic s)) = fd_writers s \<and>
   fd_readers (snd (GetOrCreateType topic s)) = fd_readers s \<and> fd_participant (snd (GetOrCreateType topic s)) = fd_participant s"
proof -
  assume i: "fd_inv s"
  have e: "GetOrCreateType topic s = (case fd_types s topic of Some ty \<Rightarrow> (ty, s)
     | None \<Rightarrow> (type_of (fd_plainSizes s topic), s\<lparr>fd_types := (fd_types s)(topic \<mapsto> type_of (fd_plainSizes s topic))\<rparr>))"
    unfolding GetOrCreateType_def type_of_def Let_def ..
  show ?thesis using i unfolding e by (cases "fd_types s topic") (auto simp: fd_inv_def)
qed

lemma FindOrCreateTopic_inv:
  "fd_inv s \<Longrightarrow> fd_inv (snd (FindOrCreateTopic d topic s)) \<and>
   fd_plainSizes (snd (FindOrCreateTopic d topic s)) = fd_plainSizes s \<and> fd_writers (snd (FindOrCreateTopic d topic s)) = fd_writers s \<and>
   fd_readers (snd (FindOrCreateTopic d topic s)) = fd_readers s \<and> fd_participant (snd (FindOrCreateTopic d topic s)) = fd_participant s"
  using GetOrCreateType_inv [of s topic]
  by (cases "GetOrCreateType topic s") (auto simp: FindOrCreateTopic_def fd_inv_def)

lemma CreateReader_inv:
  assumes "fd_inv s"
  shows "fd_inv (snd (CreateReader d qos ep r s)) \<and> fd_writers (snd (CreateReader d qos ep r s)) = fd_writers s"
  using FindOrCreateTopic_inv [OF assms, of d "MakeTopic_ep ep"] assms
  by (cases "FindOrCreateTopic d (MakeTopic_ep ep) s") (auto simp: CreateReader_def Let_def fd_inv_def)

lemma CreateWriter_inv:
  assumes "fd_inv s"
  shows "fd_inv (snd (CreateWriter d qos ep s)) \<and>
    (fst (CreateWriter d qos ep s) = 0 \<longrightarrow> FindWriter (snd (CreateWriter d qos ep s)) (MakeTopic_ep ep)) \<and>
    length (filter (\<lambda>w. fst w = t) (fd_writers (snd (CreateWriter d qos ep s)))) \<le>
      max 1 (length (filter (\<lambda>w. fst w = t) (fd_writers s)))"
proof -
  note f = FindOrCreateTopic_inv [OF assms, of d "MakeTopic_ep ep"]
  have "filter (\<lambda>w. fst w = MakeTopic_ep ep) (fd_writers s) = []" if "\<not> FindWriter s (MakeTopic_ep ep)"
    using that by (force simp: FindWriter_def filter_empty_conv)
  then show ?thesis using f assms
    by (cases "FindOrCreateTopic d (MakeTopic_ep ep) s") (auto simp: CreateWriter_def Let_def fd_inv_def FindWriter_def)
qed

lemma receive_sent:
  assumes "ty = type_of (fd_plainSizes s topic)" "plainSize = (case fd_plainSizes s topic of Some n \<Rightarrow> n | None \<Rightarrow> 0)"
    and "plainSize > 0 \<Longrightarrow> length p = unat plainSize" "fst r \<noteq> None"
  shows "on_data_available ty plainSize r [(True, serialize ty p)] = [(r, p)]"
proof (cases "plainSize > 0")
  case True
  then have "ty = Fixed plainSize" using assms(1,2) by (auto simp: type_of_def split: option.splits)
  then show ?thesis using assms(3,4) True by (simp add: serialize_def deserialize_def mem_write_def)
next
  case False
  then have "ty = Bytes" using assms(1,2) by (auto simp: type_of_def split: option.splits)
  then show ?thesis using assms(4) by (simp add: serialize_def deserialize_def)
qed

text \<open>C24: The transport delivers what it accepts. \<open>Send\<close> works only on a topic whose writer has been
  created, and on a fixed-size topic only for exactly the configured size; what it refuses
  changes nothing, whichever of the zero-copy and the copying path FastDDS allows. A message it accepts is
  counted, goes out once, and arrives at every reader of the topic as exactly the bytes sent.\<close>

theorem Send_delivers:
  assumes "fd_inv s" "data = Some p" "length p = unat len" "topic = MakeTopic_ep ep"
    and "rd \<in> set (fd_readers s)" "rd_topic rd = topic" "fst (rd_recv rd) \<noteq> None"
  shows "(fst (Send d ep data len s) \<noteq> 0 \<longrightarrow> snd (Send d ep data len s) = s) \<and>
    (\<not> FindWriter s topic \<longrightarrow> fst (Send d ep data len s) = - 1) \<and>
    (\<forall>n>0. fd_plainSizes s topic = Some n \<and> len \<noteq> n \<longrightarrow> fst (Send d ep data len s) = - 1) \<and>
    (fst (Send d ep data len s) = 0 \<longrightarrow>
      fd_wire (snd (Send d ep data len s)) = fd_wire s @ [(topic, p)] \<and>
      (\<forall>ty. fd_types s topic = Some ty \<longrightarrow>
        on_data_available ty (rd_plainSize rd) (rd_recv rd) [(True, serialize ty p)] = [(rd_recv rd, p)]))"
proof (intro conjI impI allI)
  show "fst (Send d ep data len s) \<noteq> 0 \<Longrightarrow> snd (Send d ep data len s) = s"
    by (auto simp: Send_def Let_def split: if_splits)
  show "\<not> FindWriter s topic \<Longrightarrow> fst (Send d ep data len s) = - 1" using assms(4) by (simp add: Send_def Let_def)
  show "fst (Send d ep data len s) = - 1" if "0 < n" "fd_plainSizes s topic = Some n \<and> len \<noteq> n" for n
    using assms(4) that by (simp add: Send_def Let_def)
  assume ok: "fst (Send d ep data len s) = 0"
  show "fd_wire (snd (Send d ep data len s)) = fd_wire s @ [(topic, p)]"
    using Send_wire [of d ep data len s] ok assms(2-4) by (simp add: sent_bytes_def)
  fix ty assume ty: "fd_types s topic = Some ty"
  have 1: "ty = type_of (fd_plainSizes s topic)" "rd_plainSize rd = (case fd_plainSizes s topic of Some n \<Rightarrow> n | None \<Rightarrow> 0)"
    using assms(1,5,6) ty by (auto simp: fd_inv_def)
  have "rd_plainSize rd > 0 \<Longrightarrow> len = rd_plainSize rd"
    using ok assms(4) 1(2) by (auto simp: Send_def Let_def split: if_splits)
  then show "on_data_available ty (rd_plainSize rd) (rd_recv rd) [(True, serialize ty p)] = [(rd_recv rd, p)]"
    using receive_sent [OF 1 _ assms(7)] assms(3) by simp
qed

definition willing :: dds where
  "willing = \<lparr>dds_topic = \<lambda>_ _. True, dds_reader = \<lambda>_. True, dds_writer = \<lambda>_. True, dds_loan = \<lambda>_ _. False, dds_write = \<lambda>_ _. True\<rparr>"

definition small_state :: FastDdsState where
  "small_state = \<lparr>fd_participant = True, fd_types = [''DTS_data_2'' \<mapsto> Fixed 3], fd_plainSizes = [''DTS_data_2'' \<mapsto> 3],
     fd_topics = [''DTS_data_2''], fd_writers = [(''DTS_data_2'', LoadQos (\<lambda>_. None))],
     fd_readers = [\<lparr>rd_topic = ''DTS_data_2'', rd_recv = (Some 1, 0), rd_plainSize = 3, rd_qos = LoadQos (\<lambda>_. None)\<rparr>],
     fd_writeCount = Map.empty, fd_wire = []\<rparr>"

theorem Send_delivers_witness:
  "fst (Send willing data_ep (Some [1, 2]) 2 small_state) = - 1 \<and>
   fd_wire (snd (Send willing data_ep (Some [1, 2, 3]) 3 small_state)) = [(''DTS_data_2'', [1, 2, 3])]"
proof -
  have "dec_string 2 = ''2''" by code_simp
  then have t: "''DTS_data_2'' = MakeTopic_ep data_ep" by (simp add: MakeTopic_ep_def data_ep_def)
  have i: "fd_inv small_state" by (simp add: fd_inv_def small_state_def type_of_def)
  have r: "hd (fd_readers small_state) \<in> set (fd_readers small_state)" "rd_topic (hd (fd_readers small_state)) = ''DTS_data_2''"
    "fst (rd_recv (hd (fd_readers small_state))) \<noteq> None" by (simp_all add: small_state_def)
  have w: "FindWriter small_state ''DTS_data_2''" "fd_plainSizes small_state ''DTS_data_2'' = Some 3"
    "fd_wire small_state = []" "fd_participant small_state"
    by (simp_all add: small_state_def FindWriter_def)
  have "fst (Send willing data_ep (Some [1, 2]) 2 small_state) = - 1"
    using Send_delivers [OF i refl _ t r, of "[1, 2]" 2 willing] w by simp
  moreover have "fst (Send willing data_ep (Some [1, 2, 3]) 3 small_state) = 0"
    using w by (simp add: Send_def Let_def willing_def flip: t)
  then have "fd_wire (snd (Send willing data_ep (Some [1, 2, 3]) 3 small_state)) = [(''DTS_data_2'', [1, 2, 3])]"
    using Send_delivers [OF i refl _ t r, of "[1, 2, 3]" 3 willing] w by simp
  ultimately show ?thesis ..
qed

text \<open>The participant's configuration. An MTU is used only between 576 and 65500 bytes; the 16
  local peer ports of a domain are different from each other and from those of every other
  domain, and all are valid port numbers exactly for domains up to 232; but the size of a
  bucket segment is computed in 32 bits, so a capacity of 4096 MB asks for a segment of size 0.\<close>

theorem Participant_configuration:
  assumes "unat dom1 \<le> 232" "unat dom2 \<le> 232" "unat p1 < 16" "unat p2 < 16" "n < 2 ^ 64"
  shows "(udp_mtu env = 0 \<or> (576 \<le> udp_mtu env \<and> udp_mtu env \<le> 65500)) \<and>
    (peer_port dom1 p1 = peer_port dom2 p2 \<longleftrightarrow> dom1 = dom2 \<and> p1 = p2) \<and>
    unat (peer_port dom1 p1) < 65536 \<and> 65535 < unat (peer_port 233 15) \<and>
    (env ''DETMW_BUCKET'' \<noteq> None \<and> env ''DETMW_BUCKET_CAP_MB'' = Some (dec_string n) \<longrightarrow>
      bucket_config env True dflt pc = Some (pc\<lparr>pc_builtin_transports := False,
        pc_user_transports := pc_user_transports pc @ [Bucket (of_nat (n * 1048576)), Udp None]\<rparr>)) \<and>
    (of_nat (4096 * 1048576) :: u32) = 0 \<and>
    (env ''DETMW_BUCKET'' \<noteq> None \<longrightarrow>
      CreateFastDdsTransport env False dflt xml_ok participant_ok i process xml plain = None)"
proof (intro conjI impI)
  show "udp_mtu env = 0 \<or> (576 \<le> udp_mtu env \<and> udp_mtu env \<le> 65500)"
    by (auto simp: udp_mtu_def Let_def split: option.split)
  have port: "unat (peer_port d p) = 7410 + 250 * unat d + 2 * unat p" if "unat d \<le> 232" "unat p < 16" for d p
    using that by (simp add: peer_port_def unat_word_ariths)
  show "peer_port dom1 p1 = peer_port dom2 p2 \<longleftrightarrow> dom1 = dom2 \<and> p1 = p2"
  proof
    assume "peer_port dom1 p1 = peer_port dom2 p2"
    then have "7410 + 250 * unat dom1 + 2 * unat p1 = 7410 + 250 * unat dom2 + 2 * unat p2"
      using port [OF assms(1,3)] port [OF assms(2,4)] by simp
    then have "unat dom1 = unat dom2 \<and> unat p1 = unat p2"
      using pack_inj [of "unat dom1" 250 "2 * unat p1" "unat dom2" "2 * unat p2"] assms by simp
    then show "dom1 = dom2 \<and> p1 = p2" by (simp add: word_unat_eq_iff)
  qed simp
  show "unat (peer_port dom1 p1) < 65536" using port [OF assms(1,3)] assms by simp
  show "65535 < unat (peer_port 233 15)" by (simp add: peer_port_def)
  show "(of_nat (4096 * 1048576) :: u32) = 0" by simp
  show "bucket_config env True dflt pc = Some (pc\<lparr>pc_builtin_transports := False,
        pc_user_transports := pc_user_transports pc @ [Bucket (of_nat (n * 1048576)), Udp None]\<rparr>)"
    if a: "env ''DETMW_BUCKET'' \<noteq> None \<and> env ''DETMW_BUCKET_CAP_MB'' = Some (dec_string n)"
  proof -
    have "(ucast (of_nat n :: u64) :: u32) = of_nat n"
      by (rule bit_word_eqI) (simp add: bit_simps)
    then have "(ucast (of_nat n :: u64) :: u32) * 1024 * 1024 = of_nat (n * 1048576)" by (simp add: mult.assoc)
    then show ?thesis using a strtoull10_dec [OF assms(5), of "[]"] by (auto simp: bucket_config_def)
  qed
  show "CreateFastDdsTransport env False dflt xml_ok participant_ok i process xml plain = None"
    if "env ''DETMW_BUCKET'' \<noteq> None"
    using that by (simp add: CreateFastDdsTransport_def participant_config_of_def bucket_config_def)
qed

theorem Participant_configuration_witness:
  "bucket_config [''DETMW_BUCKET'' \<mapsto> ''1'', ''DETMW_BUCKET_CAP_MB'' \<mapsto> dec_string 4096] True 0 default_config =
     Some (default_config\<lparr>pc_builtin_transports := False, pc_user_transports := [Bucket 0, Udp None]\<rparr>)"
  using Participant_configuration [of 0 1 0 1 4096 "[''DETMW_BUCKET'' \<mapsto> ''1'', ''DETMW_BUCKET_CAP_MB'' \<mapsto> dec_string 4096]" 0 default_config]
  by (simp add: default_config_def)

end
