(* ===== verification/Agent_Timer.thy ===== *)
theory Agent_Timer
  imports Prelude_DTS
begin

text \<open>
  Two small concurrent helpers: the ping-pong buffer between a writer in the SPA process and the
  agent's reader (\<open>agent/src/pingpong.cpp\<close>, \<open>dts_agent_api.cpp\<close>), and the timer wheel
  (\<open>infrastructure/src/timer.cpp\<close>). The buffer's operations are given whole, and the writer also in
  the single memory accesses that another thread can come between.
\<close>

section \<open>The ping-pong buffer\<close>

definition kPingPongSize :: u32 where "kPingPongSize = 32 * 1024"

text \<open>Two faces with their fill levels; \<open>pp_cur\<close> is the face being written, 0 or 1.\<close>

record PingPong =
  pp_buf0 :: bytes
  pp_buf1 :: bytes
  pp_off0 :: u32
  pp_off1 :: u32
  pp_cur :: bool

definition new_PingPong :: PingPong where
  "new_PingPong = \<lparr>pp_buf0 = replicate 32768 0, pp_buf1 = replicate 32768 0, pp_off0 = 0, pp_off1 = 0, pp_cur = False\<rparr>"

definition face_off :: "bool \<Rightarrow> PingPong \<Rightarrow> u32" where
  "face_off i p = (if i then pp_off1 p else pp_off0 p)"

definition face_buf :: "bool \<Rightarrow> PingPong \<Rightarrow> bytes" where
  "face_buf i p = (if i then pp_buf1 p else pp_buf0 p)"

definition set_off :: "bool \<Rightarrow> u32 \<Rightarrow> PingPong \<Rightarrow> PingPong" where
  "set_off i v p = (if i then p\<lparr>pp_off1 := v\<rparr> else p\<lparr>pp_off0 := v\<rparr>)"

definition set_buf :: "bool \<Rightarrow> bytes \<Rightarrow> PingPong \<Rightarrow> PingPong" where
  "set_buf i b p = (if i then p\<lparr>pp_buf1 := b\<rparr> else p\<lparr>pp_buf0 := b\<rparr>)"

text \<open>The check of \<open>Write\<close>, in 32-bit arithmetic, and its three accesses to the face.\<close>

definition write_full :: "u32 \<Rightarrow> u32 \<Rightarrow> bool" where
  "write_full off len \<longleftrightarrow> len = 0 \<or> off + len > kPingPongSize"

definition write_copy :: "bool \<Rightarrow> u32 \<Rightarrow> bytes \<Rightarrow> PingPong \<Rightarrow> PingPong" where
  "write_copy i off d p = set_buf i (mem_write (face_buf i p) (unat off) d) p"

definition write_bump :: "bool \<Rightarrow> u32 \<Rightarrow> PingPong \<Rightarrow> PingPong" where
  "write_bump i len p = set_off i (face_off i p + len) p"

text \<open>
  \<open>Write\<close> of the \<open>len\<close> bytes \<open>d\<close>, uninterrupted. The first result tells whether the copy stays inside
  the face (otherwise the behaviour is undefined), the second is the return value.
\<close>

definition Write_pp :: "bytes \<Rightarrow> u32 \<Rightarrow> PingPong \<Rightarrow> bool \<times> bool \<times> PingPong" where
  "Write_pp d len p = (let idx = pp_cur p; off = face_off idx p in
     if write_full off len then (True, False, p)
     else if unat off + unat len > 32768 then (False, True, p)
     else (True, True, write_bump idx len (write_copy idx off (take (unat len) d) p)))"

definition ReadAndFlip :: "u32 \<Rightarrow> PingPong \<Rightarrow> bytes \<times> PingPong" where
  "ReadAndFlip cap p = (let old = pp_cur p; p1 = p\<lparr>pp_cur := \<not> old\<rparr>; n = min (face_off old p1) cap in
     if n > 0 then (take (unat n) (face_buf old p1), set_off old 0 p1) else ([], p1))"

text \<open>The agent's reader: what one round publishes, with its 64 KB buffer.\<close>

definition kAgentBufSize :: u32 where "kAgentBufSize = 64 * 1024"

definition agent_round :: "u64 \<Rightarrow> bool \<Rightarrow> PingPong \<Rightarrow> (u64 \<times> bytes) list \<times> PingPong" where
  "agent_round outKey has_publish p = (let (bs, p1) = ReadAndFlip kAgentBufSize p in
     if bs = [] then ([], p1) else (if has_publish then [(outKey, bs)] else [], p1))"

text \<open>A run: writes and reader rounds in some order.\<close>

datatype pp_event = Pp_write bytes | Pp_round

fun pp_run :: "u64 \<Rightarrow> pp_event list \<Rightarrow> PingPong \<Rightarrow> bool list \<times> (u64 \<times> bytes) list \<times> PingPong" where
  "pp_run key [] p = ([], [], p)"
| "pp_run key (Pp_write d # es) p = (let (_, ok, p1) = Write_pp d (of_nat (length d)) p;
      (oks, out, p2) = pp_run key es p1 in (ok # oks, out, p2))"
| "pp_run key (Pp_round # es) p = (let (bs, p1) = agent_round key True p;
      (oks, out, p2) = pp_run key es p1 in (oks, bs @ out, p2))"

text \<open>The specification: one byte string of at most 32 KB that a round hands over and empties.\<close>

fun spec_run :: "u64 \<Rightarrow> pp_event list \<Rightarrow> bytes \<Rightarrow> bool list \<times> (u64 \<times> bytes) list \<times> bytes" where
  "spec_run key [] a = ([], [], a)"
| "spec_run key (Pp_write d # es) a = (let ok = (d \<noteq> [] \<and> length a + length d \<le> 32768);
      (oks, out, a2) = spec_run key es (if ok then a @ d else a) in (ok # oks, out, a2))"
| "spec_run key (Pp_round # es) a = (let (oks, out, a2) = spec_run key es [] in
      (oks, (if a = [] then [] else [(key, a)]) @ out, a2))"

text \<open>The abstraction and the invariant: the face that is not written is empty.\<close>

definition pp_abs :: "PingPong \<Rightarrow> bytes" where
  "pp_abs p = take (unat (face_off (pp_cur p) p)) (face_buf (pp_cur p) p)"

definition pp_ok :: "PingPong \<Rightarrow> bool" where
  "pp_ok p \<longleftrightarrow> length (pp_buf0 p) = 32768 \<and> length (pp_buf1 p) = 32768 \<and>
     unat (face_off (pp_cur p) p) \<le> 32768 \<and> face_off (\<not> pp_cur p) p = 0"

lemmas face_defs = face_off_def face_buf_def set_off_def set_buf_def

lemma face_simps [simp]:
  "face_off i (set_buf j b p) = face_off i p" "face_buf i (set_off j v p) = face_buf i p"
  "face_off i (set_off i v p) = v" "face_buf i (set_buf i b p) = b" "pp_cur (set_buf j b p) = pp_cur p" "pp_cur (set_off j v p) = pp_cur p"
  "face_off (\<not> i) (set_off i v p) = face_off (\<not> i) p" "face_off i (set_off (\<not> i) v p) = face_off i p"
  "face_off i (p\<lparr>pp_cur := c\<rparr>) = face_off i p" "face_buf i (p\<lparr>pp_cur := c\<rparr>) = face_buf i p"
  by (auto simp: face_defs)

lemma pp_ok_iff:
  "pp_ok p \<longleftrightarrow> (\<forall>i. length (face_buf i p) = 32768) \<and> unat (face_off (pp_cur p) p) \<le> 32768 \<and> face_off (\<not> pp_cur p) p = 0"
  by (auto simp: pp_ok_def face_buf_def all_bool_eq)

lemma face_buf_set_buf: "face_buf i (set_buf j b p) = (if i = j then b else face_buf i p)"
  by (simp add: face_defs)

lemma length_pp_abs: "pp_ok p \<Longrightarrow> length (pp_abs p) = unat (face_off (pp_cur p) p)"
  by (simp add: pp_ok_iff pp_abs_def)

lemma write_full_iff:
  assumes "unat off \<le> 32768" "unat len < 2147483648"
  shows "write_full off len \<longleftrightarrow> len = 0 \<or> unat off + unat len > 32768"
proof -
  have "unat (off + len) = unat off + unat len" by (rule unat_add_u32) (use assms in simp)
  then show ?thesis by (simp add: write_full_def kPingPongSize_def word_less_nat_alt)
qed

lemma Write_pp_ok:
  assumes "pp_ok p" "length d < 2147483648"
  shows "Write_pp d (of_nat (length d)) p = (True, d \<noteq> [] \<and> length (pp_abs p) + length d \<le> 32768,
      snd (snd (Write_pp d (of_nat (length d)) p))) \<and>
    pp_ok (snd (snd (Write_pp d (of_nat (length d)) p))) \<and>
    pp_abs (snd (snd (Write_pp d (of_nat (length d)) p))) =
      (if d \<noteq> [] \<and> length (pp_abs p) + length d \<le> 32768 then pp_abs p @ d else pp_abs p)"
proof -
  let ?i = "pp_cur p" and ?len = "of_nat (length d) :: u32"
  let ?off = "face_off ?i p"
  have len: "unat ?len = length d" using assms(2) by (simp add: unat_of_nat take_bit_nat_eq_self)
  have off: "unat ?off \<le> 32768" "\<And>i. length (face_buf i p) = 32768" "face_off (\<not> ?i) p = 0"
    using assms(1) by (simp_all add: pp_ok_iff)
  have full: "write_full ?off ?len \<longleftrightarrow> d = [] \<or> unat ?off + length d > 32768"
    using write_full_iff [OF off(1), of ?len] len assms(2) by (metis length_0_conv unat_0 unat_eq_zero)
  show ?thesis
  proof (cases "write_full ?off ?len")
    case True
    then have "Write_pp d ?len p = (True, False, p)" by (simp add: Write_pp_def Let_def)
    with True full assms(1) length_pp_abs [OF assms(1)] show ?thesis by auto
  next
    case False
    then have fits: "d \<noteq> []" "unat ?off + length d \<le> 32768" using full by auto
    let ?p = "write_bump ?i ?len (write_copy ?i ?off d p)"
    have w: "Write_pp d ?len p = (True, True, ?p)"
      using False fits len by (simp add: Write_pp_def Let_def)
    have "unat (?off + ?len) = unat ?off + unat ?len" by (rule unat_add_u32) (use fits len in simp)
    then have sum: "unat (?off + ?len) = unat ?off + length d" using len by simp
    have o: "face_off ?i ?p = ?off + ?len" "face_off (\<not> ?i) ?p = 0" "pp_cur ?p = ?i"
      using off(3) by (simp_all add: write_bump_def write_copy_def)
    have b: "face_buf j ?p = (if j = ?i then mem_write (face_buf ?i p) (unat ?off) d else face_buf j p)" for j
      by (simp add: write_bump_def write_copy_def face_buf_set_buf)
    have "pp_ok ?p" using off fits by (simp add: pp_ok_iff o b sum length_mem_write)
    moreover have "pp_abs ?p = pp_abs p @ d"
      using off fits by (simp add: pp_abs_def o b sum take_mem_write_end)
    ultimately show ?thesis using w fits length_pp_abs [OF assms(1)] by simp
  qed
qed

lemma ReadAndFlip_ok:
  assumes "pp_ok p" "32768 \<le> unat cap"
  shows "fst (ReadAndFlip cap p) = pp_abs p \<and> pp_ok (snd (ReadAndFlip cap p)) \<and> pp_abs (snd (ReadAndFlip cap p)) = []"
proof -
  let ?i = "pp_cur p"
  have off: "unat (face_off ?i p) \<le> 32768" "\<And>i. length (face_buf i p) = 32768" "face_off (\<not> ?i) p = 0"
    using assms(1) by (simp_all add: pp_ok_iff)
  have m: "min (face_off ?i p) cap = face_off ?i p"
    using off(1) assms(2) by (simp add: min_def word_le_nat_alt)
  have r: "ReadAndFlip cap p = (if face_off ?i p > 0 then (pp_abs p, set_off ?i 0 (p\<lparr>pp_cur := \<not> ?i\<rparr>)) else ([], p\<lparr>pp_cur := \<not> ?i\<rparr>))"
    unfolding ReadAndFlip_def Let_def face_simps m pp_abs_def ..
  show ?thesis
  proof (cases "face_off ?i p = 0")
    case True
    then have "ReadAndFlip cap p = ([], p\<lparr>pp_cur := \<not> ?i\<rparr>)" by (simp add: r)
    with True off show ?thesis by (simp add: pp_ok_iff pp_abs_def)
  next
    case False
    then have "face_off ?i p > 0" by (simp add: word_greater_zero_iff)
    then have "ReadAndFlip cap p = (pp_abs p, set_off ?i 0 (p\<lparr>pp_cur := \<not> ?i\<rparr>))"
      by (simp add: r)
    with off show ?thesis by (simp add: pp_ok_iff pp_abs_def)
  qed
qed

text \<open>C35: The ping-pong buffer refines a byte string. As long as a write and a reader round do not
  overlap, any run of writes (each shorter than 2 GB) and rounds on a fresh buffer accepts and
  publishes exactly what a single string of at most 32 KB would: a write is accepted if it is not
  empty and fits, and a round publishes everything written since the round before, in order, or
  nothing. No byte is lost or published twice, and no copy leaves its face.\<close>

theorem PingPong_refines_string:
  assumes "\<forall>d. Pp_write d \<in> set es \<longrightarrow> length d < 2147483648"
  shows "fst (pp_run key es new_PingPong) = fst (spec_run key es []) \<and>
    fst (snd (pp_run key es new_PingPong)) = fst (snd (spec_run key es []))"
proof -
  have "pp_ok p \<Longrightarrow> \<forall>d. Pp_write d \<in> set es \<longrightarrow> length d < 2147483648 \<Longrightarrow>
     (\<exists>p2. pp_run key es p = (fst (spec_run key es (pp_abs p)), fst (snd (spec_run key es (pp_abs p))), p2))" for p
  proof (induction es arbitrary: p)
    case (Cons e es)
    show ?case
    proof (cases e)
      case (Pp_write d)
      have d: "length d < 2147483648" using Cons.prems(2) Pp_write by simp
      note w = Write_pp_ok [OF Cons.prems(1) d]
      obtain p1 where p1: "Write_pp d (of_nat (length d)) p = (True, d \<noteq> [] \<and> length (pp_abs p) + length d \<le> 32768, p1)"
        using w by metis
      have "\<exists>p2. pp_run key es p1 = (fst (spec_run key es (pp_abs p1)), fst (snd (spec_run key es (pp_abs p1))), p2)"
        by (rule Cons.IH) (use w p1 Cons.prems(2) in auto)
      with w p1 show ?thesis by (auto simp: Pp_write split: prod.splits)
    next
      case Pp_round
      let ?p1 = "snd (ReadAndFlip kAgentBufSize p)"
      have r: "fst (ReadAndFlip kAgentBufSize p) = pp_abs p" "pp_ok ?p1" "pp_abs ?p1 = []"
        using ReadAndFlip_ok [OF Cons.prems(1), of kAgentBufSize] by (simp_all add: kAgentBufSize_def)
      then have a: "agent_round key True p = ((if pp_abs p = [] then [] else [(key, pp_abs p)]), ?p1)"
        by (simp add: agent_round_def split_beta Let_def)
      have "\<exists>p2. pp_run key es ?p1 = (fst (spec_run key es []), fst (snd (spec_run key es [])), p2)"
        using Cons.IH [OF r(2)] Cons.prems(2) r(3) by auto
      with a show ?thesis by (auto simp: Pp_round split: prod.splits)
    qed
  qed simp
  moreover have "pp_ok new_PingPong" "pp_abs new_PingPong = []"
    by (simp_all add: pp_ok_def pp_abs_def new_PingPong_def face_defs)
  ultimately show ?thesis using assms by (metis fst_conv snd_conv)
qed

theorem PingPong_refines_string_witness:
  "fst (snd (pp_run 5 [Pp_write [1, 2], Pp_write [3], Pp_round, Pp_round] new_PingPong)) =
   fst (snd (spec_run 5 [Pp_write [1, 2], Pp_write [3], Pp_round, Pp_round] []))"
  by (rule PingPong_refines_string [THEN conjunct2]) auto

text \<open>What the buffer does not guarantee. (1) The bound check wraps: on a face with off bytes, a
  length of at least 2^32 - off passes it and the copy leaves the face. (2) A round
  between the writer's copy and its update of the fill level, on a face that is not empty, makes
  the next round on that face publish bytes that were published before instead of the new ones.\<close>

theorem PingPong_gaps:
  assumes "pp_ok p" "face_off (pp_cur p) p = off" "0 < unat off" "unat off + unat len = 4294967296 + k" "k \<le> 32768"
    "pp_ok q" "i = pp_cur q" "d \<noteq> []" "length d \<le> unat (face_off i q)" "unat (face_off i q) + length d \<le> 32768"
    "q1 = snd (ReadAndFlip kAgentBufSize (write_copy i (face_off i q) d q))"
    "q2 = write_bump i (of_nat (length d)) q1"
    "q3 = snd (ReadAndFlip kAgentBufSize q2)"
  shows "fst (Write_pp dd len p) = False \<and>
    fst (ReadAndFlip kAgentBufSize (write_copy i (face_off i q) d q)) = pp_abs q \<and>
    fst (ReadAndFlip kAgentBufSize q3) = take (length d) (pp_abs q)"
proof -
  have "unat (off + len) = k"
    using assms(4,5) by (simp add: unat_word_ariths)
  then have "\<not> off + len > kPingPongSize" using assms(5) by (simp add: word_less_nat_alt kPingPongSize_def)
  moreover have "len \<noteq> 0" using assms(4) unat_lt_u32 [of off] by auto
  ultimately have "\<not> write_full (face_off (pp_cur p) p) len" by (simp add: write_full_def assms(2))
  moreover have "unat off + unat len > 32768" using assms(4) by simp
  ultimately have 1: "fst (Write_pp dd len p) = False" by (simp add: Write_pp_def Let_def assms(2))
  have lens: "\<And>i. length (face_buf i q) = 32768" "unat (face_off i q) \<le> 32768" "face_off (\<not> i) q = 0"
    using assms(6,7) by (simp_all add: pp_ok_iff)
  have len: "unat (of_nat (length d) :: u32) = length d" using assms(10) by (simp add: unat_of_nat take_bit_nat_eq_self)
  have pos: "face_off i q > 0" using assms(8,9) by (cases "face_off i q = 0") (simp_all add: word_greater_zero_iff)
  have flip: "ReadAndFlip kAgentBufSize x = (if face_off (pp_cur x) x > 0 then (pp_abs x, set_off (pp_cur x) 0 (x\<lparr>pp_cur := \<not> pp_cur x\<rparr>))
      else ([], x\<lparr>pp_cur := \<not> pp_cur x\<rparr>))" if "unat (face_off (pp_cur x) x) \<le> 32768" for x
  proof -
    have "min (face_off (pp_cur x) x) kAgentBufSize = face_off (pp_cur x) x"
      using that by (simp add: min_def word_le_nat_alt kAgentBufSize_def)
    then show ?thesis unfolding ReadAndFlip_def Let_def face_simps pp_abs_def by simp
  qed
  let ?c = "write_copy i (face_off i q) d q"
  have c: "pp_cur ?c = i" "face_off j ?c = face_off j q"
      "face_buf i ?c = mem_write (face_buf i q) (unat (face_off i q)) d" for j
    using assms(7) by (simp_all add: write_copy_def)
  have before: "take n (face_buf i ?c) = take n (face_buf i q)" if "n \<le> unat (face_off i q)" for n
    unfolding c(3) by (rule take_mem_write_before) (use lens assms(10) that in simp_all)
  have first: "ReadAndFlip kAgentBufSize ?c = (pp_abs ?c, set_off i 0 (?c\<lparr>pp_cur := \<not> i\<rparr>))"
    using flip [of ?c] lens(2) pos c by simp
  have same: "pp_abs ?c = pp_abs q" using before [OF order_refl] unfolding pp_abs_def c assms(7) [symmetric] .
  have q1: "q1 = set_off i 0 (?c\<lparr>pp_cur := \<not> i\<rparr>)" using first assms(11) by simp
  have q2: "pp_cur q2 = (\<not> i)" "face_off i q2 = of_nat (length d)" "face_off (\<not> i) q2 = 0"
    "face_buf i q2 = mem_write (face_buf i q) (unat (face_off i q)) d"
    unfolding assms(12) q1 write_bump_def using lens(3) c by simp_all
  have q3: "q3 = q2\<lparr>pp_cur := i\<rparr>" using flip [of q2] q2 assms(13) by simp
  have "unat (face_off i q3) = length d" "face_off i q3 > 0" "pp_cur q3 = i"
    using q2 q3 len assms(8) by (simp_all add: word_greater_zero_iff word_unat_eq_iff)
  then have "fst (ReadAndFlip kAgentBufSize q3) = take (length d) (face_buf i q2)"
    using flip [of q3] assms(10) q3 by (simp add: pp_abs_def)
  also have "\<dots> = take (length d) (face_buf i q)"
    unfolding q2(4) c(3) [symmetric] by (rule before) (rule assms(9))
  also have "\<dots> = take (length d) (pp_abs q)" using assms(7,9) by (simp add: pp_abs_def)
  finally show ?thesis using 1 first same by simp
qed

definition half_full :: PingPong where
  "half_full = snd (snd (Write_pp [7, 8] 2 new_PingPong))"

lemma half_full: "pp_ok half_full" "face_off (pp_cur half_full) half_full = 2" "pp_abs half_full = [7, 8]"
proof -
  have n: "pp_ok new_PingPong" "pp_abs new_PingPong = []"
    by (simp_all add: pp_ok_def pp_abs_def new_PingPong_def face_defs)
  show ok: "pp_ok half_full" and a: "pp_abs half_full = [7, 8]"
    using Write_pp_ok [OF n(1), of "[7, 8]"] by (simp_all add: half_full_def n(2))
  show "face_off (pp_cur half_full) half_full = 2"
    using length_pp_abs [OF ok] by (simp add: a word_unat_eq_iff)
qed

theorem PingPong_gaps_witness:
  "fst (Write_pp [] 4294967295 half_full) = False"
  by (rule PingPong_gaps [where k = 1 and d = "[9]" and q = half_full and off = 2, OF half_full(1) half_full(2) _ _ _ half_full(1) refl _ _ _ refl refl refl, THEN conjunct1])
    (simp_all add: half_full(2))

section \<open>The timer wheel\<close>

text \<open>A task's callback is its identity; \<open>None\<close> is the empty function.\<close>

record Task =
  tw_handle :: int
  tw_period :: u32
  tw_next :: u32
  tw_fn :: nat
  tw_active :: bool

record TimerWheel =
  tw_tasks :: "Task list"
  tw_nextHandle :: int

definition new_TimerWheel :: TimerWheel where
  "new_TimerWheel = \<lparr>tw_tasks = [], tw_nextHandle = 1\<rparr>"

definition Add_timer :: "u32 \<Rightarrow> nat option \<Rightarrow> u32 \<Rightarrow> TimerWheel \<Rightarrow> int \<times> TimerWheel" where
  "Add_timer periodTicks fn nowTick w = (case fn of
     None \<Rightarrow> (- 1, w)
   | Some f \<Rightarrow>
      if periodTicks = 0 then (- 1, w)
      else (tw_nextHandle w, w\<lparr>tw_nextHandle := tw_nextHandle w + 1,
         tw_tasks := tw_tasks w @ [\<lparr>tw_handle = tw_nextHandle w, tw_period = periodTicks, tw_next = nowTick + periodTicks,
            tw_fn = f, tw_active = True\<rparr>]\<rparr>))"

definition Cancel :: "int \<Rightarrow> TimerWheel \<Rightarrow> TimerWheel" where
  "Cancel h w = w\<lparr>tw_tasks := map (\<lambda>t. if tw_handle t = h then t\<lparr>tw_active := False\<rparr> else t) (tw_tasks w)\<rparr>"

text \<open>The loop under the lock: which callbacks fire, and the tasks afterwards.\<close>

fun tick_loop :: "u32 \<Rightarrow> Task list \<Rightarrow> nat list \<times> Task list" where
  "tick_loop nowTick [] = ([], [])"
| "tick_loop nowTick (t # ts) = (let (fire, ts') = tick_loop nowTick ts in
     if \<not> tw_active t then (fire, t # ts')
     else if nowTick < tw_next t then (fire, t # ts')
     else (tw_fn t # fire, t\<lparr>tw_next := nowTick + tw_period t\<rparr> # ts'))"

text \<open>\<open>Tick\<close>; an exception of a callback is swallowed, so every collected callback is called.\<close>

definition Tick :: "u32 \<Rightarrow> TimerWheel \<Rightarrow> (nat \<times> u32) list \<times> TimerWheel" where
  "Tick nowTick w = (let (fire, ts) = tick_loop nowTick (tw_tasks w) in
     (map (\<lambda>f. (f, nowTick)) fire, w\<lparr>tw_tasks := filter tw_active ts\<rparr>))"

text \<open>The ticks of a run, and when one task's callback is called in it.\<close>

fun tick_run :: "u32 list \<Rightarrow> TimerWheel \<Rightarrow> (nat \<times> u32) list \<times> TimerWheel" where
  "tick_run [] w = ([], w)"
| "tick_run (n # ns) w = (let (a, w1) = Tick n w; (b, w2) = tick_run ns w1 in (a @ b, w2))"

text \<open>One task alone: its firing times when \<open>nx\<close> is its next due tick.\<close>

fun fires :: "u32 \<Rightarrow> u32 \<Rightarrow> u32 list \<Rightarrow> u32 list" where
  "fires p nx [] = []"
| "fires p nx (n # ns) = (if n < nx then fires p nx ns else n # fires p (n + p) ns)"

definition calls_of :: "nat \<Rightarrow> (nat \<times> u32) list \<Rightarrow> u32 list" where
  "calls_of f cs = map snd (filter (\<lambda>c. fst c = f) cs)"

lemma tick_loop_app:
  "tick_loop n (xs @ ys) = (fst (tick_loop n xs) @ fst (tick_loop n ys), snd (tick_loop n xs) @ snd (tick_loop n ys))"
  by (induction xs) (auto simp: split_beta Let_def)

lemma tick_loop_fns: "set (fst (tick_loop n ts)) \<subseteq> tw_fn ` set ts \<and> tw_fn ` set (snd (tick_loop n ts)) = tw_fn ` set ts"
  by (induction ts) (auto simp: split_beta Let_def)

lemma calls_of_app: "calls_of f (xs @ ys) = calls_of f xs @ calls_of f ys"
  by (simp add: calls_of_def)

lemma calls_of_none: "f \<notin> set fs \<Longrightarrow> calls_of f (map (\<lambda>f. (f, n)) fs) = []"
  by (induction fs) (auto simp: calls_of_def)

lemma calls_of_Cons: "calls_of f (map (\<lambda>f. (f, n)) (f # fs)) = n # calls_of f (map (\<lambda>f. (f, n)) fs)"
  by (simp add: calls_of_def)

text \<open>A task is independent of the tasks around it.\<close>

lemma tick_run_fires:
  assumes "tw_tasks w = xs @ [t] @ ys" "tw_active t" "tw_fn t = f" "f \<notin> tw_fn ` set xs" "f \<notin> tw_fn ` set ys"
  shows "calls_of f (fst (tick_run ns w)) = fires (tw_period t) (tw_next t) ns"
  using assms
proof (induction ns arbitrary: w xs t ys)
  case Nil
  then show ?case by (simp add: calls_of_def)
next
  case (Cons n ns)
  obtain fx xs' where X: "tick_loop n xs = (fx, xs')" by (cases "tick_loop n xs")
  obtain fy ys' where Y: "tick_loop n ys = (fy, ys')" by (cases "tick_loop n ys")
  have out: "f \<notin> set fx" "f \<notin> set fy" "f \<notin> tw_fn ` set (filter tw_active xs')" "f \<notin> tw_fn ` set (filter tw_active ys')"
    using tick_loop_fns [of n xs] tick_loop_fns [of n ys] Cons.prems(4,5) X Y by auto
  let ?t' = "if n < tw_next t then t else t\<lparr>tw_next := n + tw_period t\<rparr>"
  have L: "tick_loop n (tw_tasks w) = (fx @ (if n < tw_next t then [] else [f]) @ fy, xs' @ [?t'] @ ys')"
    using Cons.prems(1,2,3) X Y by (simp add: tick_loop_app split_beta Let_def)
  let ?w1 = "w\<lparr>tw_tasks := filter tw_active xs' @ [?t'] @ filter tw_active ys'\<rparr>"
  have T: "Tick n w = (map (\<lambda>f. (f, n)) (fx @ (if n < tw_next t then [] else [f]) @ fy), ?w1)"
    using Cons.prems(2) by (simp add: Tick_def L)
  have c: "calls_of f (fst (Tick n w)) = (if n < tw_next t then [] else [n])"
    unfolding T fst_conv map_append calls_of_app using out(1,2) by (simp add: calls_of_none) (simp add: calls_of_def)
  have "calls_of f (fst (tick_run ns ?w1)) = fires (tw_period ?t') (tw_next ?t') ns"
    by (rule Cons.IH [where xs = "filter tw_active xs'" and ys = "filter tw_active ys'"]) (use out Cons.prems(2,3) in auto)
  moreover have "snd (Tick n w) = ?w1" unfolding T by simp
  ultimately show ?case
    by (auto simp: split_beta Let_def calls_of_app c)
qed

text \<open>Consecutive ticks without wrap-around, and what one task does over them.\<close>

definition ticks_from :: "nat \<Rightarrow> nat \<Rightarrow> u32 list" where
  "ticks_from a n = map of_nat [a..<a + n]"

definition due :: "nat \<Rightarrow> nat \<Rightarrow> nat \<Rightarrow> nat \<Rightarrow> u32 list" where
  "due p nx a n = map of_nat (filter (\<lambda>i. nx \<le> i \<and> (i - nx) mod p = 0) [a..<a + n])"

lemma fires_consecutive:
  assumes "0 < p" "a \<le> nx" "nx < 4294967296" "p < 4294967296" "a + n + p < 4294967296"
  shows "fires (of_nat p) (of_nat nx) (ticks_from a n) = due p nx a n"
  using assms
proof (induction n arbitrary: a nx)
  case 0
  then show ?case by (simp add: ticks_from_def due_def)
next
  case (Suc n)
  have u: "unat (of_nat x :: u32) = x" if "x < 4294967296" for x
    using that by (simp add: unat_of_nat take_bit_nat_eq_self)
  have tk: "ticks_from a (Suc n) = of_nat a # ticks_from (Suc a) n"
    unfolding ticks_from_def by (simp add: upt_conv_Cons del: upt_Suc)
  have lt: "(of_nat a :: u32) < of_nat nx \<longleftrightarrow> a < nx"
    using Suc.prems by (simp add: word_less_nat_alt u)
  show ?case
  proof (cases "a < nx")
    case True
    have "fires (of_nat p) (of_nat nx) (ticks_from (Suc a) n) = due p nx (Suc a) n"
      by (rule Suc.IH) (use Suc.prems True in auto)
    with True lt tk show ?thesis by (simp add: due_def upt_conv_Cons del: upt_Suc)
  next
    case False
    then have eq: "a = nx" using Suc.prems(2) by simp
    have "fires (of_nat p) (of_nat (nx + p)) (ticks_from (Suc a) n) = due p (nx + p) (Suc a) n"
      by (rule Suc.IH) (use Suc.prems eq in auto)
    moreover have "due p (nx + p) (Suc a) n = due p nx (Suc a) n"
    proof -
      have *: "(nx + p \<le> i \<and> (i - (nx + p)) mod p = 0) = (nx \<le> i \<and> (i - nx) mod p = 0)" if "Suc a \<le> i" for i
      proof (cases "nx + p \<le> i")
        case True
        then have "(i - nx) mod p = (i - (nx + p)) mod p" using le_mod_geq [of p "i - nx"] by simp
        with True show ?thesis by simp
      next
        case False
        then have "i - nx < p" "0 < i - nx" using that eq by auto
        with False show ?thesis by simp
      qed
      have "filter (\<lambda>i. nx + p \<le> i \<and> (i - (nx + p)) mod p = 0) [Suc a..<Suc a + n] = filter (\<lambda>i. nx \<le> i \<and> (i - nx) mod p = 0) [Suc a..<Suc a + n]"
      proof (intro filter_cong refl)
        fix i assume "i \<in> set [Suc a..<Suc a + n]"
        then have "Suc a \<le> i" by auto
        then show "(nx + p \<le> i \<and> (i - (nx + p)) mod p = 0) = (nx \<le> i \<and> (i - nx) mod p = 0)" by (rule *)
      qed
      then show ?thesis by (simp add: due_def)
    qed
    ultimately show ?thesis using eq lt tk by (simp add: due_def upt_conv_Cons del: upt_Suc)
  qed
qed

text \<open>A periodic timer. A task added at tick \<open>t\<close> with period \<open>p\<close> on a wheel where no other task has
  its callback, with every tick \<open>t, t + 1, ...\<close> delivered and no tick number wrapping, is called
  exactly at the ticks \<open>t + p, t + 2 p, ...\<close> with that tick number, whatever other tasks do. But a
  tick that comes late shifts the schedule: after a call at a late tick \<open>m\<close> the next call is not
  before \<open>m + p\<close>, so lateness does accumulate.\<close>

theorem Timer_periodic:
  assumes "0 < p" "a + n + p < 4294967296" "f \<notin> tw_fn ` set (tw_tasks w)"
    "w1 = snd (Add_timer (of_nat p) (Some f) (of_nat a) w)"
    "\<not> m < nx" "\<forall>k \<in> set ks. k < m + q"
  shows "calls_of f (fst (tick_run (ticks_from a n) w1)) = due p (a + p) a n \<and>
    fires q nx (m # ks) = [m]"
proof -
  have p: "(of_nat p :: u32) \<noteq> 0"
  proof
    assume z: "(of_nat p :: u32) = 0"
    have "unat (of_nat p :: u32) = p" using assms(2) by (simp add: unat_of_nat take_bit_nat_eq_self)
    with z assms(1) show False by simp
  qed
  let ?t = "\<lparr>tw_handle = tw_nextHandle w, tw_period = of_nat p, tw_next = of_nat (a + p), tw_fn = f, tw_active = True\<rparr>"
  have "tw_tasks w1 = tw_tasks w @ [?t] @ []"
    using p by (simp add: assms(4) Add_timer_def)
  then have "calls_of f (fst (tick_run (ticks_from a n) w1)) = fires (of_nat p) (of_nat (a + p)) (ticks_from a n)"
    using tick_run_fires [of w1 "tw_tasks w" ?t "[]" f] assms(3) by simp
  also have "\<dots> = due p (a + p) a n" by (rule fires_consecutive) (use assms in auto)
  moreover have "fires q (m + q) ks = []" using assms(6) by (induction ks) auto
  ultimately show ?thesis using assms(5) by simp
qed

theorem Timer_periodic_witness:
  "calls_of 7 (fst (tick_run (ticks_from 10 9) (snd (Add_timer (of_nat 3) (Some 7) (of_nat 10) new_TimerWheel)))) = due 3 (10 + 3) 10 9"
  by (rule Timer_periodic [where m = 5 and nx = 4 and ks = "[]" and q = 0, OF _ _ _ refl, THEN conjunct1])
    (simp_all add: new_TimerWheel_def)

end
