(* ===== verification/Prelude_Text.thy ===== *)
theory Prelude_Text
  imports Prelude_DTS
begin

text \<open>
  The parts of \<open>std::string\<close> that the control plane, the log sink and the web server use: searching a
  substring from either end, cutting white space, splitting at white space as \<open>operator>>\<close> does.
\<close>

section \<open>Numbers\<close>

text \<open>A signed number in base 10, as \<open>std::to_string\<close> and \<open>%d\<close> print it.\<close>

definition int_string :: "int \<Rightarrow> string" where
  "int_string i = (if i < 0 then ''-'' @ dec_string (nat (- i)) else dec_string (nat i))"

lemma length_int_string:
  assumes "- (2 ^ 63) \<le> i" "i < 2 ^ 63"
  shows "length (int_string i) \<le> 20"
proof (cases "i < 0")
  case True
  have "nat (- i) < 10 ^ 19" using assms by simp
  then have "length (dec_string (nat (- i))) \<le> 19" by (rule length_dec_string) simp
  with True show ?thesis by (simp add: int_string_def)
next
  case False
  have "nat i < 10 ^ 20" using assms by simp
  then have "length (dec_string (nat i)) \<le> 20" by (rule length_dec_string) simp
  with False show ?thesis by (simp add: int_string_def)
qed

section \<open>Searching\<close>

text \<open>\<open>s.find(pat)\<close> and \<open>s.rfind(pat)\<close>; \<open>None\<close> is \<open>npos\<close>.\<close>

fun find_sub :: "'a list \<Rightarrow> 'a list \<Rightarrow> nat option" where
  "find_sub pat [] = (if pat = [] then Some 0 else None)"
| "find_sub pat (c # cs) = (if take (length pat) (c # cs) = pat then Some 0 else map_option Suc (find_sub pat cs))"

definition rfind_sub :: "'a list \<Rightarrow> 'a list \<Rightarrow> nat option" where
  "rfind_sub pat s = map_option (\<lambda>i. length s - length pat - i) (find_sub (rev pat) (rev s))"

lemma find_sub_Some: "find_sub pat s = Some i \<Longrightarrow> i + length pat \<le> length s \<and> take (length pat) (drop i s) = pat"
proof (induction pat s arbitrary: i rule: find_sub.induct)
  case (2 pat c cs)
  show ?case
  proof (cases "take (length pat) (c # cs) = pat")
    case True
    then have "length pat \<le> length (c # cs)" by (metis length_take min.cobounded1)
    with True "2.prems" show ?thesis by auto
  next
    case False
    then obtain j where "i = Suc j" "find_sub pat cs = Some j" using "2.prems" by auto
    with "2.IH" [OF False] show ?thesis by simp
  qed
qed (auto split: if_splits)

lemma find_sub_first: "find_sub pat s = Some i \<Longrightarrow> j < i \<Longrightarrow> take (length pat) (drop j s) \<noteq> pat"
proof (induction pat s arbitrary: i j rule: find_sub.induct)
  case (2 pat c cs)
  have no: "take (length pat) (c # cs) \<noteq> pat" using "2.prems" by (auto split: if_splits)
  then obtain k where k: "i = Suc k" "find_sub pat cs = Some k" using "2.prems" by auto
  show ?case
  proof (cases j)
    case 0
    with no show ?thesis by simp
  next
    case (Suc m)
    with "2.IH" [OF no k(2)] k(1) "2.prems"(2) show ?thesis by simp
  qed
qed (auto split: if_splits)

lemma find_sub_None: "find_sub pat s = None \<Longrightarrow> i + length pat \<le> length s \<Longrightarrow> take (length pat) (drop i s) \<noteq> pat"
proof (induction pat s arbitrary: i rule: find_sub.induct)
  case (2 pat c cs)
  have no: "take (length pat) (c # cs) \<noteq> pat" using "2.prems"(1) by (auto split: if_splits)
  show ?case
  proof (cases i)
    case 0
    with no show ?thesis by simp
  next
    case (Suc j)
    with "2.IH" [OF no, of j] no "2.prems" show ?thesis by simp
  qed
qed (auto split: if_splits)

lemma find_sub_eqI:
  assumes "take (length pat) (drop i s) = pat" "i + length pat \<le> length s"
    "\<And>j. j < i \<Longrightarrow> take (length pat) (drop j s) \<noteq> pat"
  shows "find_sub pat s = Some i"
proof (cases "find_sub pat s")
  case None
  with find_sub_None [OF None assms(2)] assms(1) show ?thesis by simp
next
  case (Some k)
  then have "\<not> i < k" "\<not> k < i" using find_sub_first [OF Some, of i] find_sub_Some [OF Some] assms by auto
  with Some show ?thesis by simp
qed

lemma find_char: "find_sub [c] s = (if c \<in> set s then Some (length (takeWhile (\<lambda>x. x \<noteq> c) s)) else None)"
  by (induction s) auto

lemma find_char_Some: "c \<notin> set xs \<Longrightarrow> find_sub [c] (xs @ c # ys) = Some (length xs)"
  by (induction xs) auto

lemma rfind_char_Some: "c \<notin> set ys \<Longrightarrow> rfind_sub [c] (xs @ c # ys) = Some (length xs)"
  by (simp add: rfind_sub_def find_char_Some)

lemma rfind_char_None: "rfind_sub [c] s = None \<longleftrightarrow> c \<notin> set s"
  by (simp add: rfind_sub_def find_char)

section \<open>White space\<close>

text \<open>\<open>find_first_not_of(ws)\<close> to \<open>find_last_not_of(ws)\<close>.\<close>

definition strip :: "(char \<Rightarrow> bool) \<Rightarrow> string \<Rightarrow> string" where
  "strip ws s = rev (dropWhile ws (rev (dropWhile ws s)))"

lemma dropWhile_shorter:
  assumes "s1 = dropWhile p s" "s1 \<noteq> []"
  shows "length (dropWhile (\<lambda>c. \<not> p c) s1) < length s"
proof -
  obtain c cs where c: "s1 = c # cs" "\<not> p c" using assms(2) hd_dropWhile [of p s] unfolding assms(1)
    by (metis list.collapse)
  then have "length (dropWhile (\<lambda>c. \<not> p c) s1) \<le> length cs" using length_dropWhile_le [of "\<lambda>c. \<not> p c" cs] by simp
  also have "\<dots> < length s1" using c by simp
  also have "length s1 \<le> length s" using length_dropWhile_le [of p s] assms(1) by simp
  finally show ?thesis .
qed

text \<open>The tokens that \<open>operator>>\<close> of an \<open>istringstream\<close> yields one after another.\<close>

function tokens :: "string \<Rightarrow> string list" where
  "tokens s = (let s1 = dropWhile is_space s in
     if s1 = [] then [] else takeWhile (\<lambda>c. \<not> is_space c) s1 # tokens (dropWhile (\<lambda>c. \<not> is_space c) s1))"
  by pat_completeness auto

termination by (relation "measure length") (auto intro: dropWhile_shorter)

declare tokens.simps [simp del]

lemma tokens_all_space: "tokens s = [] \<longleftrightarrow> (\<forall>c \<in> set s. is_space c)"
  by (subst tokens.simps) (simp add: Let_def)

text \<open>Words without white space, separated by single blanks, are split into themselves.\<close>

lemma tokens_word:
  assumes "w \<noteq> []" "\<forall>c \<in> set w. \<not> is_space c" "rest = [] \<or> is_space (hd rest)"
  shows "tokens (w @ rest) = w # tokens rest"
proof -
  have d: "dropWhile is_space (w @ rest) = w @ rest" using assms(1,2) by (cases w) auto
  have t: "takeWhile (\<lambda>c. \<not> is_space c) (w @ rest) = w" "dropWhile (\<lambda>c. \<not> is_space c) (w @ rest) = rest"
    using assms(2,3) by (cases rest; simp add: takeWhile_append2 dropWhile_append2)+
  show ?thesis by (subst tokens.simps) (simp add: d t Let_def assms(1))
qed

lemma tokens_blank: "tokens (CHR '' '' # s) = tokens s"
  by (subst (1 2) tokens.simps) (simp add: is_space_def)

primrec join :: "string list \<Rightarrow> string" where
  "join [] = []"
| "join (w # ws) = CHR '' '' # w @ join ws"

lemma tokens_join:
  "\<forall>w \<in> set ws. w \<noteq> [] \<and> (\<forall>c \<in> set w. \<not> is_space c) \<Longrightarrow> tokens (join ws) = ws"
proof (induction ws)
  case Nil
  show ?case by (subst tokens.simps) simp
next
  case (Cons w ws)
  have "join ws = [] \<or> is_space (hd (join ws))" by (cases ws) (simp_all add: is_space_def)
  with Cons show ?case by (simp add: tokens_blank tokens_word)
qed

end
