(* ===== verification/Log_Sink.thy ===== *)
theory Log_Sink
  imports Prelude_Text
begin

text \<open>
  Logging (\<open>infrastructure/include/log.h\<close>, \<open>src/log.cpp\<close>) and its rotating file sink
  (\<open>src/ts_rotating_sink.cpp\<close>): the level maps, initialisation, and the three jobs of the sink, file
  names with time stamps, rotation by size, removal of the oldest files by total size. The file
  system is a state of its own: the files of the log directory in directory order, which of them
  can be opened or removed, and the clock. \<open>strftime\<close> over the local time is an argument, \<open>fmt\<close>.
\<close>

section \<open>Levels\<close>

datatype Level = TRACE | DEBUG | INFO | WARN | ERROR | CRITICAL

text \<open>The enumerators of \<open>spdlog::level\<close> that the code names; \<open>spd_other\<close> stands for the rest (\<open>off\<close>).\<close>

datatype spd_level = spd_trace | spd_debug | spd_info | spd_warn | spd_err | spd_critical | spd_other

definition ToSpdlogLevel :: "Level \<Rightarrow> spd_level" where
  "ToSpdlogLevel lvl = (case lvl of TRACE \<Rightarrow> spd_trace | DEBUG \<Rightarrow> spd_debug | INFO \<Rightarrow> spd_info
     | WARN \<Rightarrow> spd_warn | ERROR \<Rightarrow> spd_err | CRITICAL \<Rightarrow> spd_critical)"

definition FromSpdlogLevel :: "spd_level \<Rightarrow> Level" where
  "FromSpdlogLevel lvl = (case lvl of spd_trace \<Rightarrow> TRACE | spd_debug \<Rightarrow> DEBUG | spd_info \<Rightarrow> INFO
     | spd_warn \<Rightarrow> WARN | spd_err \<Rightarrow> ERROR | spd_critical \<Rightarrow> CRITICAL | spd_other \<Rightarrow> INFO)"

text \<open>The severity of a level is its place in the enumeration.\<close>

primrec level_index :: "Level \<Rightarrow> nat" where
  "level_index TRACE = 0" | "level_index DEBUG = 1" | "level_index INFO = 2"
| "level_index WARN = 3" | "level_index ERROR = 4" | "level_index CRITICAL = 5"

lemma level_index_inj: "level_index a = level_index b \<Longrightarrow> a = b"
  by (cases a; cases b) simp_all

instantiation Level :: linorder
begin
definition less_eq_Level where "a \<le> b \<longleftrightarrow> level_index a \<le> level_index b"
definition less_Level where "a < (b :: Level) \<longleftrightarrow> level_index a < level_index b"
instance by standard (auto simp: less_eq_Level_def less_Level_def intro: level_index_inj)
end

text \<open>\<open>Log\<close>: the spdlog function that is called, named by its level.\<close>

definition Log :: "Level \<Rightarrow> spd_level" where
  "Log lvl = (case lvl of TRACE \<Rightarrow> spd_trace | DEBUG \<Rightarrow> spd_debug | INFO \<Rightarrow> spd_info
     | WARN \<Rightarrow> spd_warn | ERROR \<Rightarrow> spd_err | CRITICAL \<Rightarrow> spd_critical)"

section \<open>The rotating sink\<close>

record disk_file =
  fl_data :: bytes
  fl_mtime :: nat
  fl_regular :: bool

record disk =
  dk_files :: "(string \<times> disk_file) list"
  dk_mkdir :: bool
  dk_open :: "string \<Rightarrow> bool"
  dk_remove :: "string \<Rightarrow> bool"
  dk_clock :: nat

text \<open>\<open>fopen(path, "ab")\<close>, \<open>fwrite\<close> to an open file, and \<open>remove\<close>.\<close>

definition fopen_append :: "string \<Rightarrow> disk \<Rightarrow> disk option" where
  "fopen_append path d =
     (if \<not> dk_open d path then None
      else if path \<in> fst ` set (dk_files d) then Some d
      else Some (d\<lparr>dk_files := dk_files d @ [(path, \<lparr>fl_data = [], fl_mtime = dk_clock d, fl_regular = True\<rparr>)]\<rparr>))"

definition fwrite_to :: "string \<Rightarrow> bytes \<Rightarrow> disk \<Rightarrow> disk" where
  "fwrite_to path bs d = d\<lparr>dk_files := map (\<lambda>e. if fst e = path
      then (fst e, (snd e)\<lparr>fl_data := fl_data (snd e) @ bs, fl_mtime := dk_clock d\<rparr>) else e) (dk_files d)\<rparr>"

definition remove_file :: "string \<Rightarrow> disk \<Rightarrow> disk" where
  "remove_file path d = d\<lparr>dk_files := filter (\<lambda>e. fst e \<noteq> path) (dk_files d)\<rparr>"

record TsRotatingSink =
  rs_dir :: string
  rs_namePrefix :: string
  rs_tsFmt :: string
  rs_maxSize :: u64
  rs_maxTotal :: u64
  rs_currentPath :: string
  rs_file :: "string option"
  rs_bytes :: u64
  rs_openFailed :: bool

text \<open>The constructor: the pattern is cut at its first percent sign; a first \<open>{}\<close> in the prefix becomes the name.\<close>

definition kDefaultTsFmt :: string where "kDefaultTsFmt = ''%Y%m%d%H%M%S''"
definition kThreadName :: string where "kThreadName = ''dts''"

definition new_sink :: "string \<Rightarrow> string \<Rightarrow> u64 \<Rightarrow> u64 \<Rightarrow> TsRotatingSink" where
  "new_sink dir name_pattern max_size_mb max_total_mb =
    (let (prefix, ts_fmt) = (case find_sub ''%'' name_pattern of
            Some pct \<Rightarrow> (take pct name_pattern, drop pct name_pattern)
          | None \<Rightarrow> (name_pattern, kDefaultTsFmt));
         prefix1 = (case find_sub ''{}'' prefix of
            Some br \<Rightarrow> take br prefix @ kThreadName @ drop (br + 2) prefix
          | None \<Rightarrow> prefix)
     in \<lparr>rs_dir = dir, rs_namePrefix = prefix1, rs_tsFmt = ts_fmt, rs_maxSize = max_size_mb * 1024 * 1024,
         rs_maxTotal = max_total_mb * 1024 * 1024, rs_currentPath = [], rs_file = None, rs_bytes = 0, rs_openFailed = False\<rparr>)"

text \<open>The file name number \<open>seq\<close> of one second, and the loop that avoids the current one.\<close>

definition path_name :: "string \<Rightarrow> string \<Rightarrow> nat \<Rightarrow> string" where
  "path_name base ts sq = base @ ts @ (if sq > 0 then ''-'' @ dec_string sq else []) @ ''.log''"

function path_loop :: "string \<Rightarrow> string \<Rightarrow> string \<Rightarrow> nat \<Rightarrow> string" where
  "path_loop base ts cur sq = (let path = path_name base ts sq in
     if path = cur \<and> sq + 1 < 1000 then path_loop base ts cur (sq + 1) else path)"
  by pat_completeness auto
termination by (relation "measure (\<lambda>(base, ts, cur, sq). 1000 - sq)") auto

declare path_loop.simps [simp del]

definition OpenNewFile :: "(string \<Rightarrow> nat \<Rightarrow> string) \<Rightarrow> TsRotatingSink \<Rightarrow> disk \<Rightarrow> TsRotatingSink \<times> disk" where
  "OpenNewFile fmt s d =
    (if rs_openFailed s then (s, d)
     else let s1 = s\<lparr>rs_file := None\<rparr> in
       if \<not> dk_mkdir d then (s1\<lparr>rs_openFailed := True\<rparr>, d)
       else let path = path_loop (rs_dir s @ ''/'' @ rs_namePrefix s) (fmt (rs_tsFmt s) (dk_clock d)) (rs_currentPath s) 0 in
         (case fopen_append path d of
            None \<Rightarrow> (s1\<lparr>rs_bytes := 0, rs_openFailed := True, rs_currentPath := []\<rparr>, d)
          | Some d' \<Rightarrow> (s1\<lparr>rs_currentPath := path, rs_file := Some path, rs_bytes := 0\<rparr>, d')))"

text \<open>Which directory entries count: regular files with the prefix and the extension.\<close>

definition counts :: "TsRotatingSink \<Rightarrow> string \<times> disk_file \<Rightarrow> bool" where
  "counts s e \<longleftrightarrow> fl_regular (snd e) \<and>
     (let fn = drop (length (rs_dir s) + 1) (fst e) in
        take (length (rs_namePrefix s)) fn = rs_namePrefix s \<and> length fn \<ge> 4 \<and> drop (length fn - 4) fn = ''.log'')"

definition fsize :: "string \<times> disk_file \<Rightarrow> nat" where
  "fsize e = length (fl_data (snd e))"

text \<open>The comparison of \<open>min_element\<close>: the current file is last, otherwise by modification time.\<close>

definition older :: "string \<Rightarrow> string \<times> disk_file \<Rightarrow> string \<times> disk_file \<Rightarrow> bool" where
  "older cur a b = (let aCur = (cur \<noteq> [] \<and> fst a = cur); bCur = (cur \<noteq> [] \<and> fst b = cur) in
     if aCur \<noteq> bCur then bCur else fl_mtime (snd a) < fl_mtime (snd b))"

fun min_element :: "('a \<Rightarrow> 'a \<Rightarrow> bool) \<Rightarrow> 'a \<Rightarrow> 'a list \<Rightarrow> 'a" where
  "min_element lt m [] = m"
| "min_element lt m (y # ys) = min_element lt (if lt y m then y else m) ys"

lemma min_element_in: "min_element lt m ys \<in> set (m # ys)"
  by (induction ys arbitrary: m) auto

lemma min_element_shorter:
  assumes "files \<noteq> []"
  shows "length (remove1 (min_element lt (hd files) (tl files)) files) < length files"
proof -
  have "min_element lt (hd files) (tl files) \<in> set files"
    using min_element_in [of lt "hd files" "tl files"] assms by simp
  with assms show ?thesis by (simp add: length_remove1)
qed

function evict_loop :: "string \<Rightarrow> nat \<Rightarrow> nat \<Rightarrow> (string \<times> disk_file) list \<Rightarrow> disk \<Rightarrow> disk" where
  "evict_loop cur maxTotal tot files d =
    (if tot \<le> maxTotal \<or> files = [] then d
     else let oldest = min_element (older cur) (hd files) (tl files) in
       if cur \<noteq> [] \<and> fst oldest = cur then d
       else if dk_remove d (fst oldest)
         then evict_loop cur maxTotal (tot - fsize oldest) (remove1 oldest files) (remove_file (fst oldest) d)
         else evict_loop cur maxTotal tot (remove1 oldest files) d)"
  by pat_completeness auto

termination by (relation "measure (\<lambda>(cur, maxTotal, tot, files, d). length files)") (auto intro: min_element_shorter)

declare evict_loop.simps [simp del]

definition EvictOldestIfNeeded :: "TsRotatingSink \<Rightarrow> disk \<Rightarrow> disk" where
  "EvictOldestIfNeeded s d = (let files = filter (counts s) (dk_files d) in
     evict_loop (rs_currentPath s) (unat (rs_maxTotal s)) (sum_list (map fsize files)) files d)"

text \<open>\<open>sink_it_\<close> for the formatted message; \<open>k\<close> is what \<open>fwrite\<close> manages to write of it.\<close>

definition sink_write :: "(string \<Rightarrow> nat \<Rightarrow> string) \<Rightarrow> bytes \<Rightarrow> nat \<Rightarrow> string \<Rightarrow> TsRotatingSink \<Rightarrow> disk \<Rightarrow> TsRotatingSink \<times> disk" where
  "sink_write fmt msg k path s d =
    (let n = min k (length msg);
         d1 = fwrite_to path (take n msg) d;
         s1 = s\<lparr>rs_bytes := rs_bytes s + of_nat n\<rparr>
     in if rs_bytes s1 \<ge> rs_maxSize s1
        then (let (s2, d2) = OpenNewFile fmt s1 d1 in (s2, EvictOldestIfNeeded s2 d2))
        else (s1, d1))"

definition sink_it :: "(string \<Rightarrow> nat \<Rightarrow> string) \<Rightarrow> bytes \<Rightarrow> nat \<Rightarrow> TsRotatingSink \<Rightarrow> disk \<Rightarrow> TsRotatingSink \<times> disk" where
  "sink_it fmt msg k s0 d0 =
    (let (s, d) = (if rs_file s0 = None then OpenNewFile fmt s0 d0 else (s0, d0))
     in (case rs_file s of None \<Rightarrow> (s, d) | Some path \<Rightarrow> sink_write fmt msg k path s d))"

section \<open>Initialisation\<close>

record log_config =
  lc_poolSize :: u64
  lc_poolThreads :: u64
  lc_level :: Level
  lc_console :: bool
  lc_enable :: bool
  lc_dir :: string
  lc_namePattern :: string
  lc_maxSizeMb :: u64
  lc_maxTotalMb :: u64

definition default_config :: log_config where
  "default_config = \<lparr>lc_poolSize = 8192, lc_poolThreads = 1, lc_level = INFO, lc_console = True, lc_enable = True,
     lc_dir = ''/var/log/dts'', lc_namePattern = ''dts_{}-%Y%m%d%H%M%S'', lc_maxSizeMb = 5, lc_maxTotalMb = 5120\<rparr>"

datatype sink = Console_sink | File_sink TsRotatingSink

text \<open>spdlog's global state as far as the code sets it: thread pool, default logger's sinks, level.\<close>

record log_state =
  lg_init :: bool
  lg_pool :: "(u64 \<times> u64) option"
  lg_sinks :: "sink list option"
  lg_level :: spd_level

definition Init_log :: "log_config \<Rightarrow> log_state \<Rightarrow> int \<times> log_state" where
  "Init_log cfg s = (if lg_init s then (0, s)
     else (0, s\<lparr>lg_init := True, lg_pool := Some (lc_poolSize cfg, lc_poolThreads cfg),
        lg_sinks := Some ((if lc_console cfg then [Console_sink] else []) @
          (if lc_enable cfg then [File_sink (new_sink (lc_dir cfg) (lc_namePattern cfg) (lc_maxSizeMb cfg) (lc_maxTotalMb cfg))] else [])),
        lg_level := ToSpdlogLevel (lc_level cfg)\<rparr>))"

definition Shutdown_log :: "log_state \<Rightarrow> log_state" where
  "Shutdown_log s = s\<lparr>lg_init := False, lg_pool := None, lg_sinks := None\<rparr>"

definition SetLevel :: "Level \<Rightarrow> log_state \<Rightarrow> log_state" where
  "SetLevel lvl s = s\<lparr>lg_level := ToSpdlogLevel lvl\<rparr>"

definition GetLevel :: "log_state \<Rightarrow> Level" where
  "GetLevel s = FromSpdlogLevel (lg_level s)"

section \<open>What the sink guarantees\<close>

lemma From_To: "FromSpdlogLevel (ToSpdlogLevel l) = l"
  by (cases l) (simp_all add: FromSpdlogLevel_def ToSpdlogLevel_def)

text \<open>Levels. \<open>GetLevel\<close> returns what \<open>SetLevel\<close> or the first \<open>Init\<close> stored, a second \<open>Init\<close> without
  \<open>Shutdown\<close> changes nothing, \<open>Log\<close> calls the spdlog function of the level that \<open>SetLevel\<close> would
  store, and so, with spdlog passing a message on exactly if its level is not below the stored
  one, a message of level l is passed on exactly if l is at least the level that was set.\<close>

theorem Log_levels:
  assumes "\<And>m l. should_log (ToSpdlogLevel m) (ToSpdlogLevel l) \<longleftrightarrow> level_index m \<le> level_index l"
  shows "GetLevel (SetLevel m s) = m \<and>
    (\<not> lg_init s \<longrightarrow> GetLevel (snd (Init_log cfg s)) = lc_level cfg \<and>
       Init_log cfg' (snd (Init_log cfg s)) = (0, snd (Init_log cfg s))) \<and>
    (should_log (lg_level (SetLevel m s)) (Log l) \<longleftrightarrow> m \<le> l)"
proof -
  have "Log l = ToSpdlogLevel l" by (cases l) (simp_all add: Log_def ToSpdlogLevel_def)
  then show ?thesis
    using assms by (simp add: GetLevel_def SetLevel_def Init_log_def From_To less_eq_Level_def)
qed

theorem Log_levels_witness:
  "GetLevel (SetLevel WARN \<lparr>lg_init = False, lg_pool = None, lg_sinks = None, lg_level = spd_other\<rparr>) = WARN"
  by (rule Log_levels [THEN conjunct1, of "\<lambda>a b. level_index (FromSpdlogLevel a) \<le> level_index (FromSpdlogLevel b)"])
    (simp add: From_To)

lemma path_loop_eq:
  "path_loop base ts cur 0 = (if cur = path_name base ts 0 then path_name base ts 1 else path_name base ts 0)"
proof -
  have "path_name base ts 0 \<noteq> path_name base ts 1" by (simp add: path_name_def)
  then show ?thesis
    using path_loop.simps [of base ts cur 0] path_loop.simps [of base ts cur 1] by (auto simp: Let_def)
qed

abbreviation base_of :: "TsRotatingSink \<Rightarrow> string" where
  "base_of s \<equiv> rs_dir s @ ''/'' @ rs_namePrefix s"

lemma OpenNewFile_ok:
  assumes "\<not> rs_openFailed s" "dk_mkdir d" "\<And>p. dk_open d p"
    "path = path_loop (base_of s) (fmt (rs_tsFmt s) (dk_clock d)) (rs_currentPath s) 0"
  shows "fst (OpenNewFile fmt s d) = s\<lparr>rs_file := Some path, rs_currentPath := path, rs_bytes := 0\<rparr>"
    and "snd (OpenNewFile fmt s d) = d \<or> snd (OpenNewFile fmt s d) =
      d\<lparr>dk_files := dk_files d @ [(path, \<lparr>fl_data = [], fl_mtime = dk_clock d, fl_regular = True\<rparr>)]\<rparr>"
    and "path \<in> fst ` set (dk_files d) \<Longrightarrow> snd (OpenNewFile fmt s d) = d"
  using assms by (auto simp: OpenNewFile_def fopen_append_def Let_def)

text \<open>Rotation within one second. Opening a new file twice in the same second gives the plain
  name and then the name with suffix 1; a third rotation in that second returns to the plain
  name: it appends to the file that has just been filled and starts counting at 0 again, so the
  size limit does not bound a file. (The comment promises ts, ts-1, ts-2 and so on.)\<close>

theorem Rotation_in_one_second:
  assumes "\<not> rs_openFailed s" "rs_currentPath s = []" "dk_mkdir d" "\<And>p. dk_open d p"
    "dk_mkdir d2" "\<And>p. dk_open d2 p" "dk_clock d2 = dk_clock d" "dk_mkdir d3" "\<And>p. dk_open d3 p" "dk_clock d3 = dk_clock d"
    "name = path_name (base_of s) (fmt (rs_tsFmt s) (dk_clock d))"
  shows "rs_file (fst (OpenNewFile fmt s d)) = Some (name 0) \<and>
    rs_file (fst (OpenNewFile fmt (fst (OpenNewFile fmt s d)) d2)) = Some (name 1) \<and>
    rs_file (fst (OpenNewFile fmt (fst (OpenNewFile fmt (fst (OpenNewFile fmt s d)) d2)) d3)) = Some (name 0) \<and>
    rs_bytes (fst (OpenNewFile fmt (fst (OpenNewFile fmt (fst (OpenNewFile fmt s d)) d2)) d3)) = 0 \<and>
    (name 0 \<in> fst ` set (dk_files d3) \<longrightarrow>
       snd (OpenNewFile fmt (fst (OpenNewFile fmt (fst (OpenNewFile fmt s d)) d2)) d3) = d3)"
proof -
  have ne: "name 0 \<noteq> name 1" "name 0 \<noteq> []" by (simp_all add: assms(11) path_name_def)
  have 1: "fst (OpenNewFile fmt s d) = s\<lparr>rs_file := Some (name 0), rs_currentPath := name 0, rs_bytes := 0\<rparr>"
    (is "_ = ?s1")
    by (rule OpenNewFile_ok(1) [where s = s and d = d]) (use assms ne in \<open>simp_all add: path_loop_eq\<close>)
  have 2: "fst (OpenNewFile fmt ?s1 d2) = ?s1\<lparr>rs_file := Some (name 1), rs_currentPath := name 1, rs_bytes := 0\<rparr>"
    (is "_ = ?s2")
    by (rule OpenNewFile_ok(1) [where s = ?s1 and d = d2]) (use assms in \<open>simp_all add: path_loop_eq\<close>)
  have p3: "name 0 = path_loop (base_of ?s2) (fmt (rs_tsFmt ?s2) (dk_clock d3)) (rs_currentPath ?s2) 0"
    using assms ne by (simp add: path_loop_eq)
  have 3: "fst (OpenNewFile fmt ?s2 d3) = ?s2\<lparr>rs_file := Some (name 0), rs_currentPath := name 0, rs_bytes := 0\<rparr>"
    by (rule OpenNewFile_ok(1) [where s = ?s2 and d = d3]) (use assms p3 in simp_all)
  have 4: "snd (OpenNewFile fmt ?s2 d3) = d3" if "name 0 \<in> fst ` set (dk_files d3)"
    by (rule OpenNewFile_ok(3) [where s = ?s2 and d = d3]) (use assms p3 that in simp_all)
  show ?thesis unfolding 1 2 3 using 4 by simp
qed

definition empty_disk :: disk where
  "empty_disk = \<lparr>dk_files = [], dk_mkdir = True, dk_open = (\<lambda>_. True), dk_remove = (\<lambda>_. True), dk_clock = 0\<rparr>"

theorem Rotation_in_one_second_witness:
  "rs_bytes (fst (OpenNewFile (\<lambda>_ _. ''1'') (fst (OpenNewFile (\<lambda>_ _. ''1'') (fst (OpenNewFile (\<lambda>_ _. ''1'')
     (new_sink ''/d'' ''x'' 1 1) empty_disk)) empty_disk)) empty_disk)) = 0"
  by (rule Rotation_in_one_second [OF _ _ _ _ _ _ _ _ _ _ refl, THEN conjunct2, THEN conjunct2, THEN conjunct2, THEN conjunct1])
    (simp_all add: empty_disk_def new_sink_def)

section \<open>Eviction\<close>

lemma min_element_least:
  assumes "\<And>a b. lt a b \<Longrightarrow> \<not> lt b a" "\<And>a b c. \<not> lt a b \<Longrightarrow> \<not> lt b c \<Longrightarrow> \<not> lt a c"
  shows "\<forall>y \<in> set (m # ys). \<not> lt y (min_element lt m ys)"
proof (induction ys arbitrary: m)
  case Nil
  show ?case using assms(1) by auto
next
  case (Cons y ys)
  show ?case
  proof (cases "lt y m")
    case True
    have ih: "\<forall>z \<in> set (y # ys). \<not> lt z (min_element lt y ys)" by (rule Cons.IH)
    moreover have "\<not> lt m (min_element lt y ys)"
      using assms(2) [OF assms(1) [OF True]] ih by simp
    ultimately show ?thesis using True by simp
  next
    case False
    have ih: "\<forall>z \<in> set (m # ys). \<not> lt z (min_element lt m ys)" by (rule Cons.IH)
    moreover have "\<not> lt y (min_element lt m ys)"
      using assms(2) [OF False] ih by simp
    ultimately show ?thesis using False by simp
  qed
qed

abbreviation is_cur :: "string \<Rightarrow> string \<times> disk_file \<Rightarrow> bool" where
  "is_cur cur e \<equiv> cur \<noteq> [] \<and> fst e = cur"

lemma older_iff:
  "older cur a b \<longleftrightarrow> (\<not> is_cur cur a \<and> is_cur cur b) \<or> (is_cur cur a = is_cur cur b \<and> fl_mtime (snd a) < fl_mtime (snd b))"
  unfolding older_def Let_def by argo

lemma older_order:
  shows "older cur a b \<Longrightarrow> \<not> older cur b a" and "\<not> older cur a b \<Longrightarrow> \<not> older cur b c \<Longrightarrow> \<not> older cur a c"
  unfolding older_iff by (cases "is_cur cur a"; cases "is_cur cur b"; cases "is_cur cur c"; linarith)+

lemma oldest_least:
  assumes "files \<noteq> []" "y \<in> set files" "x = min_element (older cur) (hd files) (tl files)"
  shows "\<not> is_cur cur x \<Longrightarrow> \<not> is_cur cur y \<Longrightarrow> fl_mtime (snd x) \<le> fl_mtime (snd y)"
    and "is_cur cur x \<Longrightarrow> is_cur cur y"
proof -
  have "y \<in> set (hd files # tl files)" using assms(1,2) by simp
  then have "\<not> older cur y x" unfolding assms(3)
    by (rule min_element_least [THEN bspec, rotated 2]) (erule older_order, erule older_order)
  then show "\<not> is_cur cur x \<Longrightarrow> \<not> is_cur cur y \<Longrightarrow> fl_mtime (snd x) \<le> fl_mtime (snd y)"
    and "is_cur cur x \<Longrightarrow> is_cur cur y"
    unfolding older_iff by (meson not_le)+
qed

lemma filter_remove1_out: "\<not> P x \<Longrightarrow> filter P (remove1 x xs) = filter P xs"
  by (induction xs) auto

text \<open>What is kept: \<open>K\<close> among the candidates \<open>files\<close>.\<close>

definition evicted_to :: "string \<Rightarrow> nat \<Rightarrow> (string \<times> disk_file) list \<Rightarrow> (string \<times> disk_file) set \<Rightarrow> bool" where
  "evicted_to cur maxTotal files K \<longleftrightarrow> K \<subseteq> set files \<and> (\<forall>e \<in> set files. is_cur cur e \<longrightarrow> e \<in> K) \<and>
     (sum_list (map fsize (filter (\<lambda>e. e \<in> K) files)) \<le> maxTotal \<or> (\<forall>e \<in> K. is_cur cur e)) \<and>
     (\<forall>r \<in> set files - K. \<forall>k \<in> K. \<not> is_cur cur k \<longrightarrow> fl_mtime (snd r) \<le> fl_mtime (snd k)) \<and>
     (set files \<subseteq> K \<or> (\<exists>r \<in> set files - K. maxTotal < sum_list (map fsize (filter (\<lambda>e. e \<in> K) files)) + fsize r))"

lemma evicted_to_all: "sum_list (map fsize files) \<le> maxTotal \<or> (\<forall>e \<in> set files. is_cur cur e) \<Longrightarrow> evicted_to cur maxTotal files (set files)"
  unfolding evicted_to_def by simp

lemma evicted_to_step:
  assumes "files \<noteq> []" "x = min_element (older cur) (hd files) (tl files)" "\<not> is_cur cur x" "distinct files"
    "maxTotal < sum_list (map fsize files)" "evicted_to cur maxTotal (remove1 x files) K"
  shows "evicted_to cur maxTotal files K"
proof -
  have x: "x \<in> set files" using min_element_in [of "older cur" "hd files" "tl files"] assms(1,2) by simp
  have s: "set (remove1 x files) = set files - {x}" using assms(4) by simp
  have K: "K \<subseteq> set files - {x}" using assms(6) by (simp add: evicted_to_def s)
  then have xK: "x \<notin> K" by blast
  have f: "filter (\<lambda>e. e \<in> K) (remove1 x files) = filter (\<lambda>e. e \<in> K) files" using xK by (rule filter_remove1_out)
  have sum: "sum_list (map fsize files) = fsize x + sum_list (map fsize (remove1 x files))"
    using x by (rule sum_list_map_remove1)
  have small: "\<forall>k \<in> K. \<not> is_cur cur k \<longrightarrow> fl_mtime (snd x) \<le> fl_mtime (snd k)"
    using oldest_least(1) [OF assms(1) _ assms(2) assms(3)] K by blast
  have last: "\<exists>r \<in> set files - K. maxTotal < sum_list (map fsize (filter (\<lambda>e. e \<in> K) files)) + fsize r"
  proof (cases "set (remove1 x files) \<subseteq> K")
    case True
    then have "filter (\<lambda>e. e \<in> K) (remove1 x files) = remove1 x files" by (auto intro: filter_True)
    with f sum assms(5) have "maxTotal < sum_list (map fsize (filter (\<lambda>e. e \<in> K) files)) + fsize x" by simp
    with x xK show ?thesis by blast
  next
    case False
    with assms(6) f show ?thesis unfolding evicted_to_def by (auto simp: s)
  qed
  show ?thesis
    using assms(3,6) K small last x xK unfolding evicted_to_def f s by auto
qed

lemma evict_loop_spec:
  assumes "\<And>p. dk_remove d p" "distinct (map fst (dk_files d))" "set files \<subseteq> set (dk_files d)" "distinct files"
  shows "\<exists>K. evicted_to cur maxTotal files K \<and>
    evict_loop cur maxTotal (sum_list (map fsize files)) files d = d\<lparr>dk_files := filter (\<lambda>e. e \<in> set files \<longrightarrow> e \<in> K) (dk_files d)\<rparr>"
  using assms
proof (induction "length files" arbitrary: files d rule: less_induct)
  case less
  let ?x = "min_element (older cur) (hd files) (tl files)"
  let ?tot = "sum_list (map fsize files)"
  have all: "filter (\<lambda>e. e \<in> set files \<longrightarrow> e \<in> set files) (dk_files d) = dk_files d" by simp
  show ?case
  proof (cases "?tot \<le> maxTotal \<or> files = [] \<or> is_cur cur ?x")
    case True
    have "?tot \<le> maxTotal \<or> (\<forall>e \<in> set files. is_cur cur e)"
      using True oldest_least(2) [OF _ _ refl, of files] by fastforce
    then have "evicted_to cur maxTotal files (set files)" by (rule evicted_to_all)
    moreover have "evict_loop cur maxTotal ?tot files d = d"
      using True by (subst evict_loop.simps) (auto simp: Let_def)
    ultimately show ?thesis using all by (intro exI [of _ "set files"]) simp
  next
    case False
    then have ne: "files \<noteq> []" and nc: "\<not> is_cur cur ?x" and big: "maxTotal < ?tot" by auto
    let ?d1 = "remove_file (fst ?x) d"
    have x: "?x \<in> set files" using min_element_in [of "older cur" "hd files" "tl files"] ne by simp
    have tot: "?tot - fsize ?x = sum_list (map fsize (remove1 ?x files))"
      using sum_list_map_remove1 [OF x, of fsize] by simp
    have same: "e = ?x" if "e \<in> set (dk_files d)" "fst e = fst ?x" for e
      using that x less.prems(2,3) by (meson eq_key_imp_eq_value prod_eqI subsetD distinct_map inj_onD)
    have d1: "dk_files ?d1 = filter (\<lambda>e. fst e \<noteq> fst ?x) (dk_files d)" "dk_remove ?d1 = dk_remove d"
      by (simp_all add: remove_file_def)
    obtain K where K: "evicted_to cur maxTotal (remove1 ?x files) K"
      "evict_loop cur maxTotal (sum_list (map fsize (remove1 ?x files))) (remove1 ?x files) ?d1 =
         ?d1\<lparr>dk_files := filter (\<lambda>e. e \<in> set (remove1 ?x files) \<longrightarrow> e \<in> K) (dk_files ?d1)\<rparr>"
    proof -
      have "\<exists>K. evicted_to cur maxTotal (remove1 ?x files) K \<and>
        evict_loop cur maxTotal (sum_list (map fsize (remove1 ?x files))) (remove1 ?x files) ?d1 =
         ?d1\<lparr>dk_files := filter (\<lambda>e. e \<in> set (remove1 ?x files) \<longrightarrow> e \<in> K) (dk_files ?d1)\<rparr>"
      proof (rule less.hyps)
        show "length (remove1 ?x files) < length files" using ne by (rule min_element_shorter)
        show "distinct (map fst (dk_files ?d1))" using less.prems(2) by (simp add: d1 distinct_map_filter)
        show "set (remove1 ?x files) \<subseteq> set (dk_files ?d1)"
        proof
          fix e assume e: "e \<in> set (remove1 ?x files)"
          then have "e \<noteq> ?x" "e \<in> set (dk_files d)" using less.prems(3,4) by auto
          then have "fst e \<noteq> fst ?x" using same [of e] by blast
          with \<open>e \<in> set (dk_files d)\<close> show "e \<in> set (dk_files ?d1)" unfolding d1 by simp
        qed
      qed (use less.prems in \<open>simp_all add: d1\<close>)
      then show ?thesis using that by blast
    qed
    have "?x \<notin> K" using K(1) less.prems(4) by (auto simp: evicted_to_def)
    have "filter (\<lambda>e. e \<in> set (remove1 ?x files) \<longrightarrow> e \<in> K) (dk_files ?d1) = filter (\<lambda>e. e \<in> set files \<longrightarrow> e \<in> K) (dk_files d)"
      unfolding d1 filter_filter
    proof (rule filter_cong [OF refl])
      fix e assume e: "e \<in> set (dk_files d)"
      have "fst e = fst ?x \<longleftrightarrow> e = ?x" using same [OF e] by blast
      then show "(fst e \<noteq> fst ?x \<and> (e \<in> set (remove1 ?x files) \<longrightarrow> e \<in> K)) = (e \<in> set files \<longrightarrow> e \<in> K)"
        using \<open>?x \<notin> K\<close> x less.prems(4) by auto
    qed
    with K(2) have r: "evict_loop cur maxTotal (?tot - fsize ?x) (remove1 ?x files) ?d1 =
        d\<lparr>dk_files := filter (\<lambda>e. e \<in> set files \<longrightarrow> e \<in> K) (dk_files d)\<rparr>"
      by (simp add: tot remove_file_def)
    have "evict_loop cur maxTotal ?tot files d = evict_loop cur maxTotal (?tot - fsize ?x) (remove1 ?x files) ?d1"
    proof -
      have c: "\<not> (?tot \<le> maxTotal \<or> files = [])" using False by blast
      show ?thesis
        by (subst evict_loop.simps) (simp only: Let_def if_not_P [OF c] if_not_P [OF nc] if_P [OF less.prems(1)])
    qed
    then show ?thesis
      using evicted_to_step [OF ne refl nc less.prems(4) big K(1)] r by auto
  qed
qed

text \<open>C39: Eviction. With removable files and distinct names, \<open>EvictOldestIfNeeded\<close> removes only regular
  log files of its own prefix and never the current one; what is left of them is within the
  total limit, or only the current file is left; no file is removed that is newer than one that
  stays; and it removes no more than needed: before the last removal the limit was exceeded.\<close>

theorem Eviction_oldest_first:
  assumes "\<And>p. dk_remove d p" "distinct (map fst (dk_files d))"
    "mine = set (filter (counts s) (dk_files d))" "kept = set (filter (counts s) (dk_files (EvictOldestIfNeeded s d)))"
    "left_over = sum_list (map fsize (filter (counts s) (dk_files (EvictOldestIfNeeded s d))))" "cur = rs_currentPath s"
  shows "filter (\<lambda>e. \<not> counts s e) (dk_files (EvictOldestIfNeeded s d)) = filter (\<lambda>e. \<not> counts s e) (dk_files d) \<and>
    kept \<subseteq> mine \<and> (\<forall>e \<in> mine. is_cur cur e \<longrightarrow> e \<in> kept) \<and>
    (left_over \<le> unat (rs_maxTotal s) \<or> (\<forall>e \<in> kept. is_cur cur e)) \<and>
    (\<forall>r \<in> mine - kept. \<forall>k \<in> kept. \<not> is_cur cur k \<longrightarrow> fl_mtime (snd r) \<le> fl_mtime (snd k)) \<and>
    (kept = mine \<or> (\<exists>r \<in> mine - kept. unat (rs_maxTotal s) < left_over + fsize r))"
proof -
  let ?files = "filter (counts s) (dk_files d)"
  have "distinct (dk_files d)" using assms(2) by (simp add: distinct_map)
  then have "distinct ?files" by simp
  then obtain K where K: "evicted_to cur (unat (rs_maxTotal s)) ?files K"
    "EvictOldestIfNeeded s d = d\<lparr>dk_files := filter (\<lambda>e. e \<in> set ?files \<longrightarrow> e \<in> K) (dk_files d)\<rparr>"
    using evict_loop_spec [OF assms(1,2), of ?files] unfolding EvictOldestIfNeeded_def Let_def assms(6) by auto
  have sub: "K \<subseteq> set ?files" using K(1) by (simp add: evicted_to_def)
  have f: "filter (counts s) (dk_files (EvictOldestIfNeeded s d)) = filter (\<lambda>e. e \<in> K) ?files"
    unfolding K(2) by (simp add: conj_commute) (rule filter_cong, use sub in auto)
  then have kept: "kept = K" unfolding assms(4) using sub by auto
  have "filter (\<lambda>e. \<not> counts s e) (dk_files (EvictOldestIfNeeded s d)) = filter (\<lambda>e. \<not> counts s e) (dk_files d)"
    unfolding K(2) by (simp cong: conj_cong) (rule filter_cong, auto)
  with K(1) kept sub show ?thesis unfolding evicted_to_def assms(3,5) f by blast
qed

definition three_files :: disk where
  "three_files = empty_disk\<lparr>dk_files := [(''/d/xa.log'', \<lparr>fl_data = replicate 700000 0, fl_mtime = 2, fl_regular = True\<rparr>),
     (''/d/xb.log'', \<lparr>fl_data = replicate 700000 0, fl_mtime = 1, fl_regular = True\<rparr>)]\<rparr>"

theorem Eviction_oldest_first_witness:
  "filter (\<lambda>e. \<not> counts (new_sink ''/d'' ''x'' 1 1) e) (dk_files (EvictOldestIfNeeded (new_sink ''/d'' ''x'' 1 1) three_files)) =
   filter (\<lambda>e. \<not> counts (new_sink ''/d'' ''x'' 1 1) e) (dk_files three_files)"
  by (rule Eviction_oldest_first [OF _ _ refl refl refl refl, THEN conjunct1]) (simp_all add: three_files_def empty_disk_def)

end
