(* ===== verification/Detsched.thy ===== *)
theory Detsched
  imports Prelude_Text
begin

text \<open>
  The deterministic scheduler (\<open>thirdparty/detsched\<close>): the priority segments of
  \<open>platform_sched_defs.h\<close>, the \<open>ThreadFactory\<close> with its domains and its registry, and its operations.
  \<open>pthread_create\<close> is an argument: the answer to the n-th call with the attributes that the code
  sets up. Setting the name and the affinity of a thread and the log lines change nothing that the
  code reads again; the affinity that was asked for is recorded whether or not it could be set.
\<close>

section \<open>Priority segments\<close>

definition SCHED_OTHER :: int where "SCHED_OTHER = 0"
definition SCHED_FIFO :: int where "SCHED_FIFO = 1"
definition SCHED_RR :: int where "SCHED_RR = 2"

lemmas sched_defs = SCHED_OTHER_def SCHED_FIFO_def SCHED_RR_def

record SchedSegment =
  seg_minPrio :: int
  seg_maxPrio :: int
  seg_schedPolicy :: int
  seg_name :: string

definition mk_segment :: "int \<Rightarrow> int \<Rightarrow> int \<Rightarrow> string \<Rightarrow> SchedSegment" where
  "mk_segment lo hi pol nm = \<lparr>seg_minPrio = lo, seg_maxPrio = hi, seg_schedPolicy = pol, seg_name = nm\<rparr>"

definition KSCHED_SEGMENTS :: "SchedSegment list" where
  "KSCHED_SEGMENTS =
    [mk_segment 75 89 SCHED_FIFO ''CORE'', mk_segment 60 74 SCHED_FIFO ''DATA'', mk_segment 45 59 SCHED_RR ''APP'',
     mk_segment 32 34 SCHED_RR ''DTS'', mk_segment 15 29 SCHED_OTHER ''BKG'', mk_segment 1 14 SCHED_OTHER ''DEF'']"

definition SCHED_DOMAIN_COUNT :: nat where "SCHED_DOMAIN_COUNT = 6"

definition DATA_PRIO :: int where "DATA_PRIO = 34"
definition TASK_PRIO :: int where "TASK_PRIO = 33"
definition LOG_PRIO :: int where "LOG_PRIO = 32"

fun segment_loop :: "int \<Rightarrow> nat \<Rightarrow> SchedSegment list \<Rightarrow> int" where
  "segment_loop prio i [] = - 1"
| "segment_loop prio i (s # ss) =
    (if seg_minPrio s \<le> prio \<and> prio \<le> seg_maxPrio s then int i else segment_loop prio (Suc i) ss)"

definition SegmentIndex :: "int \<Rightarrow> int" where
  "SegmentIndex prio = segment_loop prio 0 KSCHED_SEGMENTS"

definition FindSegment :: "int \<Rightarrow> SchedSegment option" where
  "FindSegment prio = (let idx = SegmentIndex prio in if 0 \<le> idx then Some (KSCHED_SEGMENTS ! nat idx) else None)"

section \<open>Threads and the factory\<close>

text \<open>A thread's entry with its argument is a value of \<open>'f\<close>.\<close>

record 'f ThreadParams =
  tp_fn :: "'f option"
  tp_stackSize :: u64
  tp_schedPolicy :: int
  tp_schedPriority :: int
  tp_explicitSched :: bool
  tp_cpuAffinity :: int
  tp_detached :: bool
  tp_guardSize :: u64

definition default_params :: "'f ThreadParams" where
  "default_params = \<lparr>tp_fn = None, tp_stackSize = 0, tp_schedPolicy = - 1, tp_schedPriority = - 1, tp_explicitSched = True,
     tp_cpuAffinity = - 1, tp_detached = False, tp_guardSize = 0\<rparr>"

record ThreadInfo =
  ti_name :: string
  ti_segIndex :: int
  ti_prio :: int
  ti_schedPolicy :: int
  ti_cpuAffinity :: int
  ti_tid :: u64
  ti_state :: int

definition THREAD_STATE_IDLE :: int where "THREAD_STATE_IDLE = 0"
definition THREAD_STATE_RUNNING :: int where "THREAD_STATE_RUNNING = 1"

record 'f ThreadHandleImpl =
  thr_name :: string
  thr_segIndex :: int
  thr_prio :: int
  thr_schedPolicy :: int
  thr_cpuAffinity :: int
  thr_detached :: bool
  thr_fn :: "'f option"
  thr_tid :: u64
  thr_stop :: bool
  thr_state :: int

text \<open>
  A \<open>ThreadHandle\<close> is the address of its object: \<open>tf_heap\<close> holds the objects that are not deleted,
  \<open>tf_next\<close> is the next fresh address, \<open>tf_calls\<close> counts the calls of \<open>pthread_create\<close>.
\<close>

record 'f ThreadFactory =
  tf_domains :: "bool list"
  tf_registry :: "nat list"
  tf_heap :: "nat \<Rightarrow> 'f ThreadHandleImpl option"
  tf_next :: nat
  tf_calls :: nat

definition new_factory_t :: "'f ThreadFactory" where
  "new_factory_t = \<lparr>tf_domains = replicate SCHED_DOMAIN_COUNT False, tf_registry = [], tf_heap = Map.empty, tf_next = 0, tf_calls = 0\<rparr>"

record pthread_attr =
  at_stack :: "u64 option"
  at_sched :: "(int \<times> int \<times> bool) option"
  at_detached :: bool
  at_guard :: "u64 option"

type_synonym pthread_create = "nat \<Rightarrow> pthread_attr \<Rightarrow> int \<times> u64"

definition EPERM :: int where "EPERM = 1"

definition DeclareDomain :: "int \<Rightarrow> 'f ThreadFactory \<Rightarrow> bool \<times> 'f ThreadFactory" where
  "DeclareDomain prioLevel f = (let segIdx = SegmentIndex prioLevel in
     if segIdx < 0 then (False, f) else (True, f\<lparr>tf_domains := (tf_domains f)[nat segIdx := True]\<rparr>))"

text \<open>What a call asks for, with the defaults of the segment.\<close>

definition req_prio :: "int \<Rightarrow> 'f ThreadParams option \<Rightarrow> int" where
  "req_prio prioLevel params = (case params of Some p \<Rightarrow> if 0 \<le> tp_schedPriority p then tp_schedPriority p else prioLevel | None \<Rightarrow> prioLevel)"

definition req_policy :: "SchedSegment \<Rightarrow> 'f ThreadParams option \<Rightarrow> int" where
  "req_policy seg params = (case params of Some p \<Rightarrow> if 0 \<le> tp_schedPolicy p then tp_schedPolicy p else seg_schedPolicy seg
     | None \<Rightarrow> seg_schedPolicy seg)"

text \<open>
  The attributes of the first call, and those of the second one, which asks for no scheduling policy:
  \<open>at_sched\<close> is the policy, the priority and whether they are explicit.
\<close>

definition thread_attr :: "u64 \<Rightarrow> bool \<Rightarrow> 'f ThreadParams option \<Rightarrow> (int \<times> int) option \<Rightarrow> pthread_attr" where
  "thread_attr stack detached params sched =
    \<lparr>at_stack = (if 0 < stack then Some stack else None),
     at_sched = (case sched of None \<Rightarrow> None
       | Some (policy, prio) \<Rightarrow> Some (policy, prio, case params of Some p \<Rightarrow> tp_explicitSched p | None \<Rightarrow> True)),
     at_detached = detached,
     at_guard = (case params of Some p \<Rightarrow> if 0 < tp_guardSize p then Some (tp_guardSize p) else None | None \<Rightarrow> None)\<rparr>"

text \<open>The end of \<open>CreateThread\<close>: the last call's answer, the handle's state and its place in the registry.\<close>

definition enter_thread :: "int \<times> u64 \<Rightarrow> 'f ThreadHandleImpl \<Rightarrow> 'f ThreadFactory \<Rightarrow> nat option \<times> 'f ThreadFactory" where
  "enter_thread r h f = (if fst r \<noteq> 0 then (None, f)
     else (Some (tf_next f), f\<lparr>tf_heap := (tf_heap f)(tf_next f \<mapsto> h\<lparr>thr_tid := snd r, thr_state := THREAD_STATE_RUNNING\<rparr>),
       tf_next := Suc (tf_next f), tf_registry := tf_registry f @ [tf_next f]\<rparr>))"

text \<open>
  \<open>CreateThread\<close> from \<open>pthread_attr_init\<close> on: a call refused for lack of permission is an error in
  strict mode (\<open>DTS_STRICT_SCHED\<close>), and otherwise repeated without real-time scheduling.
\<close>

definition launch_thread :: "pthread_create \<Rightarrow> bool \<Rightarrow> u64 \<Rightarrow> 'f ThreadParams option \<Rightarrow> 'f ThreadHandleImpl \<Rightarrow>
    'f ThreadFactory \<Rightarrow> nat option \<times> 'f ThreadFactory" where
  "launch_thread os strict stack params h f =
    (let policy = thr_schedPolicy h;
         r = os (tf_calls f) (thread_attr stack (thr_detached h) params
               (if policy \<noteq> SCHED_OTHER then Some (policy, thr_prio h) else None));
         f1 = f\<lparr>tf_calls := Suc (tf_calls f)\<rparr>
     in if fst r = EPERM \<and> policy \<noteq> SCHED_OTHER
        then if strict then (None, f1)
             else enter_thread (os (tf_calls f1) (thread_attr stack (thr_detached h) params None))
                    (h\<lparr>thr_schedPolicy := SCHED_OTHER, thr_prio := 0\<rparr>) (f1\<lparr>tf_calls := Suc (tf_calls f1)\<rparr>)
        else enter_thread r h f1)"

definition CreateThread :: "pthread_create \<Rightarrow> bool \<Rightarrow> string \<Rightarrow> int \<Rightarrow> 'f option \<Rightarrow> u64 \<Rightarrow> int \<Rightarrow> 'f ThreadParams option \<Rightarrow>
    'f ThreadFactory \<Rightarrow> nat option \<times> 'f ThreadFactory" where
  "CreateThread os strict name prioLevel fn stackBytes cpuAffinity params f =
    (let segIdx = SegmentIndex prioLevel in
     if segIdx < 0 then (None, f)
     else if \<not> tf_domains f ! nat segIdx then (None, f)
     else let seg = KSCHED_SEGMENTS ! nat segIdx;
          prio = req_prio prioLevel params;
          stack = (case params of Some p \<Rightarrow> tp_stackSize p | None \<Rightarrow> stackBytes)
     in if prio < seg_minPrio seg \<or> seg_maxPrio seg < prio then (None, f)
     else launch_thread os strict stack params
       \<lparr>thr_name = name, thr_segIndex = segIdx, thr_prio = prio, thr_schedPolicy = req_policy seg params,
        thr_cpuAffinity = (case params of Some p \<Rightarrow> tp_cpuAffinity p | None \<Rightarrow> cpuAffinity),
        thr_detached = (case params of Some p \<Rightarrow> tp_detached p | None \<Rightarrow> False),
        thr_fn = (case params of Some p \<Rightarrow> tp_fn p | None \<Rightarrow> fn), thr_tid = 0, thr_stop = False, thr_state = THREAD_STATE_IDLE\<rparr> f)"

text \<open>The two overloads of \<open>thread_api.cpp\<close>.\<close>

definition CreateThread_fn :: "pthread_create \<Rightarrow> bool \<Rightarrow> string \<Rightarrow> int \<Rightarrow> 'f option \<Rightarrow> 'f ThreadFactory \<Rightarrow> nat option \<times> 'f ThreadFactory" where
  "CreateThread_fn os strict name prioLevel fn f = CreateThread os strict name prioLevel fn 0 (- 1) None f"

definition CreateThread_params :: "pthread_create \<Rightarrow> bool \<Rightarrow> string \<Rightarrow> int \<Rightarrow> 'f ThreadParams \<Rightarrow> 'f ThreadFactory \<Rightarrow>
    nat option \<times> 'f ThreadFactory" where
  "CreateThread_params os strict name prioLevel params f = CreateThread os strict name prioLevel None 0 (- 1) (Some params) f"

text \<open>
  \<open>DestroyThread\<close> up to the join, and from the join on; \<open>None\<close> is an access to a deleted object. Between
  the two parts a thread that is not detached runs to its end.
\<close>

definition destroy_mark :: "nat \<Rightarrow> 'f ThreadFactory \<Rightarrow> 'f ThreadFactory option" where
  "destroy_mark a f = (case tf_heap f a of None \<Rightarrow> None
     | Some i \<Rightarrow> Some (f\<lparr>tf_registry := remove1 a (tf_registry f), tf_heap := (tf_heap f)(a \<mapsto> i\<lparr>thr_stop := True\<rparr>)\<rparr>))"

definition destroy_free :: "nat \<Rightarrow> 'f ThreadFactory \<Rightarrow> 'f ThreadFactory option" where
  "destroy_free a f = (if tf_heap f a = None then None else Some (f\<lparr>tf_heap := (tf_heap f)(a := None)\<rparr>))"

definition DestroyThread :: "nat option \<Rightarrow> 'f ThreadFactory \<Rightarrow> 'f ThreadFactory option" where
  "DestroyThread h f = (case h of None \<Rightarrow> Some f
     | Some a \<Rightarrow> (case destroy_mark a f of None \<Rightarrow> None | Some f1 \<Rightarrow> destroy_free a f1))"

text \<open>\<open>Entry\<close> of a thread without a function: one look at the stop flag.\<close>

definition entry_poll :: "nat \<Rightarrow> 'f ThreadFactory \<Rightarrow> bool option" where
  "entry_poll a f = map_option thr_stop (tf_heap f a)"

definition thread_info :: "'f ThreadHandleImpl \<Rightarrow> ThreadInfo" where
  "thread_info h = \<lparr>ti_name = thr_name h, ti_segIndex = thr_segIndex h, ti_prio = thr_prio h, ti_schedPolicy = thr_schedPolicy h,
     ti_cpuAffinity = thr_cpuAffinity h, ti_tid = thr_tid h, ti_state = thr_state h\<rparr>"

definition QueryThreads :: "nat \<Rightarrow> 'f ThreadFactory \<Rightarrow> ThreadInfo list" where
  "QueryThreads cap f = map (\<lambda>a. thread_info (the (tf_heap f a))) (take cap (tf_registry f))"

section \<open>The dump\<close>

text \<open>The formatting library replaces the pairs of braces of the text by the arguments, in order; more
  arguments than pairs are ignored.\<close>

fun fmt_text :: "string \<Rightarrow> string list \<Rightarrow> string" where
  "fmt_text [] as = []"
| "fmt_text (c # cs) as =
    (if c = CHR ''{'' \<and> take 1 cs = ''}'' \<and> as \<noteq> [] then hd as @ fmt_text (drop 1 cs) (tl as) else c # fmt_text cs as)"

definition dump_line :: "'f ThreadHandleImpl \<Rightarrow> string" where
  "dump_line h = fmt_text ''[detsched] %-16s domain=%-6s prio=%3d policy={} cpu=%3d tid={}''
     [thr_name h, seg_name (KSCHED_SEGMENTS ! nat (thr_segIndex h)), int_string (thr_prio h), int_string (thr_schedPolicy h),
      int_string (thr_cpuAffinity h), dec_string (unat (thr_tid h))]"

definition DumpThreadInfo :: "'f ThreadFactory \<Rightarrow> string list" where
  "DumpThreadInfo f =
    [fmt_text ''[detsched] --- thread info ({}) ---'' [dec_string (length (tf_registry f))]] @
    map (\<lambda>a. dump_line (the (tf_heap f a))) (tf_registry f) @ [''[detsched] -----------------------'']"

lemma dump_line_text:
  "dump_line h = ''[detsched] %-16s domain=%-6s prio=%3d policy='' @ thr_name h @ '' cpu=%3d tid='' @
     seg_name (KSCHED_SEGMENTS ! nat (thr_segIndex h))"
  by (simp add: dump_line_def)

section \<open>The registry\<close>

text \<open>A live thread has a declared segment and runs at a priority of it, or without real-time scheduling
  at priority 0.\<close>

definition thread_ok :: "bool list \<Rightarrow> 'f ThreadHandleImpl \<Rightarrow> bool" where
  "thread_ok ds h \<longleftrightarrow> 0 \<le> thr_segIndex h \<and> thr_segIndex h < int SCHED_DOMAIN_COUNT \<and> ds ! nat (thr_segIndex h) \<and>
     thr_state h = THREAD_STATE_RUNNING \<and> \<not> thr_stop h \<and>
     (let seg = KSCHED_SEGMENTS ! nat (thr_segIndex h) in
       seg_minPrio seg \<le> thr_prio h \<and> thr_prio h \<le> seg_maxPrio seg \<or> thr_schedPolicy h = SCHED_OTHER \<and> thr_prio h = 0)"

definition factory_ok :: "'f ThreadFactory \<Rightarrow> bool" where
  "factory_ok f \<longleftrightarrow> length (tf_domains f) = SCHED_DOMAIN_COUNT \<and> distinct (tf_registry f) \<and>
     set (tf_registry f) = dom (tf_heap f) \<and>
     (\<forall>a h. tf_heap f a = Some h \<longrightarrow> a < tf_next f \<and> thread_ok (tf_domains f) h)"

lemma segment_loop_bounds:
  "segment_loop p i ss = - 1 \<or> int i \<le> segment_loop p i ss \<and> segment_loop p i ss < int (i + length ss) \<and>
     (let s = ss ! (nat (segment_loop p i ss) - i) in seg_minPrio s \<le> p \<and> p \<le> seg_maxPrio s)"
proof (induction ss arbitrary: i)
  case (Cons s ss)
  show ?case
  proof (cases "seg_minPrio s \<le> p \<and> p \<le> seg_maxPrio s")
    case False
    then have l: "segment_loop p i (s # ss) = segment_loop p (Suc i) ss" by (simp only: segment_loop.simps if_False)
    show ?thesis
    proof (cases "segment_loop p (Suc i) ss = - 1")
      case True then show ?thesis unfolding l by simp
    next
      case other: False
      with Cons.IH [of "Suc i"] have b: "int (Suc i) \<le> segment_loop p (Suc i) ss" by blast
      then have "(s # ss) ! (nat (segment_loop p (Suc i) ss) - i) = ss ! (nat (segment_loop p (Suc i) ss) - Suc i)"
        by (simp add: nth_Cons' Suc_diff_Suc)
      with Cons.IH [of "Suc i"] other b show ?thesis unfolding l by (simp add: Let_def)
    qed
  qed simp
qed simp

lemma SegmentIndex_bounds:
  assumes "\<not> SegmentIndex p < 0"
  shows "nat (SegmentIndex p) < SCHED_DOMAIN_COUNT"
    "seg_minPrio (KSCHED_SEGMENTS ! nat (SegmentIndex p)) \<le> p" "p \<le> seg_maxPrio (KSCHED_SEGMENTS ! nat (SegmentIndex p))"
proof -
  have "length KSCHED_SEGMENTS = SCHED_DOMAIN_COUNT" by (simp add: KSCHED_SEGMENTS_def SCHED_DOMAIN_COUNT_def)
  then have b: "SegmentIndex p < int SCHED_DOMAIN_COUNT \<and> (let s = KSCHED_SEGMENTS ! nat (SegmentIndex p) in seg_minPrio s \<le> p \<and> p \<le> seg_maxPrio s)"
    using segment_loop_bounds [of p 0 KSCHED_SEGMENTS] assms by (auto simp: SegmentIndex_def Let_def)
  then show "nat (SegmentIndex p) < SCHED_DOMAIN_COUNT" using assms by linarith
  show "seg_minPrio (KSCHED_SEGMENTS ! nat (SegmentIndex p)) \<le> p" "p \<le> seg_maxPrio (KSCHED_SEGMENTS ! nat (SegmentIndex p))"
    using b by (simp_all add: Let_def)
qed

lemma new_factory_ok: "factory_ok new_factory_t"
  by (simp add: factory_ok_def new_factory_t_def)

lemma thread_ok_declare: "thread_ok ds h \<Longrightarrow> thread_ok (ds[i := True]) h"
  by (cases "nat (thr_segIndex h) = i"; cases "i < length ds") (simp_all add: thread_ok_def list_update_beyond)

lemma DeclareDomain_ok: "factory_ok f \<Longrightarrow> factory_ok (snd (DeclareDomain p f))"
  by (auto simp: factory_ok_def DeclareDomain_def Let_def thread_ok_declare)

lemma enter_thread_ok:
  assumes "factory_ok f" "thread_ok (tf_domains f) (h\<lparr>thr_state := THREAD_STATE_RUNNING\<rparr>)"
  shows "factory_ok (snd (enter_thread r h f))"
proof -
  have "tf_next f \<notin> dom (tf_heap f)" using assms(1) by (auto simp: factory_ok_def)
  moreover have "thread_ok (tf_domains f) (h\<lparr>thr_tid := snd r, thr_state := THREAD_STATE_RUNNING\<rparr>)"
    using assms(2) by (simp add: thread_ok_def)
  ultimately show ?thesis using assms(1)
    by (auto simp: factory_ok_def enter_thread_def less_Suc_eq)
qed

text \<open>A thread that was made enters the registry in a sound state.\<close>

abbreviation enters :: "nat option \<times> 'f ThreadFactory \<Rightarrow> 'f ThreadFactory \<Rightarrow> bool" where
  "enters res f \<equiv> (\<exists>h n r. res = enter_thread r h (f\<lparr>tf_calls := n\<rparr>) \<and> thread_ok (tf_domains f) (h\<lparr>thr_state := THREAD_STATE_RUNNING\<rparr>))"

lemma launch_thread_cases:
  assumes "thread_ok (tf_domains f) (h\<lparr>thr_state := THREAD_STATE_RUNNING\<rparr>)"
  shows "(\<exists>n. launch_thread os strict stack params h f = (None, f\<lparr>tf_calls := n\<rparr>)) \<or> enters (launch_thread os strict stack params h f) f"
proof -
  have low: "thread_ok (tf_domains f) (h\<lparr>thr_schedPolicy := SCHED_OTHER, thr_prio := 0, thr_state := THREAD_STATE_RUNNING\<rparr>)"
    using assms by (simp add: thread_ok_def Let_def)
  consider "launch_thread os strict stack params h f = (None, f\<lparr>tf_calls := Suc (tf_calls f)\<rparr>)"
    | r where "launch_thread os strict stack params h f = enter_thread r h (f\<lparr>tf_calls := Suc (tf_calls f)\<rparr>)"
    | r where "launch_thread os strict stack params h f =
        enter_thread r (h\<lparr>thr_schedPolicy := SCHED_OTHER, thr_prio := 0\<rparr>) (f\<lparr>tf_calls := Suc (Suc (tf_calls f))\<rparr>)"
  proof (cases "fst (os (tf_calls f) (thread_attr stack (thr_detached h) params
      (if thr_schedPolicy h \<noteq> SCHED_OTHER then Some (thr_schedPolicy h, thr_prio h) else None))) = EPERM \<and> thr_schedPolicy h \<noteq> SCHED_OTHER")
    case True
    then have rt: "thr_schedPolicy h \<noteq> SCHED_OTHER" by blast
    with True have "fst (os (tf_calls f) (thread_attr stack (thr_detached h) params (Some (thr_schedPolicy h, thr_prio h)))) = EPERM"
      by simp
    note c = rt this
    show thesis
    proof (cases strict)
      case True
      with c show thesis by (intro that(1)) (simp add: launch_thread_def Let_def)
    next
      case False
      with c show thesis by (intro that(3)) (simp add: launch_thread_def Let_def)
    qed
  next
    case False
    show thesis by (rule that(2)) (simp only: launch_thread_def Let_def if_not_P [OF False])
  qed
  then show ?thesis
  proof cases
    case 1
    then show ?thesis by (intro disjI1 exI)
  next
    case (2 r)
    then show ?thesis using assms by (intro disjI2 exI conjI)
  next
    case (3 r)
    then show ?thesis using low by (intro disjI2 exI conjI)
  qed
qed

lemma CreateThread_cases:
  assumes "length (tf_domains f) = SCHED_DOMAIN_COUNT"
  shows "(\<exists>n. CreateThread os strict name p fn stack cpu params f = (None, f\<lparr>tf_calls := n\<rparr>)) \<or>
    enters (CreateThread os strict name p fn stack cpu params f) f"
proof -
  let ?i = "SegmentIndex p" and ?pr = "req_prio p params"
  let ?seg = "KSCHED_SEGMENTS ! nat ?i"
  consider (no) "CreateThread os strict name p fn stack cpu params f = (None, f\<lparr>tf_calls := tf_calls f\<rparr>)"
    | (yes) h st where "CreateThread os strict name p fn stack cpu params f = launch_thread os strict st params h f"
      "thread_ok (tf_domains f) (h\<lparr>thr_state := THREAD_STATE_RUNNING\<rparr>)"
  proof (cases "?i < 0 \<or> \<not> tf_domains f ! nat ?i \<or> ?pr < seg_minPrio ?seg \<or> seg_maxPrio ?seg < ?pr")
    case True
    then have "CreateThread os strict name p fn stack cpu params f = (None, f\<lparr>tf_calls := tf_calls f\<rparr>)"
      by (auto simp: CreateThread_def Let_def)
    then show thesis by (rule no)
  next
    case False
    let ?h = "\<lparr>thr_name = name, thr_segIndex = ?i, thr_prio = ?pr, thr_schedPolicy = req_policy ?seg params,
        thr_cpuAffinity = (case params of Some p \<Rightarrow> tp_cpuAffinity p | None \<Rightarrow> cpu),
        thr_detached = (case params of Some p \<Rightarrow> tp_detached p | None \<Rightarrow> False),
        thr_fn = (case params of Some p \<Rightarrow> tp_fn p | None \<Rightarrow> fn), thr_tid = 0, thr_stop = False, thr_state = THREAD_STATE_IDLE\<rparr>"
    have "thread_ok (tf_domains f) (?h\<lparr>thr_state := THREAD_STATE_RUNNING\<rparr>)"
      using False SegmentIndex_bounds(1) [of p] by (simp add: thread_ok_def Let_def)
    moreover have "CreateThread os strict name p fn stack cpu params f =
        launch_thread os strict (case params of Some p \<Rightarrow> tp_stackSize p | None \<Rightarrow> stack) params ?h f"
      using False by (simp add: CreateThread_def Let_def)
    ultimately show thesis by (intro yes)
  qed
  then show ?thesis
  proof cases
    case no
    then show ?thesis by blast
  next
    case (yes h st)
    show ?thesis unfolding yes(1) by (rule launch_thread_cases [OF yes(2)])
  qed
qed

lemma CreateThread_ok:
  assumes "factory_ok f"
  shows "factory_ok (snd (CreateThread os strict name p fn stack cpu params f))"
proof -
  have c: "factory_ok (f\<lparr>tf_calls := n\<rparr>)" and l: "length (tf_domains f) = SCHED_DOMAIN_COUNT" for n
    using assms by (simp_all add: factory_ok_def)
  show ?thesis using CreateThread_cases [OF l, of os strict name p fn stack cpu params]
  proof
    assume "enters (CreateThread os strict name p fn stack cpu params f) f"
    then obtain h n r where e: "CreateThread os strict name p fn stack cpu params f = enter_thread r h (f\<lparr>tf_calls := n\<rparr>)"
      and h: "thread_ok (tf_domains f) (h\<lparr>thr_state := THREAD_STATE_RUNNING\<rparr>)" by blast
    show ?thesis unfolding e by (rule enter_thread_ok [OF c]) (simp add: h)
  qed (use c in auto)
qed

lemma CreateThread_registry:
  assumes "factory_ok f" "CreateThread os strict name p fn stack cpu params f = (r, f')"
  shows "tf_registry f' = tf_registry f @ (case r of Some a \<Rightarrow> [a] | None \<Rightarrow> [])"
  using CreateThread_cases [of f os strict name p fn stack cpu params] assms
  by (auto simp: enter_thread_def factory_ok_def split: if_splits)

lemma DestroyThread_live:
  assumes "tf_heap f a = Some h"
  shows "DestroyThread (Some a) f = Some (f\<lparr>tf_registry := remove1 a (tf_registry f), tf_heap := (tf_heap f)(a := None)\<rparr>)"
  using assms by (simp add: DestroyThread_def destroy_mark_def destroy_free_def)

lemma DestroyThread_ok:
  assumes "factory_ok f" "DestroyThread h f = Some f'"
  shows "factory_ok f'"
proof (cases h)
  case None
  then show ?thesis using assms by (simp add: DestroyThread_def)
next
  case (Some a)
  then obtain i where "tf_heap f a = Some i" using assms(2)
    by (auto simp: DestroyThread_def destroy_mark_def split: option.splits)
  with assms Some have "f' = f\<lparr>tf_registry := remove1 a (tf_registry f), tf_heap := (tf_heap f)(a := None)\<rparr>"
    by (simp add: DestroyThread_live)
  then show ?thesis using assms(1) by (auto simp: factory_ok_def)
qed

text \<open>The process as the factory sees it: calls of the three operations, in any order. A handle is destroyed
  once (or is null); \<open>evs\<close> are the handles that \<open>CreateThread\<close> returned and that are not destroyed, oldest first.\<close>

inductive sched_run :: "pthread_create \<Rightarrow> bool \<Rightarrow> 'f ThreadFactory \<Rightarrow> nat list \<Rightarrow> bool" for os strict where
  fresh: "sched_run os strict new_factory_t []"
| declared: "sched_run os strict f hs \<Longrightarrow> sched_run os strict (snd (DeclareDomain p f)) hs"
| created: "sched_run os strict f hs \<Longrightarrow> CreateThread os strict name p fn stack cpu params f = (r, f') \<Longrightarrow>
    sched_run os strict f' (hs @ (case r of Some a \<Rightarrow> [a] | None \<Rightarrow> []))"
| destroyed: "sched_run os strict f hs \<Longrightarrow> a \<in> set hs \<Longrightarrow> DestroyThread (Some a) f = Some f' \<Longrightarrow>
    sched_run os strict f' (remove1 a hs)"

lemma sched_run_inv: "sched_run os strict f hs \<Longrightarrow> factory_ok f \<and> tf_registry f = hs"
proof (induction rule: sched_run.induct)
  case (created f hs name p fn stack cpu params r f')
  then show ?case using CreateThread_ok [of f os strict name p fn stack cpu params] CreateThread_registry [OF _ created.hyps(2)]
    by simp
next
  case (declared f hs p)
  then show ?case using DeclareDomain_ok [of f p] by (simp add: DeclareDomain_def Let_def)
next
  case (destroyed f hs a f')
  then show ?case using DestroyThread_ok [of f "Some a" f'] by (auto simp: factory_ok_def DestroyThread_live)
next
  case fresh
  then show ?case using new_factory_ok by (simp add: new_factory_t_def)
qed

text \<open>C31: The registry is the truth about the threads. However domains are declared and threads are created
  and destroyed, with any answers of the operating system: the threads listed by \<open>QueryThreads\<close> are those
  that were created and not destroyed, in the order of their creation and cut at the capacity of the
  caller's array; each runs in a domain that is declared, at a priority of that domain or without
  real-time scheduling at priority 0; and destroying a thread that was created once is never an access
  to a deleted object.\<close>

theorem Registry_lists_live_threads:
  assumes "sched_run os strict f hs"
  shows "QueryThreads cap f = map (\<lambda>a. thread_info (the (tf_heap f a))) (take cap hs) \<and> distinct hs \<and>
    (\<forall>a \<in> set hs. \<exists>h. tf_heap f a = Some h \<and> thread_ok (tf_domains f) h \<and> DestroyThread (Some a) f \<noteq> None)"
  using sched_run_inv [OF assms] DestroyThread_live [of f]
  by (fastforce simp: QueryThreads_def factory_ok_def)

definition root_os :: pthread_create where "root_os n attr = (0, of_nat n)"

text \<open>An operating system that grants no real-time scheduling.\<close>

definition plain_os :: pthread_create where
  "plain_os n attr = (if at_sched attr = None then (0, of_nat n) else (EPERM, 0))"

theorem Registry_lists_live_threads_witness:
  "\<exists>f :: unit ThreadFactory. sched_run plain_os False f [0] \<and> map ti_name (QueryThreads 64 f) = [''data''] \<and>
     map ti_prio (QueryThreads 64 f) = [0]"
proof -
  let ?f1 = "snd (DeclareDomain 34 new_factory_t) :: unit ThreadFactory"
  let ?r = "CreateThread plain_os False ''data'' 34 None 0 (- 1) None ?f1"
  have "sched_run plain_os False ?f1 []" by (rule sched_run.declared [OF sched_run.fresh])
  then have "sched_run plain_os False (snd ?r) ([] @ (case fst ?r of Some a \<Rightarrow> [a] | None \<Rightarrow> []))"
    by (rule sched_run.created) (rule prod.collapse [symmetric])
  moreover have "fst ?r = Some 0" by code_simp
  ultimately have run: "sched_run plain_os False (snd ?r) [0]" by simp
  let ?h = "\<lparr>thr_name = ''data'', thr_segIndex = 3, thr_prio = 0, thr_schedPolicy = 0, thr_cpuAffinity = - 1,
     thr_detached = False, thr_fn = None, thr_tid = 1, thr_stop = False, thr_state = 1\<rparr> :: unit ThreadHandleImpl"
  have "the (tf_heap (snd ?r) 0) = ?h" by code_simp
  then have "QueryThreads 64 (snd ?r) = [thread_info ?h]"
    using Registry_lists_live_threads [OF run, of 64] by simp
  with run show ?thesis by (intro exI [of _ "snd ?r"]) (simp add: thread_info_def)
qed

text \<open>What becomes of a thread without a function while its handle is destroyed: a joinable one sees the
  request before the object goes, a detached one may look at the object when it is gone.\<close>

lemma idle_thread_sees_stop:
  "destroy_mark a f = Some f1 \<Longrightarrow> entry_poll a f1 = Some True"
  by (auto simp: destroy_mark_def entry_poll_def split: option.splits)

lemma detached_idle_reads_freed:
  "DestroyThread (Some a) f = Some f' \<Longrightarrow> entry_poll a f' = None"
  by (auto simp: DestroyThread_def destroy_mark_def destroy_free_def entry_poll_def split: option.splits if_splits)

end
