(* ===== verification/Control.thy ===== *)
theory Control
  imports Prelude_Text Interfaces Log_Sink Routing Detsched
begin

text \<open>
  The control plane: the command registry and executor (\<open>infrastructure/src/ctl.cpp\<close>) and the two
  ways to it, the console's socket sessions and the remote command channel
  (\<open>infrastructure/src/console.cpp\<close>). The console is a step relation over the queue, the jobs, the
  control thread and the sessions; a command's effect on the process is the argument \<open>run\<close>, which
  \<open>Bootstrap\<close> fills with the registered functions. Thread creation and sockets are left out, the
  bytes that arrive on a connection are given as the chunks that \<open>recv\<close> returns.
\<close>

section \<open>Commands\<close>

text \<open>The functions that are ever registered, by name.\<close>

datatype cmd_fn = CmdHelp_fn | CmdGetThreads_fn | CmdSetLogLevel_fn | CmdGetHandlers_fn | CmdGetDataStats_fn | CmdSetDataBudget_fn

record Command =
  cd_name :: cstr
  cd_usage :: cstr
  cd_fn :: "cmd_fn option"

text \<open>\<open>strcmp\<close> of the stored name with a given one.\<close>

definition same_name :: "cstr \<Rightarrow> string \<Rightarrow> bool" where
  "same_name n k \<longleftrightarrow> map_option c_str n = Some (c_str k)"

definition Register_cmd :: "Command \<Rightarrow> Command list \<Rightarrow> int \<times> Command list" where
  "Register_cmd cmd m = (case cd_name cmd of
     None \<Rightarrow> (- 1, m)
   | Some n \<Rightarrow>
      if cd_fn cmd = None then (- 1, m)
      else if \<exists>c \<in> set m. same_name (cd_name c) n then (- 1, m)
      else (0, m @ [cmd]))"

definition Find_cmd :: "string \<Rightarrow> Command list \<Rightarrow> Command option" where
  "Find_cmd name m = find (\<lambda>c. same_name (cd_name c) name) m"

definition ForEach_cmd :: "(Command \<Rightarrow> 's \<Rightarrow> 's) \<Rightarrow> Command list \<Rightarrow> 's \<Rightarrow> 's" where
  "ForEach_cmd fn m s = fold fn m s"

definition SplitLine :: "string \<Rightarrow> string list" where
  "SplitLine line = tokens line"

definition trim_char :: "char \<Rightarrow> bool" where
  "trim_char c \<longleftrightarrow> c \<in> {CHR '' '', CHR 0x09, CHR 0x0D, CHR 0x0A}"

definition Trim :: "string \<Rightarrow> string" where
  "Trim s = strip trim_char s"

definition newline :: string where "newline = [CHR 0x0A]"

text \<open>What an optional C string adds to a \<open>std::string\<close>.\<close>

definition cstr_text :: "cstr \<Rightarrow> string" where
  "cstr_text s = (case s of None \<Rightarrow> [] | Some x \<Rightarrow> c_str x)"

definition CmdHelp :: "Command list \<Rightarrow> string \<Rightarrow> int \<times> string" where
  "CmdHelp m out = (0, ForEach_cmd (\<lambda>cmd o1. o1 @ cstr_text (cd_name cmd) @ ''  '' @ cstr_text (cd_usage cmd) @ newline) m out)"

definition thread_line :: "ThreadInfo \<Rightarrow> string" where
  "thread_line i = ti_name i @ ''  seg='' @ int_string (ti_segIndex i) @ '' prio='' @ int_string (ti_prio i) @
     '' policy='' @ int_string (ti_schedPolicy i) @ '' cpu='' @ int_string (ti_cpuAffinity i) @
     '' tid='' @ dec_string (unat (ti_tid i)) @ newline"

definition CmdGetThreads :: "'f ThreadFactory \<Rightarrow> string \<Rightarrow> int \<times> string" where
  "CmdGetThreads f out = (0, out @ concat (map thread_line (QueryThreads 64 f)))"

definition level_of_name :: "string \<Rightarrow> Level option" where
  "level_of_name lvl = (if lvl = ''trace'' then Some TRACE else if lvl = ''debug'' then Some DEBUG
     else if lvl = ''info'' then Some INFO else if lvl = ''warn'' then Some WARN
     else if lvl = ''error'' then Some ERROR else None)"

definition CmdSetLogLevel :: "string list \<Rightarrow> string \<Rightarrow> log_state \<Rightarrow> int \<times> string \<times> log_state" where
  "CmdSetLogLevel args out w = (case args of
     [] \<Rightarrow> (1, ''usage: set_log_level <trace|debug|info|warn|error>'', w)
   | lvl # _ \<Rightarrow>
      (case level_of_name lvl of
         None \<Rightarrow> (1, ''invalid level: '' @ lvl @ '' (trace|debug|info|warn|error)'', w)
       | Some l \<Rightarrow> (0, ''log level -> '' @ lvl, SetLevel l w)))"

text \<open>
  \<open>Execute\<close>; \<open>None\<close> is undefined behaviour, \<open>tokens[0]\<close> of an empty vector or a call through a null
  function pointer.
\<close>

definition Execute :: "(cmd_fn \<Rightarrow> string list \<Rightarrow> string \<Rightarrow> 'w \<Rightarrow> int \<times> string \<times> 'w) \<Rightarrow> Command list \<Rightarrow>
    string \<Rightarrow> string \<Rightarrow> 'w \<Rightarrow> (int \<times> string \<times> 'w) option" where
  "Execute run m line out w =
    (let trimmed = Trim line in
     if trimmed = [] then Some (0, out, w)
     else (case SplitLine trimmed of
        [] \<Rightarrow> None
      | t # args \<Rightarrow>
         (case Find_cmd (c_str t) m of
            None \<Rightarrow> Some (1, ''not found: '' @ t, w)
          | Some cmd \<Rightarrow> (case cd_fn cmd of None \<Rightarrow> None | Some fn \<Rightarrow> Some (run fn args out w)))))"

definition builtin_commands :: "Command list" where
  "builtin_commands =
    [\<lparr>cd_name = Some ''help'', cd_usage = Some ([CHR 0xE5, CHR 0x88, CHR 0x97, CHR 0xE5, CHR 0x85, CHR 0xA8, CHR 0xE9, CHR 0x83, CHR 0xA8, CHR 0xE5, CHR 0x91, CHR 0xBD, CHR 0xE4, CHR 0xBB, CHR 0xA4]), cd_fn = Some CmdHelp_fn\<rparr>,
     \<lparr>cd_name = Some ''get_threads'', cd_usage = Some ([CHR 0xE5, CHR 0x85, CHR 0xA8, CHR 0xE8, CHR 0xBF, CHR 0x9B, CHR 0xE7, CHR 0xA8, CHR 0x8B, CHR 0xE7, CHR 0xBA, CHR 0xBF, CHR 0xE7, CHR 0xA8, CHR 0x8B, CHR 0xE6, CHR 0xB3, CHR 0xA8, CHR 0xE5, CHR 0x86, CHR 0x8C, CHR 0xE8, CHR 0xA1, CHR 0xA8]), cd_fn = Some CmdGetThreads_fn\<rparr>,
     \<lparr>cd_name = Some ''set_log_level'', cd_usage = Some ''set_log_level <trace|debug|info|warn|error>'', cd_fn = Some CmdSetLogLevel_fn\<rparr>]"

text \<open>\<open>RegisterBuiltins\<close>; the flag is its static variable.\<close>

definition RegisterBuiltins :: "bool \<times> Command list \<Rightarrow> bool \<times> Command list" where
  "RegisterBuiltins s = (if fst s then s else (True, fold (\<lambda>c m. snd (Register_cmd c m)) builtin_commands (snd s)))"

section \<open>The registry as an interface\<close>

text \<open>A valid command as (name, usage, function).\<close>

type_synonym command_entry = "string \<times> cstr \<times> cmd_fn"

definition mk_command :: "command_entry \<Rightarrow> Command" where
  "mk_command e = \<lparr>cd_name = Some (fst e), cd_usage = fst (snd e), cd_fn = Some (snd (snd e))\<rparr>"

definition entry_of :: "Command \<Rightarrow> command_entry" where
  "entry_of c = ((case cd_name c of Some n \<Rightarrow> n | None \<Rightarrow> []), cd_usage c, (case cd_fn c of Some f \<Rightarrow> f | None \<Rightarrow> CmdHelp_fn))"

definition lookup_cmd :: "Command list \<Rightarrow> string \<Rightarrow> command_entry option" where
  "lookup_cmd m k = map_option entry_of (find (\<lambda>c. map_option c_str (cd_name c) = Some k) m)"

definition add_cmd :: "command_entry \<Rightarrow> Command list \<Rightarrow> Command list option" where
  "add_cmd e m = (if fst (Register_cmd (mk_command e) m) = 0 then Some (snd (Register_cmd (mk_command e) m)) else None)"

lemma find_append: "find P (xs @ ys) = (case find P xs of Some x \<Rightarrow> Some x | None \<Rightarrow> find P ys)"
  by (induction xs) auto

lemma Register_mk: "Register_cmd (mk_command e) m =
    (if \<exists>c \<in> set m. same_name (cd_name c) (fst e) then (- 1, m) else (0, m @ [mk_command e]))"
  by (simp add: Register_cmd_def mk_command_def)

lemma lookup_cmd_None: "lookup_cmd m k = None \<longleftrightarrow> (\<forall>c \<in> set m. map_option c_str (cd_name c) \<noteq> Some k)"
  by (auto simp: lookup_cmd_def find_None_iff)

interpretation command_registry: open_registry lookup_cmd "\<lambda>e. c_str (fst e)" add_cmd
proof
  fix s v
  show "add_cmd v s = None" if "lookup_cmd s (c_str (fst v)) \<noteq> None"
  proof -
    have "\<exists>c \<in> set s. same_name (cd_name c) (fst v)" using that by (auto simp: lookup_cmd_None same_name_def)
    then show ?thesis by (simp add: add_cmd_def Register_mk)
  qed
  show "\<exists>s'. add_cmd v s = Some s'" if "lookup_cmd s (c_str (fst v)) = None"
    using that by (simp add: add_cmd_def Register_mk lookup_cmd_None same_name_def)
next
  fix v s s'
  assume "add_cmd v s = Some s'"
  then have n: "\<forall>c \<in> set s. map_option c_str (cd_name c) \<noteq> Some (c_str (fst v))" and s': "s' = s @ [mk_command v]"
    by (auto simp: add_cmd_def Register_mk same_name_def split: if_splits)
  have e: "entry_of (mk_command v) = v" by (simp add: entry_of_def mk_command_def)
  have "lookup_cmd s (c_str (fst v)) = None" using n by (simp add: lookup_cmd_None)
  then show "lookup_cmd s' = (lookup_cmd s)(c_str (fst v) \<mapsto> v)"
    unfolding s' by (auto simp: fun_eq_iff lookup_cmd_def find_append mk_command_def [of v] e [unfolded mk_command_def] split: option.splits)
qed

text \<open>Registering a list of valid commands is adding their entries.\<close>

lemma Register_all:
  "fold (\<lambda>c m. snd (Register_cmd c m)) (map mk_command es) m = add_all add_cmd es m"
  by (induction es arbitrary: m) (simp_all add: add_cmd_def Register_mk)

section \<open>What Execute does\<close>

lemma trim_char_space: "trim_char c \<Longrightarrow> is_space c"
  by (auto simp: trim_char_def is_space_def)

lemma tokens_dropWhile: "(\<And>c. ws c \<Longrightarrow> is_space c) \<Longrightarrow> tokens (dropWhile ws s) = tokens s"
proof (induction s)
  case (Cons c cs)
  show ?case
  proof (cases "ws c")
    case True
    have "tokens (c # cs) = tokens cs" using Cons.prems [OF True] by (subst (1 2) tokens.simps) simp
    with Cons True show ?thesis by simp
  qed simp
qed simp

lemma tokens_all_white: "\<forall>c \<in> set t. is_space c \<Longrightarrow> tokens t = []"
  using tokens_all_space by blast

lemma tokens_Nil [simp]: "tokens [] = []"
  by (rule tokens_all_white) simp

lemma tokens_append_white: "\<forall>c \<in> set t. is_space c \<Longrightarrow> tokens (s @ t) = tokens s"
proof (induction s rule: tokens.induct)
  case (1 s)
  let ?s1 = "dropWhile is_space s"
  show ?case
  proof (cases "?s1 = []")
    case True
    then have "\<forall>c \<in> set (s @ t). is_space c" using 1(2) by auto
    then show ?thesis using True tokens_all_space [of s] tokens_all_white [of "s @ t"] by auto
  next
    case False
    then have d: "dropWhile is_space (s @ t) = ?s1 @ t"
      by (metis dropWhile_append dropWhile_eq_Nil_conv dropWhile_append1)
    have ih: "tokens (dropWhile (\<lambda>c. \<not> is_space c) ?s1 @ t) = tokens (dropWhile (\<lambda>c. \<not> is_space c) ?s1)"
      by (rule 1(1) [OF refl False 1(2)])
    have tw: "takeWhile (\<lambda>c. \<not> is_space c) (?s1 @ t) = takeWhile (\<lambda>c. \<not> is_space c) ?s1"
    proof (cases "\<exists>c \<in> set ?s1. is_space c")
      case True
      then show ?thesis by (auto simp: takeWhile_append1)
    next
      case no: False
      have "takeWhile (\<lambda>c. \<not> is_space c) t = []" using 1(2) by (cases t) auto
      moreover have "takeWhile (\<lambda>c. \<not> is_space c) ?s1 = ?s1" using no by (simp add: takeWhile_eq_all_conv)
      moreover have "takeWhile (\<lambda>c. \<not> is_space c) (?s1 @ t) = ?s1 @ takeWhile (\<lambda>c. \<not> is_space c) t"
        using no by (intro takeWhile_append2) blast
      ultimately show ?thesis by (simp only: append_Nil2)
    qed
    have "tokens (dropWhile (\<lambda>c. \<not> is_space c) (?s1 @ t)) = tokens (dropWhile (\<lambda>c. \<not> is_space c) ?s1)"
    proof (cases "\<exists>c \<in> set ?s1. is_space c")
      case True
      then have "dropWhile (\<lambda>c. \<not> is_space c) (?s1 @ t) = dropWhile (\<lambda>c. \<not> is_space c) ?s1 @ t"
        by (auto simp: dropWhile_append1)
      with ih show ?thesis by simp
    next
      case no: False
      then have n1: "dropWhile (\<lambda>c. \<not> is_space c) ?s1 = []" by simp
      have "dropWhile (\<lambda>c. \<not> is_space c) (?s1 @ t) = dropWhile (\<lambda>c. \<not> is_space c) t" using no by (simp add: dropWhile_append2)
      moreover have "dropWhile (\<lambda>c. \<not> is_space c) t = t" using 1(2) by (cases t) auto
      ultimately show ?thesis by (simp only: n1 tokens_all_white [OF 1(2)] tokens_Nil)
    qed
    with tw False d show ?thesis by (subst (1 2) tokens.simps) (simp add: Let_def)
  qed
qed

lemma tokens_strip:
  assumes "\<And>c. ws c \<Longrightarrow> is_space c"
  shows "tokens (strip ws s) = tokens s"
proof -
  let ?d = "dropWhile ws s"
  have "?d = strip ws s @ rev (takeWhile ws (rev ?d))"
    unfolding strip_def by (metis rev_append rev_rev_ident takeWhile_dropWhile_id)
  moreover have "\<forall>c \<in> set (rev (takeWhile ws (rev ?d))). is_space c" using assms by (auto dest: set_takeWhileD)
  ultimately have "tokens ?d = tokens (strip ws s)" using tokens_append_white by metis
  then show ?thesis using tokens_dropWhile [of ws s] assms by simp
qed

lemma strip_Nil: "strip ws s = [] \<longleftrightarrow> (\<forall>c \<in> set s. ws c)"
proof
  assume "strip ws s = []"
  then have "\<forall>c \<in> set (dropWhile ws s). ws c" unfolding strip_def by simp
  then have "dropWhile ws s = []" using hd_dropWhile [of ws s] by (cases "dropWhile ws s") auto
  then show "\<forall>c \<in> set s. ws c" by simp
next
  assume "\<forall>c \<in> set s. ws c"
  then have "dropWhile ws s = []" by simp
  then show "strip ws s = []" by (simp only: strip_def rev.simps dropWhile.simps)
qed

lemma Execute_tokens:
  "Execute run m line out w =
    (case tokens line of
       [] \<Rightarrow> if \<forall>c \<in> set line. trim_char c then Some (0, out, w) else None
     | t # args \<Rightarrow> (case Find_cmd (c_str t) m of
          None \<Rightarrow> Some (1, ''not found: '' @ t, w)
        | Some cmd \<Rightarrow> map_option (\<lambda>fn. run fn args out w) (cd_fn cmd)))"
proof -
  have t: "tokens (Trim line) = tokens line"
    unfolding Trim_def using trim_char_space by (rule tokens_strip)
  show ?thesis
  proof (cases "Trim line = []")
    case True
    then have "\<forall>c \<in> set line. trim_char c" by (simp add: Trim_def strip_Nil)
    moreover have "tokens line = []" using t True by (simp add: tokens.simps [of "[]"])
    ultimately show ?thesis using True by (simp add: Execute_def)
  next
    case False
    then have "\<not> (\<forall>c \<in> set line. trim_char c)" by (simp add: Trim_def strip_Nil)
    with False t show ?thesis by (auto simp: Execute_def SplitLine_def Let_def split: list.split option.split)
  qed
qed

text \<open>C37: \<open>Execute\<close> on any line. A line of blanks, tabs, carriage returns and newlines is ignored; a
  line of white space with a vertical tab or form feed is undefined behaviour (the trimmed line
  is not empty but has no token); any other line runs the first command registered under its
  first word with the other words as arguments, or answers that the word is not found.\<close>

theorem Execute_any_line:
  "Execute run m line out w =
    (case tokens line of
       [] \<Rightarrow> if \<forall>c \<in> set line. trim_char c then Some (0, out, w) else None
     | t # args \<Rightarrow> (case Find_cmd (c_str t) m of
          None \<Rightarrow> Some (1, ''not found: '' @ t, w)
        | Some cmd \<Rightarrow> map_option (\<lambda>fn. run fn args out w) (cd_fn cmd)))"
  by (rule Execute_tokens)

theorem Execute_any_line_witness:
  "Execute (\<lambda>_ _ o1 w. (0, o1, w)) [] ''foo bar'' [] () = Some (1, ''not found: foo'', ()) \<and>
   Execute (\<lambda>_ _ o1 w. (0, o1, w)) [] [CHR '' '', CHR 0x0B] [] () = None \<and>
   Execute (\<lambda>_ _ o1 w. (0, o1, w)) [] '' '' [] () = Some (0, [], ())"
proof -
  have t: "tokens ''foo bar'' = [''foo'', ''bar'']" "tokens [CHR '' '', CHR 0x0B] = []" "tokens '' '' = []"
    by code_simp+
  show ?thesis unfolding Execute_any_line t by (simp add: Find_cmd_def trim_char_def)
qed

end
