(* ===== verification/Console.thy ===== *)
theory Console
  imports Control Detmw
begin

text \<open>
  The console and control threads (\<open>infrastructure/src/console.cpp\<close>): sessions read lines from their
  connection and queue jobs, the remote channel queues jobs too, and the control thread takes
  them one after another, executes them and answers. The operations are functions on one state;
  the interleavings of the threads are the step relation \<open>cstep\<close>. The execution of a line is the
  argument \<open>ex\<close>, in the program \<open>control_exec\<close>, that is \<open>Execute\<close> from an empty output. Of \<open>console_stop\<close>
  the flag is modelled here; the listening socket, its file and the handles of the sessions are in
  \<open>Console_Socket\<close>. The shut-down of the sessions' connections, which ends a blocked \<open>recv\<close>, is left out.
\<close>

section \<open>Reading lines\<close>

definition kMaxLineLen :: nat where "kMaxLineLen = 4096"

text \<open>
  \<open>ReadLine\<close> over the chunks that \<open>recv\<close> returns; an empty chunk or the end of the list is \<open>n <= 0\<close>.
  The results: the return value, \<open>line\<close>, \<open>overflow\<close>, and the chunks not received.
\<close>

fun ReadLine :: "string list \<Rightarrow> string \<Rightarrow> bool \<Rightarrow> bool \<times> string \<times> bool \<times> string list" where
  "ReadLine [] line overflow = ((if overflow then False else line \<noteq> []), line, overflow, [])"
| "ReadLine (buf # bufs) line overflow =
    (if buf = [] then ((if overflow then False else line \<noteq> []), line, overflow, bufs)
     else let line1 = line @ buf in
      (case find_sub newline line1 of
         Some nl \<Rightarrow> if overflow then (False, line1, overflow, bufs) else (True, take nl line1, overflow, bufs)
       | None \<Rightarrow> if length line1 > kMaxLineLen then ReadLine bufs [] True else ReadLine bufs line1 overflow))"

lemma ReadLine_overflow: "ReadLine bufs line True = (ok, l, ov, rest) \<Longrightarrow> \<not> ok"
  by (induction bufs line True rule: ReadLine.induct) (auto simp: Let_def split: if_splits option.splits)

lemma find_newline_Some:
  assumes "find_sub newline (line @ buf) = Some nl" "CHR 0x0A \<notin> set line"
  shows "CHR 0x0A \<notin> set (take nl (line @ buf)) \<and> length line \<le> nl \<and> nl < length (line @ buf) \<and>
    line @ buf = take nl (line @ buf) @ newline @ drop (nl + 1) (line @ buf)"
proof -
  have "CHR 0x0A \<in> set (line @ buf)" using assms(1) by (simp add: newline_def find_char split: if_splits)
  then obtain ys zs where s: "line @ buf = ys @ CHR 0x0A # zs" "CHR 0x0A \<notin> set ys" by (meson split_list_first)
  then have nl: "nl = length ys" using assms(1) find_char_Some [OF s(2), of zs] by (simp add: newline_def)
  have "length line \<le> nl"
  proof (rule ccontr)
    assume "\<not> length line \<le> nl"
    then have "(line @ buf) ! nl = line ! nl" "line ! nl \<in> set line" by (simp_all add: nth_append)
    then show False using s nl assms(2) by (simp add: nth_append)
  qed
  then show ?thesis using s nl by (simp add: newline_def)
qed

lemma ReadLine_ok:
  assumes "ReadLine bufs line False = (True, l, ov, rest)" "\<forall>c \<in> set bufs. c \<noteq> [] \<and> length c \<le> 256"
    "CHR 0x0A \<notin> set line" "length line \<le> 4096"
  shows "\<not> ov \<and> CHR 0x0A \<notin> set l \<and> length l \<le> 4351 \<and> (\<exists>used. bufs = used @ rest \<and>
     ((\<exists>lost. line @ concat used = l @ newline @ lost \<and> length lost < 256) \<or> (rest = [] \<and> line @ concat used = l \<and> l \<noteq> [])))"
  using assms
proof (induction bufs arbitrary: line)
  case (Cons buf bufs)
  have buf: "buf \<noteq> []" "length buf \<le> 256" using Cons.prems(2) by auto
  show ?case
  proof (cases "find_sub newline (line @ buf)")
    case (Some nl)
    note f = find_newline_Some [OF Some Cons.prems(3)]
    have r: "l = take nl (line @ buf)" "ov = False" "rest = bufs"
      using Cons.prems(1) Some buf(1) by (auto simp: Let_def)
    have lt: "nl < length line + length buf" "length line \<le> nl" using f by simp_all
    have "length l \<le> 4351" using lt buf(2) Cons.prems(4) unfolding r(1) by simp
    moreover have "length (drop (nl + 1) (line @ buf)) < 256" using lt buf by simp
    moreover have "line @ concat [buf] = l @ newline @ drop (nl + 1) (line @ buf)"
    proof -
      have "line @ buf = take nl (line @ buf) @ newline @ drop (nl + 1) (line @ buf)" using f by blast
      then show ?thesis unfolding r(1) by (simp only: concat.simps append_Nil2)
    qed
    moreover have "buf # bufs = [buf] @ rest" unfolding r(3) by simp
    moreover have "CHR 0x0A \<notin> set l" unfolding r(1) using f by blast
    moreover have "\<not> ov" using r(2) by simp
    ultimately show ?thesis by blast
  next
    case None
    then have no: "CHR 0x0A \<notin> set (line @ buf)" by (simp add: newline_def find_char split: if_splits)
    show ?thesis
    proof (cases "length (line @ buf) > kMaxLineLen")
      case True
      then have "ReadLine bufs [] True = (True, l, ov, rest)" using Cons.prems(1) None buf(1) by (simp add: Let_def)
      then show ?thesis using ReadLine_overflow by blast
    next
      case False
      then have "ReadLine bufs (line @ buf) False = (True, l, ov, rest)" using Cons.prems(1) None buf(1) by (simp add: Let_def)
      from Cons.IH [OF this _ no] Cons.prems(2) False obtain used where
        u: "\<not> ov" "CHR 0x0A \<notin> set l" "length l \<le> 4351" "bufs = used @ rest"
          "(\<exists>lost. (line @ buf) @ concat used = l @ newline @ lost \<and> length lost < 256) \<or> (rest = [] \<and> (line @ buf) @ concat used = l \<and> l \<noteq> [])"
        by (auto simp: kMaxLineLen_def)
      have "buf # bufs = (buf # used) @ rest" "line @ concat (buf # used) = (line @ buf) @ concat used" using u(4) by simp_all
      with u show ?thesis by metis
    qed
  qed
qed auto

lemma ReadLine_rest: "ReadLine bufs line ov = (ok, l, ov', rest) \<Longrightarrow> bufs \<noteq> [] \<Longrightarrow> length rest < length bufs"
proof (induction bufs arbitrary: line ov)
  case (Cons buf bufs)
  have ih: "length rest \<le> length bufs" if "ReadLine bufs ln o' = (ok, l, ov', rest)" for ln o'
    using Cons.IH [OF that] that by (cases "bufs = []") auto
  show ?case using Cons.prems(1) ih
    by (auto simp: Let_def less_Suc_eq_le split: if_splits option.splits)
qed simp

lemma ReadLine_shorter: "ReadLine bufs [] False = (True, l, ov, rest) \<Longrightarrow> length rest < length bufs"
  by (cases bufs) (simp, metis ReadLine_rest list.discI)

text \<open>The lines a session gets from its connection, one \<open>ReadLine\<close> after another until it ends.\<close>

function session_lines :: "string list \<Rightarrow> string list" where
  "session_lines bufs = (case ReadLine bufs [] False of
     (ok, line, tooLong, rest) \<Rightarrow> if \<not> ok \<or> line = [] then [] else line # session_lines rest)"
  by pat_completeness auto
termination by (relation "measure length") (auto dest!: ReadLine_shorter [OF sym])

declare session_lines.simps [simp del]

text \<open>Which lines a session gets. A line that \<open>ReadLine\<close> delivers is the received text up to the
  first newline, or all of it at the end of the connection; it has at most 4351 bytes (the limit
  of 4096 is only tested on chunks without newline), and the bytes that arrived in the same chunk
  after the newline are lost. The overflow flag is never set for a delivered line, so the answer
  "line too long" that the session prepares for it is never sent: such a connection is closed.\<close>

theorem ReadLine_lines:
  assumes "ReadLine bufs [] False = (True, line, overflow, rest)" "\<forall>c \<in> set bufs. c \<noteq> [] \<and> length c \<le> 256"
  shows "\<not> overflow \<and> CHR 0x0A \<notin> set line \<and> length line \<le> 4351 \<and>
    (\<exists>used. bufs = used @ rest \<and> ((\<exists>lost. concat used = line @ newline @ lost \<and> length lost < 256) \<or>
       (rest = [] \<and> concat used = line \<and> line \<noteq> [])))"
  using ReadLine_ok [OF assms] by simp

theorem ReadLine_lines_witness:
  "ReadLine [''he'', ''lp'' @ newline @ ''get'', ''x''] [] False = (True, ''help'', False, [''x'']) \<and> \<not> False"
proof -
  have r: "ReadLine [''he'', ''lp'' @ newline @ ''get'', ''x''] [] False = (True, ''help'', False, [''x''])"
    by code_simp
  then show ?thesis using ReadLine_lines [OF r] by (simp add: newline_def)
qed

section \<open>Jobs, sessions and the control thread\<close>

record Job =
  jb_line :: string
  jb_resp :: string
  jb_done :: bool
  jb_dds :: bool

datatype ctl_phase = Idle | Running nat | Exited | Crashed nat

datatype ses_phase = Reading | Waiting nat | Closed

text \<open>
  A session: the chunks still to arrive, where it is in its loop, the replies it sent. For the
  statements, \<open>se_conn\<close> keeps all the chunks of the connection and \<open>se_jobs\<close> the jobs the session made.
\<close>

record session =
  se_input :: "string list"
  se_phase :: ses_phase
  se_replies :: "string list"
  se_conn :: "string list"
  se_jobs :: "nat list"

definition new_session :: "string list \<Rightarrow> session" where
  "new_session input = \<lparr>se_input = input, se_phase = Reading, se_replies = [], se_conn = input, se_jobs = []\<rparr>"

text \<open>
  The globals of the file. A job is its place in \<open>cs_jobs\<close>. \<open>cs_executed\<close> and \<open>cs_dropped\<close> record
  which jobs the control thread executed, in order, and which \<open>control_stop\<close> answered itself.
\<close>

record 'w console =
  cs_queue :: "nat list"
  cs_jobs :: "Job list"
  cs_controlStop :: bool
  cs_control :: ctl_phase
  cs_consoleStop :: bool
  cs_sessions :: "session list"
  cs_world :: 'w
  cs_mw :: bool
  cs_published :: "string list"
  cs_executed :: "nat list"
  cs_dropped :: "nat list"

definition start_console :: "string list list \<Rightarrow> bool \<Rightarrow> 'w \<Rightarrow> 'w console" where
  "start_console inputs mw w = \<lparr>cs_queue = [], cs_jobs = [], cs_controlStop = False, cs_control = Idle, cs_consoleStop = False,
     cs_sessions = map new_session inputs,
     cs_world = w, cs_mw = mw, cs_published = [], cs_executed = [], cs_dropped = []\<rparr>"

definition PushJob :: "Job \<Rightarrow> 'w console \<Rightarrow> 'w console" where
  "PushJob j s = s\<lparr>cs_jobs := cs_jobs s @ [j], cs_queue := cs_queue s @ [length (cs_jobs s)]\<rparr>"

definition set_session :: "nat \<Rightarrow> session \<Rightarrow> 'w console \<Rightarrow> 'w console" where
  "set_session i e s = s\<lparr>cs_sessions := (cs_sessions s)[i := e]\<rparr>"

text \<open>One pass of \<open>SessionLoop\<close> up to the wait; the branch for \<open>tooLong\<close> answers without the queue.\<close>

definition session_read :: "nat \<Rightarrow> 'w console \<Rightarrow> 'w console" where
  "session_read i s = (let e = cs_sessions s ! i in
     if cs_consoleStop s then set_session i (e\<lparr>se_phase := Closed\<rparr>) s
     else (let (ok, line, tooLong, rest) = ReadLine (se_input e) [] False; e1 = e\<lparr>se_input := rest\<rparr> in
       if \<not> ok \<or> line = [] then set_session i (e1\<lparr>se_phase := Closed\<rparr>) s
       else if tooLong then
         set_session i (e1\<lparr>se_phase := Waiting (length (cs_jobs s)), se_jobs := se_jobs e @ [length (cs_jobs s)]\<rparr>) (s\<lparr>cs_jobs := cs_jobs s @
           [\<lparr>jb_line = [], jb_resp = ''ERR: line too long (max '' @ dec_string kMaxLineLen @ '')'', jb_done = True, jb_dds = False\<rparr>]\<rparr>)
       else set_session i (e1\<lparr>se_phase := Waiting (length (cs_jobs s)), se_jobs := se_jobs e @ [length (cs_jobs s)]\<rparr>)
              (PushJob \<lparr>jb_line = line, jb_resp = [], jb_done = False, jb_dds = False\<rparr> s)))"

text \<open>The end of the wait and the reply; \<open>sent\<close> tells whether \<open>send\<close> succeeded.\<close>

definition kRespDelim :: string where "kRespDelim = [CHR 0x00]"

definition session_reply :: "nat \<Rightarrow> nat \<Rightarrow> bool \<Rightarrow> 'w console \<Rightarrow> 'w console" where
  "session_reply i j sent s = (let e = cs_sessions s ! i in
     if sent then set_session i (e\<lparr>se_phase := Reading, se_replies := se_replies e @ [jb_resp (cs_jobs s ! j) @ kRespDelim]\<rparr>) s
     else set_session i (e\<lparr>se_phase := Closed\<rparr>) s)"

definition PublishCtlResp :: "string \<Rightarrow> string \<Rightarrow> 'w console \<Rightarrow> 'w console" where
  "PublishCtlResp line out s = (if \<not> cs_mw s then s
     else s\<lparr>cs_published := cs_published s @ [''cmd='' @ line @ newline @ out]\<rparr>)"

text \<open>\<open>ControlLoop\<close>: the wait with its exit, the taking of a job, and its execution up to the notification.\<close>

definition control_wait :: "'w console \<Rightarrow> 'w console" where
  "control_wait s = (case cs_queue s of
     [] \<Rightarrow> if cs_controlStop s then s\<lparr>cs_control := Exited\<rparr> else s
   | j # q \<Rightarrow> s\<lparr>cs_queue := q, cs_control := Running j\<rparr>)"

definition control_run :: "(string \<Rightarrow> 'w \<Rightarrow> (string \<times> 'w) option) \<Rightarrow> nat \<Rightarrow> 'w console \<Rightarrow> 'w console" where
  "control_run ex j s = (let job = cs_jobs s ! j in
     case ex (jb_line job) (cs_world s) of
       None \<Rightarrow> s\<lparr>cs_control := Crashed j\<rparr>
     | Some (resp, w) \<Rightarrow>
        (let s1 = s\<lparr>cs_world := w\<rparr>;
             s2 = (if jb_dds job then PublishCtlResp (jb_line job) resp s1 else s1)
         in s2\<lparr>cs_jobs := (cs_jobs s2)[j := job\<lparr>jb_resp := resp, jb_done := True\<rparr>], cs_control := Idle,
               cs_executed := cs_executed s2 @ [j]\<rparr>))"

fun stop_jobs :: "nat list \<Rightarrow> Job list \<Rightarrow> Job list" where
  "stop_jobs [] jobs = jobs"
| "stop_jobs (j # js) jobs = stop_jobs js (jobs[j := (jobs ! j)\<lparr>jb_resp := ''control stopped'', jb_done := True\<rparr>])"

definition control_stop :: "'w console \<Rightarrow> 'w console" where
  "control_stop s = s\<lparr>cs_controlStop := True, cs_queue := [], cs_jobs := stop_jobs (cs_queue s) (cs_jobs s),
     cs_dropped := cs_dropped s @ cs_queue s\<rparr>"

definition console_stop_flag :: "'w console \<Rightarrow> 'w console" where
  "console_stop_flag s = s\<lparr>cs_consoleStop := True\<rparr>"

definition control_submit_dds :: "string option \<Rightarrow> 'w console \<Rightarrow> int \<times> 'w console" where
  "control_submit_dds line s = (case line of
     None \<Rightarrow> (- 1, s)
   | Some l \<Rightarrow>
      if l = [] then (- 1, s)
      else if length l > kMaxLineLen then (- 1, s)
      else if cs_controlStop s then (- 1, s)
      else (0, PushJob \<lparr>jb_line = l, jb_resp = [], jb_done = False, jb_dds = True\<rparr> s))"

text \<open>The line's execution as \<open>ControlLoop\<close> calls it.\<close>

definition control_exec :: "(cmd_fn \<Rightarrow> string list \<Rightarrow> string \<Rightarrow> 'w \<Rightarrow> int \<times> string \<times> 'w) \<Rightarrow> Command list \<Rightarrow>
    string \<Rightarrow> 'w \<Rightarrow> (string \<times> 'w) option" where
  "control_exec run m line w = map_option snd (Execute run m line [] w)"

text \<open>\<open>ConsoleLoop\<close>: a connection with the chunks it will send becomes a session, unless the loop has stopped.\<close>

definition accept_session :: "string list \<Rightarrow> 'w console \<Rightarrow> 'w console" where
  "accept_session input s = (if cs_consoleStop s then s else s\<lparr>cs_sessions := cs_sessions s @ [new_session input]\<rparr>)"

inductive cstep :: "(string \<Rightarrow> 'w \<Rightarrow> (string \<times> 'w) option) \<Rightarrow> 'w console \<Rightarrow> 'w console \<Rightarrow> bool" for ex where
  read: "i < length (cs_sessions s) \<Longrightarrow> se_phase (cs_sessions s ! i) = Reading \<Longrightarrow> cstep ex s (session_read i s)"
| reply: "i < length (cs_sessions s) \<Longrightarrow> se_phase (cs_sessions s ! i) = Waiting j \<Longrightarrow> jb_done (cs_jobs s ! j) \<Longrightarrow>
    cstep ex s (session_reply i j sent s)"
| submit: "cstep ex s (snd (control_submit_dds line s))"
| wait: "cs_control s = Idle \<Longrightarrow> cs_queue s \<noteq> [] \<or> cs_controlStop s \<Longrightarrow> cstep ex s (control_wait s)"
| run: "cs_control s = Running j \<Longrightarrow> cstep ex s (control_run ex j s)"
| stop: "\<not> cs_controlStop s \<Longrightarrow> cstep ex s (control_stop s)"
| console_stop: "cstep ex s (console_stop_flag s)"
| accept: "cstep ex s (accept_session input s)"

inductive creach :: "(string \<Rightarrow> 'w \<Rightarrow> (string \<times> 'w) option) \<Rightarrow> 'w console \<Rightarrow> 'w console \<Rightarrow> bool" for ex s0 where
  start: "creach ex s0 s0"
| step: "creach ex s0 s \<Longrightarrow> cstep ex s s' \<Longrightarrow> creach ex s0 s'"

section \<open>The queue's invariant\<close>

text \<open>Executing lines one after another.\<close>

fun exec_all :: "(string \<Rightarrow> 'w \<Rightarrow> (string \<times> 'w) option) \<Rightarrow> string list \<Rightarrow> 'w \<Rightarrow> (string list \<times> 'w) option" where
  "exec_all ex [] w = Some ([], w)"
| "exec_all ex (l # ls) w = (case ex l w of None \<Rightarrow> None
     | Some (r, w1) \<Rightarrow> (case exec_all ex ls w1 of None \<Rightarrow> None | Some (rs, w2) \<Rightarrow> Some (r # rs, w2)))"

lemma exec_all_snoc:
  "exec_all ex ls w = Some (rs, w1) \<Longrightarrow> ex l w1 = Some (r, w2) \<Longrightarrow> exec_all ex (ls @ [l]) w = Some (rs @ [r], w2)"
  by (induction ls arbitrary: w rs) (auto split: option.splits)

definition run_of :: "ctl_phase \<Rightarrow> nat list" where
  "run_of p = (case p of Running j \<Rightarrow> [j] | Crashed j \<Rightarrow> [j] | _ \<Rightarrow> [])"

lemma run_of_simps [simp]:
  "run_of Idle = []" "run_of Exited = []" "run_of (Running j) = [j]" "run_of (Crashed j) = [j]"
  by (simp_all add: run_of_def)

text \<open>What the jobs executed so far have published.\<close>

definition publications :: "Job list \<Rightarrow> nat list \<Rightarrow> string list" where
  "publications jobs js = map (\<lambda>j. ''cmd='' @ jb_line (jobs ! j) @ newline @ jb_resp (jobs ! j)) (filter (\<lambda>j. jb_dds (jobs ! j)) js)"

definition order_ok :: "'w console \<Rightarrow> bool" where
  "order_ok s \<longleftrightarrow> sorted_wrt (<) (cs_executed s @ run_of (cs_control s) @ cs_queue s) \<and>
     set (cs_dropped s) \<inter> set (cs_executed s @ run_of (cs_control s) @ cs_queue s) = {} \<and>
     set (cs_executed s @ run_of (cs_control s) @ cs_queue s) \<union> set (cs_dropped s) = {..<length (cs_jobs s)} \<and>
     (cs_dropped s \<noteq> [] \<longrightarrow> cs_controlStop s)"

definition jobs_ok :: "'w console \<Rightarrow> bool" where
  "jobs_ok s \<longleftrightarrow> (\<forall>j \<in> set (cs_executed s). jb_done (cs_jobs s ! j)) \<and>
     (\<forall>j \<in> set (cs_dropped s). jb_done (cs_jobs s ! j) \<and> jb_resp (cs_jobs s ! j) = ''control stopped'') \<and>
     (\<forall>j \<in> set (run_of (cs_control s) @ cs_queue s). \<not> jb_done (cs_jobs s ! j))"

definition results_ok :: "(string \<Rightarrow> 'w \<Rightarrow> (string \<times> 'w) option) \<Rightarrow> 'w \<Rightarrow> 'w console \<Rightarrow> bool" where
  "results_ok ex w0 s \<longleftrightarrow>
     exec_all ex (map (\<lambda>j. jb_line (cs_jobs s ! j)) (cs_executed s)) w0 =
       Some (map (\<lambda>j. jb_resp (cs_jobs s ! j)) (cs_executed s), cs_world s) \<and>
     cs_published s = (if cs_mw s then publications (cs_jobs s) (cs_executed s) else [])"

text \<open>
  One session: its jobs are, in order, the lines of its connection; its replies are the responses of
  its jobs but for the one it waits for (or was waiting for when its connection broke).
\<close>

definition session_ok :: "Job list \<Rightarrow> session \<Rightarrow> bool" where
  "session_ok jobs e \<longleftrightarrow>
     (\<forall>j \<in> set (se_jobs e). j < length jobs \<and> \<not> jb_dds (jobs ! j)) \<and>
     sorted_wrt (<) (se_jobs e) \<and>
     map (\<lambda>j. jb_line (jobs ! j)) (se_jobs e) = take (length (se_jobs e)) (session_lines (se_conn e)) \<and>
     (se_phase e \<noteq> Closed \<longrightarrow> drop (length (se_jobs e)) (session_lines (se_conn e)) = session_lines (se_input e)) \<and>
     map (\<lambda>j. jb_resp (jobs ! j) @ kRespDelim) (take (length (se_replies e)) (se_jobs e)) = se_replies e \<and>
     (\<forall>j \<in> set (take (length (se_replies e)) (se_jobs e)). jb_done (jobs ! j)) \<and>
     (case se_phase e of Reading \<Rightarrow> length (se_jobs e) = length (se_replies e)
        | Waiting j \<Rightarrow> se_jobs e = take (length (se_replies e)) (se_jobs e) @ [j]
        | Closed \<Rightarrow> length (se_jobs e) \<le> Suc (length (se_replies e)))"

text \<open>No job belongs to two sessions, and every job that is not a remote one belongs to one.\<close>

definition sessions_ok :: "'w console \<Rightarrow> bool" where
  "sessions_ok s \<longleftrightarrow> (\<forall>e \<in> set (cs_sessions s). session_ok (cs_jobs s) e) \<and>
     (\<forall>i < length (cs_sessions s). \<forall>k < length (cs_sessions s). i \<noteq> k \<longrightarrow>
        set (se_jobs (cs_sessions s ! i)) \<inter> set (se_jobs (cs_sessions s ! k)) = {}) \<and>
     (\<forall>j < length (cs_jobs s). \<not> jb_dds (cs_jobs s ! j) \<longrightarrow> (\<exists>e \<in> set (cs_sessions s). j \<in> set (se_jobs e)))"

definition queue_ok :: "(string \<Rightarrow> 'w \<Rightarrow> (string \<times> 'w) option) \<Rightarrow> 'w \<Rightarrow> 'w console \<Rightarrow> bool" where
  "queue_ok ex w0 s \<longleftrightarrow> order_ok s \<and> jobs_ok s \<and> results_ok ex w0 s"

definition console_ok :: "(string \<Rightarrow> 'w \<Rightarrow> (string \<times> 'w) option) \<Rightarrow> 'w \<Rightarrow> 'w console \<Rightarrow> bool" where
  "console_ok ex w0 s \<longleftrightarrow> queue_ok ex w0 s \<and> sessions_ok s"

lemmas queue_defs = queue_ok_def order_ok_def jobs_ok_def results_ok_def

text \<open>Jobs change in three ways only: new ones at the end, and the answers of jobs not done.\<close>

definition jobs_grow :: "Job list \<Rightarrow> Job list \<Rightarrow> bool" where
  "jobs_grow jobs jobs' \<longleftrightarrow> length jobs \<le> length jobs' \<and>
     (\<forall>k < length jobs. jb_line (jobs' ! k) = jb_line (jobs ! k) \<and> jb_dds (jobs' ! k) = jb_dds (jobs ! k) \<and>
        (jb_done (jobs ! k) \<longrightarrow> jobs' ! k = jobs ! k))"

lemma session_ok_grow:
  assumes "session_ok jobs e" "jobs_grow jobs jobs'"
  shows "session_ok jobs' e"
proof -
  let ?n = "length (se_replies e)"
  have e: "\<forall>j \<in> set (se_jobs e). j < length jobs \<and> \<not> jb_dds (jobs ! j)" "\<forall>j \<in> set (take ?n (se_jobs e)). jb_done (jobs ! j)"
    using assms(1) by (simp_all add: session_ok_def)
  have sub: "j \<in> set (se_jobs e)" if "j \<in> set (take ?n (se_jobs e))" for j using that by (rule in_set_takeD)
  have same: "jobs' ! j = jobs ! j" if "j \<in> set (take ?n (se_jobs e))" for j
    using e(1,2) sub [OF that] that assms(2) by (simp add: jobs_grow_def)
  have "map (\<lambda>j. jb_resp (jobs' ! j) @ kRespDelim) (take ?n (se_jobs e)) = map (\<lambda>j. jb_resp (jobs ! j) @ kRespDelim) (take ?n (se_jobs e))"
    by (rule map_cong) (simp_all add: same)
  moreover have "map (\<lambda>j. jb_line (jobs' ! j)) (se_jobs e) = map (\<lambda>j. jb_line (jobs ! j)) (se_jobs e)"
    by (rule map_cong) (use e(1) assms(2) in \<open>simp_all add: jobs_grow_def\<close>)
  moreover have "\<forall>j \<in> set (se_jobs e). j < length jobs' \<and> \<not> jb_dds (jobs' ! j)"
    using e(1) assms(2) by (fastforce simp: jobs_grow_def)
  moreover have "\<forall>j \<in> set (take ?n (se_jobs e)). jb_done (jobs' ! j)" using e(2) by (simp add: same)
  ultimately show ?thesis using assms(1) unfolding session_ok_def by simp
qed

text \<open>Steps of the control thread and of the remote channel leave the sessions alone.\<close>

lemma sessions_ok_grow:
  assumes "sessions_ok s" "jobs_grow (cs_jobs s) (cs_jobs s')" "cs_sessions s' = cs_sessions s"
    "\<forall>j < length (cs_jobs s'). length (cs_jobs s) \<le> j \<longrightarrow> jb_dds (cs_jobs s' ! j)"
  shows "sessions_ok s'"
proof -
  have "\<exists>e \<in> set (cs_sessions s). j \<in> set (se_jobs e)" if "j < length (cs_jobs s')" "\<not> jb_dds (cs_jobs s' ! j)" for j
  proof -
    have "j < length (cs_jobs s)" using assms(4) that by (metis not_less)
    then show ?thesis using assms(1,2) that(2) by (simp add: sessions_ok_def jobs_grow_def)
  qed
  then show ?thesis using assms(1) session_ok_grow [OF _ assms(2)] unfolding sessions_ok_def assms(3) by simp
qed

text \<open>A session's own step.\<close>

lemma sessions_ok_set:
  assumes "sessions_ok s" "i < length (cs_sessions s)" "session_ok (cs_jobs s') e" "jobs_grow (cs_jobs s) (cs_jobs s')"
    "cs_sessions s' = (cs_sessions s)[i := e]"
    "set (se_jobs e) = set (se_jobs (cs_sessions s ! i)) \<union> {length (cs_jobs s)..<length (cs_jobs s')}"
  shows "sessions_ok s'"
proof -
  let ?l = "cs_sessions s" and ?n = "length (cs_jobs s)"
  have so: "\<forall>e \<in> set ?l. session_ok (cs_jobs s) e"
    "\<And>a b. a < length ?l \<Longrightarrow> b < length ?l \<Longrightarrow> a \<noteq> b \<Longrightarrow> set (se_jobs (?l ! a)) \<inter> set (se_jobs (?l ! b)) = {}"
    "\<And>j. j < ?n \<Longrightarrow> \<not> jb_dds (cs_jobs s ! j) \<Longrightarrow> \<exists>e \<in> set ?l. j \<in> set (se_jobs e)"
    using assms(1) by (simp_all add: sessions_ok_def)
  have old: "j < ?n" if "a < length ?l" "j \<in> set (se_jobs (?l ! a))" for a j
    using bspec [OF so(1) nth_mem [OF that(1)]] that(2) by (simp add: session_ok_def)
  have "\<forall>e \<in> set (?l[i := e]). session_ok (cs_jobs s') e"
    using so(1) assms(3) session_ok_grow [OF _ assms(4)] by (auto dest!: subsetD [OF set_update_subset_insert])
  moreover have "set (se_jobs (?l[i := e] ! a)) \<inter> set (se_jobs (?l[i := e] ! b)) = {}"
    if ab: "a < length ?l" "b < length ?l" "a \<noteq> b" for a b
  proof -
    have new: "set (se_jobs e) \<inter> set (se_jobs (?l ! c)) = {}" if "c < length ?l" "c \<noteq> i" for c
      using so(2) [OF assms(2) that(1)] old [OF that(1)] that(2) unfolding assms(6) by fastforce
    show ?thesis
      using new [of a] new [of b] so(2) [OF ab] ab by (cases "a = i"; cases "b = i") (auto simp: nth_list_update)
  qed
  moreover have "\<exists>e' \<in> set (?l[i := e]). j \<in> set (se_jobs e')" if j: "j < length (cs_jobs s')" "\<not> jb_dds (cs_jobs s' ! j)" for j
  proof -
    have e: "e \<in> set (?l[i := e])" using assms(2) by (rule set_update_memI)
    show ?thesis
    proof (cases "j < ?n")
      case True
      then have "\<not> jb_dds (cs_jobs s ! j)" using assms(4) j(2) by (simp add: jobs_grow_def)
      then obtain a where a: "a < length ?l" "j \<in> set (se_jobs (?l ! a))" using so(3) [OF True] by (metis in_set_conv_nth)
      show ?thesis
      proof (cases "a = i")
        case True
        then have "j \<in> set (se_jobs e)" using a(2) unfolding assms(6) by simp
        with e show ?thesis by blast
      next
        case False
        then have "?l ! a \<in> set (?l[i := e])" using a(1) by (metis length_list_update nth_list_update_neq nth_mem)
        with a(2) show ?thesis by blast
      qed
    next
      case False
      then have "j \<in> set (se_jobs e)" using j(1) unfolding assms(6) by simp
      with e show ?thesis by blast
    qed
  qed
  ultimately show ?thesis unfolding sessions_ok_def assms(5) by simp
qed

lemma sorted_wrt_bound: "sorted_wrt (<) xs \<Longrightarrow> \<forall>x \<in> set xs. x < (n :: nat) \<Longrightarrow> sorted_wrt (<) (xs @ [n])"
  by (simp add: sorted_wrt_append)

lemma set_snoc: "set (xs @ [x]) = insert x (set xs)"
  by simp

text \<open>Old jobs are not touched by a new one.\<close>

lemma push_ok:
  assumes "queue_ok ex w0 s" "\<not> jb_done j"
  shows "queue_ok ex w0 (PushJob j s)"
proof -
  let ?n = "length (cs_jobs s)" and ?js = "cs_executed s @ run_of (cs_control s) @ cs_queue s"
  have o: "sorted_wrt (<) ?js" "set (cs_dropped s) \<inter> set ?js = {}" "set ?js \<union> set (cs_dropped s) = {..<?n}"
    "cs_dropped s \<noteq> [] \<longrightarrow> cs_controlStop s"
    using assms(1) by (simp_all add: queue_ok_def order_ok_def)
  have b: "\<forall>x \<in> set ?js. x < ?n" "\<forall>x \<in> set (cs_dropped s). x < ?n" using o(3) by auto
  have old: "(cs_jobs s @ [j]) ! k = cs_jobs s ! k" if "k < ?n" for k using that by (simp add: nth_append)
  have "sorted_wrt (<) (?js @ [?n])" using o(1) b(1) by (rule sorted_wrt_bound)
  moreover have "set (cs_dropped s) \<inter> set (?js @ [?n]) = {}"
    unfolding set_snoc Int_insert_right using o(2) b(2) by auto
  moreover have "set (?js @ [?n]) \<union> set (cs_dropped s) = {..<Suc ?n}"
    unfolding set_snoc lessThan_Suc Un_insert_left o(3) ..
  ultimately have "order_ok (PushJob j s)" using o(4) by (simp add: order_ok_def PushJob_def)
  moreover have "jobs_ok (PushJob j s)"
  proof -
    have jo: "jobs_ok s" using assms(1) by (simp add: queue_ok_def)
    have e: "cs_executed (PushJob j s) = cs_executed s" "cs_dropped (PushJob j s) = cs_dropped s"
      "cs_control (PushJob j s) = cs_control s" "cs_jobs (PushJob j s) = cs_jobs s @ [j]" "cs_queue (PushJob j s) = cs_queue s @ [?n]"
      by (simp_all add: PushJob_def)
    have bs: "k < ?n" if "k \<in> set (cs_executed s) \<or> k \<in> set (cs_dropped s) \<or> k \<in> set (run_of (cs_control s) @ cs_queue s)" for k
      using that b by auto
    have "\<forall>k \<in> set (run_of (cs_control s) @ cs_queue s @ [?n]). \<not> jb_done ((cs_jobs s @ [j]) ! k)"
    proof
      fix k assume "k \<in> set (run_of (cs_control s) @ cs_queue s @ [?n])"
      then consider "k = ?n" | "k \<in> set (run_of (cs_control s) @ cs_queue s)" by auto
      then show "\<not> jb_done ((cs_jobs s @ [j]) ! k)"
      proof cases
        case 1
        with assms(2) show ?thesis by simp
      next
        case 2
        then show ?thesis using jo bs [of k] old [of k] unfolding jobs_ok_def by simp
      qed
    qed
    moreover have "\<forall>k \<in> set (cs_executed s). jb_done ((cs_jobs s @ [j]) ! k)"
      using jo bs old unfolding jobs_ok_def by simp
    moreover have "\<forall>k \<in> set (cs_dropped s). jb_done ((cs_jobs s @ [j]) ! k) \<and> jb_resp ((cs_jobs s @ [j]) ! k) = ''control stopped''"
      using jo bs old unfolding jobs_ok_def by simp
    ultimately show ?thesis unfolding jobs_ok_def e by blast
  qed
  moreover have "results_ok ex w0 (PushJob j s)"
  proof -
    have "map (\<lambda>k. jb_line ((cs_jobs s @ [j]) ! k)) (cs_executed s) = map (\<lambda>k. jb_line (cs_jobs s ! k)) (cs_executed s)"
      "map (\<lambda>k. jb_resp ((cs_jobs s @ [j]) ! k)) (cs_executed s) = map (\<lambda>k. jb_resp (cs_jobs s ! k)) (cs_executed s)"
      "publications (cs_jobs s @ [j]) (cs_executed s) = publications (cs_jobs s) (cs_executed s)"
      unfolding publications_def using b(1) old by (auto intro!: map_cong filter_cong)
    note same = this
    have "cs_executed (PushJob j s) = cs_executed s" "cs_jobs (PushJob j s) = cs_jobs s @ [j]" "cs_world (PushJob j s) = cs_world s"
      "cs_published (PushJob j s) = cs_published s" "cs_mw (PushJob j s) = cs_mw s" by (simp_all add: PushJob_def)
    then show ?thesis using assms(1) unfolding queue_ok_def results_ok_def by (simp only: same)
  qed
  ultimately show ?thesis by (simp add: queue_ok_def)
qed

lemma queue_ok_sessions: "queue_ok ex w0 (set_session i e s) \<longleftrightarrow> queue_ok ex w0 s"
  by (simp add: queue_defs set_session_def)

text \<open>A session that makes no job.\<close>

lemma set_session_ok:
  assumes "console_ok ex w0 s" "i < length (cs_sessions s)" "session_ok (cs_jobs s) e" "se_jobs e = se_jobs (cs_sessions s ! i)"
  shows "console_ok ex w0 (set_session i e s)"
proof -
  have "sessions_ok (set_session i e s)"
    by (rule sessions_ok_set [of s i _ e]) (use assms in \<open>simp_all add: console_ok_def set_session_def jobs_grow_def\<close>)
  then show ?thesis using assms(1) by (simp add: console_ok_def queue_ok_sessions)
qed

lemma session_at: "console_ok ex w0 s \<Longrightarrow> i < length (cs_sessions s) \<Longrightarrow> session_ok (cs_jobs s) (cs_sessions s ! i)"
  by (simp add: console_ok_def sessions_ok_def)

lemma session_jobs_le:
  assumes "session_ok jobs e"
  shows "length (se_jobs e) \<le> Suc (length (se_replies e))"
proof (cases "se_phase e")
  case (Waiting j)
  with assms have "se_jobs e = take (length (se_replies e)) (se_jobs e) @ [j]" by (simp add: session_ok_def)
  from arg_cong [OF this, of length] show ?thesis by simp
qed (use assms in \<open>simp_all add: session_ok_def\<close>)

lemma session_close: "session_ok jobs e \<Longrightarrow> session_ok jobs (e\<lparr>se_input := b, se_phase := Closed\<rparr>)"
  using session_jobs_le [of jobs e] unfolding session_ok_def by simp

lemma ReadLine_no_overflow: "ReadLine bufs line False = (True, l, ov, rest) \<Longrightarrow> \<not> ov"
proof (induction bufs arbitrary: line)
  case (Cons buf bufs)
  then show ?case
    using ReadLine_overflow [of bufs "[]" True l ov rest] by (auto simp: Let_def split: if_splits option.splits)
qed simp

lemma take_drop_Suc: "drop n xs = y # ys \<Longrightarrow> take (Suc n) xs = take n xs @ [y] \<and> drop (Suc n) xs = ys"
proof -
  assume d: "drop n xs = y # ys"
  then have "n < length xs" by (metis drop_all linorder_not_le list.discI)
  with d show ?thesis by (simp add: Cons_nth_drop_Suc [symmetric] take_Suc_conv_app_nth)
qed

text \<open>The next line becomes the session's next job.\<close>

lemma session_next:
  assumes "session_ok jobs e" "se_phase e = Reading" "ReadLine (se_input e) [] False = (True, line, ov, rest)" "line \<noteq> []"
    "jb_line j = line" "\<not> jb_dds j"
  shows "session_ok (jobs @ [j]) (e\<lparr>se_input := rest, se_phase := Waiting (length jobs), se_jobs := se_jobs e @ [length jobs]\<rparr>)"
proof -
  have "jobs_grow jobs (jobs @ [j])" by (simp add: jobs_grow_def nth_append)
  note g = session_ok_grow [OF assms(1) this]
  have n: "length (se_jobs e) = length (se_replies e)" using assms(1,2) by (simp add: session_ok_def)
  have b: "\<forall>k \<in> set (se_jobs e). k < length jobs" using assms(1) by (simp add: session_ok_def)
  have "session_lines (se_input e) = line # session_lines rest"
    using assms(3,4) by (subst session_lines.simps) simp
  moreover have "drop (length (se_jobs e)) (session_lines (se_conn e)) = session_lines (se_input e)"
    "map (\<lambda>k. jb_line ((jobs @ [j]) ! k)) (se_jobs e) = take (length (se_jobs e)) (session_lines (se_conn e))"
    using g assms(2) unfolding session_ok_def by auto
  ultimately have "map (\<lambda>k. jb_line ((jobs @ [j]) ! k)) (se_jobs e @ [length jobs]) =
      take (Suc (length (se_jobs e))) (session_lines (se_conn e))"
    "drop (Suc (length (se_jobs e))) (session_lines (se_conn e)) = session_lines rest"
    using take_drop_Suc [of "length (se_jobs e)" "session_lines (se_conn e)" line "session_lines rest"] assms(5) by simp_all
  with g n sorted_wrt_bound [OF _ b] assms(6) show ?thesis
    by (simp add: session_ok_def)
qed

lemma session_read_ok:
  assumes "console_ok ex w0 s" "i < length (cs_sessions s)" "se_phase (cs_sessions s ! i) = Reading"
  shows "console_ok ex w0 (session_read i s)"
proof -
  let ?e = "cs_sessions s ! i"
  note at = session_at [OF assms(1,2)]
  obtain ok line ov rest where r: "ReadLine (se_input ?e) [] False = (ok, line, ov, rest)" by (metis prod_cases4)
  show ?thesis
  proof (cases "cs_consoleStop s \<or> \<not> ok \<or> line = []")
    case True
    have "console_ok ex w0 (set_session i (?e\<lparr>se_input := b, se_phase := Closed\<rparr>) s)" for b
      using assms(1,2) session_close [OF at] by (rule set_session_ok) simp
    note cl = this [of rest] this [of "se_input ?e"]
    show ?thesis
    proof (cases "cs_consoleStop s")
      case True
      then have "session_read i s = set_session i (?e\<lparr>se_input := se_input ?e, se_phase := Closed\<rparr>) s"
        by (simp add: session_read_def Let_def)
      with cl(2) show ?thesis by simp
    next
      case False
      with True r have "session_read i s = set_session i (?e\<lparr>se_input := rest, se_phase := Closed\<rparr>) s"
        by (auto simp: session_read_def Let_def)
      with cl(1) show ?thesis by simp
    qed
  next
    case False
    then have ok: "ReadLine (se_input ?e) [] False = (True, line, False, rest)" "line \<noteq> []"
      using ReadLine_no_overflow [of "se_input ?e" "[]" line ov rest] r by simp_all
    let ?j = "\<lparr>jb_line = line, jb_resp = [], jb_done = False, jb_dds = False\<rparr>"
    let ?e1 = "?e\<lparr>se_input := rest, se_phase := Waiting (length (cs_jobs s)), se_jobs := se_jobs ?e @ [length (cs_jobs s)]\<rparr>"
    have s': "session_read i s = set_session i ?e1 (PushJob ?j s)" using False ok by (simp add: session_read_def Let_def)
    have "session_ok (cs_jobs s @ [?j]) ?e1" by (rule session_next [OF at assms(3) ok]) simp_all
    moreover have f: "cs_jobs (session_read i s) = cs_jobs s @ [?j]" "cs_sessions (session_read i s) = (cs_sessions s)[i := ?e1]"
      by (simp_all add: s' set_session_def PushJob_def)
    moreover have "jobs_grow (cs_jobs s) (cs_jobs s @ [?j])" by (simp add: jobs_grow_def nth_append)
    moreover have "sessions_ok s" using assms(1) by (simp add: console_ok_def)
    ultimately have "sessions_ok (session_read i s)"
      using sessions_ok_set [of s i "session_read i s" ?e1] assms(2) by simp
    moreover have "queue_ok ex w0 (session_read i s)" unfolding s' queue_ok_sessions
      by (rule push_ok) (use assms(1) in \<open>simp_all add: console_ok_def\<close>)
    ultimately show ?thesis by (simp add: console_ok_def)
  qed
qed

lemma session_answer:
  assumes "session_ok jobs e" "se_phase e = Waiting j" "jb_done (jobs ! j)"
  shows "session_ok jobs (e\<lparr>se_phase := Reading, se_replies := se_replies e @ [jb_resp (jobs ! j) @ kRespDelim]\<rparr>)"
proof -
  define n where "n = length (se_replies e)"
  have e: "se_jobs e = take n (se_jobs e) @ [j]" "map (\<lambda>j. jb_resp (jobs ! j) @ kRespDelim) (take n (se_jobs e)) = se_replies e"
    "\<forall>j \<in> set (take n (se_jobs e)). jb_done (jobs ! j)"
    using assms(1,2) by (simp_all add: session_ok_def n_def)
  have n: "length (se_jobs e) = Suc (length (se_replies e))"
    using arg_cong [OF e(1), of length] arg_cong [OF e(2), of length] by simp
  have "map (\<lambda>j. jb_resp (jobs ! j) @ kRespDelim) (se_jobs e) = se_replies e @ [jb_resp (jobs ! j) @ kRespDelim]"
    by (subst e(1)) (simp add: e(2))
  moreover have "\<forall>j \<in> set (se_jobs e). jb_done (jobs ! j)"
    using e(3) assms(3) by (subst e(1)) simp
  ultimately show ?thesis using assms(1,2) n by (simp add: session_ok_def)
qed

lemma session_reply_ok:
  assumes "console_ok ex w0 s" "i < length (cs_sessions s)" "se_phase (cs_sessions s ! i) = Waiting j" "jb_done (cs_jobs s ! j)"
  shows "console_ok ex w0 (session_reply i j sent s)"
proof -
  let ?e = "cs_sessions s ! i"
  note at = session_at [OF assms(1,2)]
  have "session_ok (cs_jobs s) (?e\<lparr>se_phase := Closed\<rparr>)" using session_close [OF at, of "se_input ?e"] by simp
  with session_answer [OF at assms(3,4)] show ?thesis
    by (simp add: session_reply_def Let_def set_session_ok [OF assms(1,2)])
qed

lemma control_wait_ok:
  assumes "console_ok ex w0 s" "cs_control s = Idle"
  shows "console_ok ex w0 (control_wait s)"
proof (cases "cs_queue s")
  case Nil
  with assms show ?thesis by (auto simp: control_wait_def console_ok_def queue_defs sessions_ok_def)
next
  case (Cons j q)
  with assms show ?thesis by (simp add: control_wait_def console_ok_def queue_defs sessions_ok_def)
qed

lemma exec_results:
  assumes "sorted_wrt (<) (xs @ j # ys)" "\<forall>k \<in> set (xs @ j # ys). k < length jobs"
  shows "map (\<lambda>k. f (jobs[j := b] ! k)) xs = map (\<lambda>k. f (jobs ! k)) xs" "publications (jobs[j := b]) xs = publications jobs xs"
proof -
  have n: "j \<noteq> k" if "k \<in> set xs" for k using assms(1) that by (auto simp: sorted_wrt_append)
  have "jobs[j := b] ! k = jobs ! k" if "k \<in> set xs" for k using n [OF that] by (rule nth_list_update_neq)
  then show "map (\<lambda>k. f (jobs[j := b] ! k)) xs = map (\<lambda>k. f (jobs ! k)) xs" "publications (jobs[j := b]) xs = publications jobs xs"
    unfolding publications_def by (auto intro!: map_cong filter_cong)
qed

lemma publications_snoc:
  "publications jobs (xs @ [j]) = publications jobs xs @
     (if jb_dds (jobs ! j) then [''cmd='' @ jb_line (jobs ! j) @ newline @ jb_resp (jobs ! j)] else [])"
  by (simp add: publications_def)

lemma control_run_ok:
  assumes "console_ok ex w0 s" "cs_control s = Running j"
  shows "console_ok ex w0 (control_run ex j s)"
proof (cases "ex (jb_line (cs_jobs s ! j)) (cs_world s)")
  case None
  then have r: "control_run ex j s = s\<lparr>cs_control := Crashed j\<rparr>" by (simp add: control_run_def Let_def)
  show ?thesis using assms unfolding r by (simp add: console_ok_def queue_defs sessions_ok_def)
next
  case (Some rw)
  obtain resp w where ex: "ex (jb_line (cs_jobs s ! j)) (cs_world s) = Some (resp, w)" using Some by (cases rw) simp
  let ?job = "cs_jobs s ! j"
  let ?jobs = "(cs_jobs s)[j := ?job\<lparr>jb_resp := resp, jb_done := True\<rparr>]"
  let ?r = "control_run ex j s"
  have f: "cs_jobs ?r = ?jobs" "cs_control ?r = Idle" "cs_queue ?r = cs_queue s" "cs_executed ?r = cs_executed s @ [j]"
    "cs_dropped ?r = cs_dropped s" "cs_controlStop ?r = cs_controlStop s" "cs_world ?r = w" "cs_mw ?r = cs_mw s"
    "cs_sessions ?r = cs_sessions s"
    "cs_published ?r = cs_published s @ (if jb_dds ?job \<and> cs_mw s then [''cmd='' @ jb_line ?job @ newline @ resp] else [])"
    using ex by (simp_all add: control_run_def Let_def PublishCtlResp_def)
  have o: "sorted_wrt (<) (cs_executed s @ j # cs_queue s)" "set (cs_dropped s) \<inter> set (cs_executed s @ j # cs_queue s) = {}"
    "set (cs_executed s @ j # cs_queue s) \<union> set (cs_dropped s) = {..<length (cs_jobs s)}" "cs_dropped s \<noteq> [] \<longrightarrow> cs_controlStop s"
    using assms by (simp_all add: console_ok_def queue_ok_def order_ok_def)
  have lt: "\<forall>k \<in> set (cs_executed s @ j # cs_queue s). k < length (cs_jobs s)" using o(3) by blast
  then have j: "j < length (cs_jobs s)" by simp
  have nj: "j \<noteq> k" if "k \<in> set (cs_executed s) \<or> k \<in> set (cs_queue s) \<or> k \<in> set (cs_dropped s)" for k
    using that o(1,2) by (auto simp: sorted_wrt_append)
  have jo: "jobs_ok s" and ro: "results_ok ex w0 s" and so: "sessions_ok s" using assms(1) by (simp_all add: console_ok_def queue_ok_def)
  have "order_ok ?r" using o unfolding order_ok_def f by simp
  moreover have "jobs_ok ?r"
    using jo nj j assms(2) unfolding jobs_ok_def f by (auto simp: nth_list_update_neq)
  moreover have "results_ok ex w0 ?r"
  proof -
    have line: "map (\<lambda>k. jb_line (?jobs ! k)) (cs_executed s @ [j]) = map (\<lambda>k. jb_line (cs_jobs s ! k)) (cs_executed s) @ [jb_line ?job]"
      using exec_results(1) [OF o(1) lt, of jb_line] j by simp
    have resp: "map (\<lambda>k. jb_resp (?jobs ! k)) (cs_executed s @ [j]) = map (\<lambda>k. jb_resp (cs_jobs s ! k)) (cs_executed s) @ [resp]"
      using exec_results(1) [OF o(1) lt, of jb_resp] j by simp
    have ro': "exec_all ex (map (\<lambda>k. jb_line (cs_jobs s ! k)) (cs_executed s)) w0 =
        Some (map (\<lambda>k. jb_resp (cs_jobs s ! k)) (cs_executed s), cs_world s)"
      "cs_published s = (if cs_mw s then publications (cs_jobs s) (cs_executed s) else [])"
      using ro by (simp_all add: results_ok_def)
    have "exec_all ex (map (\<lambda>k. jb_line (cs_jobs s ! k)) (cs_executed s) @ [jb_line ?job]) w0 =
        Some (map (\<lambda>k. jb_resp (cs_jobs s ! k)) (cs_executed s) @ [resp], w)"
      using ro'(1) ex by (rule exec_all_snoc)
    moreover have "publications ?jobs (cs_executed s @ [j]) = publications (cs_jobs s) (cs_executed s) @
        (if jb_dds ?job then [''cmd='' @ jb_line ?job @ newline @ resp] else [])"
      unfolding publications_snoc exec_results(2) [OF o(1) lt] using j by simp
    ultimately show ?thesis
      unfolding results_ok_def f line resp ro'(2) by simp
  qed
  moreover have "sessions_ok ?r"
  proof (rule sessions_ok_grow [OF so])
    have "\<not> jb_done ?job" using jo assms(2) by (simp add: jobs_ok_def)
    then show "jobs_grow (cs_jobs s) (cs_jobs ?r)" unfolding f jobs_grow_def using j by (auto simp: nth_list_update)
  qed (simp_all add: f)
  ultimately show ?thesis by (simp add: console_ok_def queue_ok_def)
qed

lemma stop_jobs_nth:
  "\<forall>k \<in> set js. k < length jobs \<Longrightarrow> distinct js \<Longrightarrow> length (stop_jobs js jobs) = length jobs \<and>
   (\<forall>k. stop_jobs js jobs ! k = (if k \<in> set js then (jobs ! k)\<lparr>jb_resp := ''control stopped'', jb_done := True\<rparr> else jobs ! k))"
  by (induction js arbitrary: jobs) (auto simp: nth_list_update)

lemma control_stop_ok:
  assumes "console_ok ex w0 s"
  shows "console_ok ex w0 (control_stop s)"
proof -
  let ?js = "cs_executed s @ run_of (cs_control s) @ cs_queue s" and ?jobs = "stop_jobs (cs_queue s) (cs_jobs s)"
  have o: "sorted_wrt (<) ?js" "set (cs_dropped s) \<inter> set ?js = {}" "set ?js \<union> set (cs_dropped s) = {..<length (cs_jobs s)}"
    using assms by (simp_all add: console_ok_def queue_ok_def order_ok_def)
  have jo: "jobs_ok s" and ro: "results_ok ex w0 s" and so: "sessions_ok s" using assms(1) by (simp_all add: console_ok_def queue_ok_def)
  have q: "\<forall>k \<in> set (cs_queue s). k < length (cs_jobs s)" "distinct (cs_queue s)"
    using o(3) strict_sorted_iff o(1) by (auto simp: sorted_wrt_append)
  note st = stop_jobs_nth [OF q]
  then have st: "length ?jobs = length (cs_jobs s)"
    "?jobs ! k = (if k \<in> set (cs_queue s) then (cs_jobs s ! k)\<lparr>jb_resp := ''control stopped'', jb_done := True\<rparr> else cs_jobs s ! k)" for k
    by blast+
  have f: "cs_jobs (control_stop s) = ?jobs" "cs_queue (control_stop s) = []" "cs_executed (control_stop s) = cs_executed s"
    "cs_dropped (control_stop s) = cs_dropped s @ cs_queue s" "cs_control (control_stop s) = cs_control s"
    "cs_controlStop (control_stop s) = True" "cs_world (control_stop s) = cs_world s" "cs_mw (control_stop s) = cs_mw s"
    "cs_published (control_stop s) = cs_published s" "cs_sessions (control_stop s) = cs_sessions s"
    by (simp_all add: control_stop_def)
  have nq: "k \<notin> set (cs_queue s)" if "k \<in> set (cs_executed s @ run_of (cs_control s))" for k
    using o(1) that by (fastforce simp: sorted_wrt_append)
  have "order_ok (control_stop s)"
    unfolding order_ok_def f st using o nq by (auto simp: sorted_wrt_append)
  moreover have "jobs_ok (control_stop s)"
    unfolding jobs_ok_def f using jo nq by (auto simp: jobs_ok_def st(2))
  moreover have "results_ok ex w0 (control_stop s)"
  proof -
    have same: "map (\<lambda>k. jb_line (?jobs ! k)) (cs_executed s) = map (\<lambda>k. jb_line (cs_jobs s ! k)) (cs_executed s)"
      "map (\<lambda>k. jb_resp (?jobs ! k)) (cs_executed s) = map (\<lambda>k. jb_resp (cs_jobs s ! k)) (cs_executed s)"
      "publications ?jobs (cs_executed s) = publications (cs_jobs s) (cs_executed s)"
      unfolding publications_def using nq by (auto intro!: map_cong filter_cong simp: st(2))
    show ?thesis using ro unfolding results_ok_def f same .
  qed
  moreover have "sessions_ok (control_stop s)"
  proof (rule sessions_ok_grow [OF so])
    have "\<not> jb_done (cs_jobs s ! k)" if "k \<in> set (cs_queue s)" for k using jo that by (simp add: jobs_ok_def)
    then show "jobs_grow (cs_jobs s) (cs_jobs (control_stop s))" unfolding f jobs_grow_def st by auto
  qed (simp_all add: f st(1))
  ultimately show ?thesis by (simp add: console_ok_def queue_ok_def)
qed

lemma new_session_ok: "session_ok jobs (new_session input)"
  by (simp add: session_ok_def new_session_def)

lemma start_ok: "console_ok ex w (start_console inputs mw w)"
  by (auto simp: console_ok_def queue_defs sessions_ok_def start_console_def publications_def intro: new_session_ok)
    (simp add: new_session_def)

lemma accept_session_ok: "console_ok ex w0 s \<Longrightarrow> console_ok ex w0 (accept_session input s)"
proof -
  assume ok: "console_ok ex w0 s"
  let ?l = "cs_sessions s @ [new_session input]"
  have "set (se_jobs (?l ! a)) \<inter> set (se_jobs (?l ! b)) = {}" if "a < length ?l" "b < length ?l" "a \<noteq> b" for a b
    using ok that by (auto simp: console_ok_def sessions_ok_def nth_append less_Suc_eq new_session_def)
  then show ?thesis using ok
    by (auto simp: accept_session_def console_ok_def queue_defs sessions_ok_def new_session_ok)
qed

lemma submit_cases:
  "snd (control_submit_dds line s) = s \<or>
   (\<exists>l. \<not> cs_controlStop s \<and> snd (control_submit_dds line s) = PushJob \<lparr>jb_line = l, jb_resp = [], jb_done = False, jb_dds = True\<rparr> s)"
  by (auto simp: control_submit_dds_def split: option.split)

lemma submit_ok: "console_ok ex w0 s \<Longrightarrow> console_ok ex w0 (snd (control_submit_dds line s))"
proof -
  assume ok: "console_ok ex w0 s"
  consider "snd (control_submit_dds line s) = s" | l where
      "snd (control_submit_dds line s) = PushJob \<lparr>jb_line = l, jb_resp = [], jb_done = False, jb_dds = True\<rparr> s"
    using submit_cases by blast
  then show ?thesis
  proof cases
    case (2 l)
    let ?s' = "PushJob \<lparr>jb_line = l, jb_resp = [], jb_done = False, jb_dds = True\<rparr> s"
    have "queue_ok ex w0 ?s'" by (rule push_ok) (use ok in \<open>simp_all add: console_ok_def\<close>)
    moreover have "sessions_ok ?s'"
      by (rule sessions_ok_grow [of s]) (use ok in \<open>auto simp: console_ok_def PushJob_def jobs_grow_def nth_append\<close>)
    ultimately show ?thesis using 2 by (simp add: console_ok_def)
  qed (use ok in simp)
qed

lemma cstep_ok: "cstep ex s s' \<Longrightarrow> console_ok ex w0 s \<Longrightarrow> console_ok ex w0 s'"
proof (induction rule: cstep.induct)
  case (console_stop s)
  then show ?case by (simp add: console_stop_flag_def console_ok_def queue_defs sessions_ok_def)
qed (auto intro: session_read_ok session_reply_ok control_wait_ok control_run_ok control_stop_ok submit_ok accept_session_ok)

lemma creach_ok: "creach ex s0 s \<Longrightarrow> console_ok ex w0 s0 \<Longrightarrow> console_ok ex w0 s"
  by (induction rule: creach.induct) (auto intro: cstep_ok)

text \<open>A connection's chunks are not confused with another's.\<close>

lemma cstep_conn:
  "cstep ex s s' \<Longrightarrow> length (cs_sessions s) \<le> length (cs_sessions s') \<and>
     (\<forall>i < length (cs_sessions s). se_conn (cs_sessions s' ! i) = se_conn (cs_sessions s ! i))"
proof (induction rule: cstep.induct)
  case (read i s)
  obtain ok line ov rest where "ReadLine (se_input (cs_sessions s ! i)) [] False = (ok, line, ov, rest)" by (metis prod_cases4)
  with read show ?case by (auto simp: session_read_def set_session_def PushJob_def Let_def nth_list_update)
next
  case (run s j)
  have "cs_sessions (control_run ex j s) = cs_sessions s"
    by (simp add: control_run_def PublishCtlResp_def Let_def split: option.split prod.split)
  then show ?case by simp
qed (auto simp: session_reply_def set_session_def Let_def nth_list_update control_submit_dds_def PushJob_def control_wait_def
    control_stop_def console_stop_flag_def accept_session_def nth_append split: option.split list.split)

lemma creach_conn:
  "creach ex s0 s \<Longrightarrow> length (cs_sessions s0) \<le> length (cs_sessions s) \<and>
     (\<forall>i < length (cs_sessions s0). se_conn (cs_sessions s ! i) = se_conn (cs_sessions s0 ! i))"
proof (induction rule: creach.induct)
  case (step s s')
  with cstep_conn [OF step.hyps(2)] show ?case by simp
qed simp

text \<open>C26: Commands are executed one at a time in the order they were queued, from whichever session
  or the remote channel, and every answer belongs to its line. In every reachable state the
  executed jobs, the running one and the queued ones stand in the order of their submission;
  running the executed lines one after another from the start gives exactly the stored responses
  and the present state of the process; every other finished job was answered with "control
  stopped" by \<open>control_stop\<close>; what was published are the responses of the executed remote
  commands, in that order. The jobs of a session are, in order, the lines of its own connection;
  no two sessions share a job and no local job is without a session; what the session has sent
  are the responses of the first of its jobs, in order, all of them finished, and at most its
  last job is unanswered.\<close>

theorem Console_serializes:
  assumes "creach ex (start_console inputs mw w0) s"
  shows "sorted_wrt (<) (cs_executed s @ run_of (cs_control s) @ cs_queue s) \<and>
    exec_all ex (map (\<lambda>j. jb_line (cs_jobs s ! j)) (cs_executed s)) w0 =
      Some (map (\<lambda>j. jb_resp (cs_jobs s ! j)) (cs_executed s), cs_world s) \<and>
    (\<forall>j < length (cs_jobs s). jb_done (cs_jobs s ! j) \<longleftrightarrow> j \<in> set (cs_executed s) \<union> set (cs_dropped s)) \<and>
    (\<forall>j \<in> set (cs_dropped s). cs_controlStop s \<and> jb_resp (cs_jobs s ! j) = ''control stopped'') \<and>
    cs_published s = (if cs_mw s then publications (cs_jobs s) (cs_executed s) else []) \<and>
    (\<forall>i < length inputs. i < length (cs_sessions s) \<and> se_conn (cs_sessions s ! i) = inputs ! i) \<and>
    (\<forall>e \<in> set (cs_sessions s).
       map (\<lambda>j. jb_line (cs_jobs s ! j)) (se_jobs e) = take (length (se_jobs e)) (session_lines (se_conn e)) \<and>
       se_replies e = map (\<lambda>j. jb_resp (cs_jobs s ! j) @ kRespDelim) (take (length (se_replies e)) (se_jobs e)) \<and>
       (\<forall>j \<in> set (take (length (se_replies e)) (se_jobs e)). jb_done (cs_jobs s ! j)) \<and>
       length (se_jobs e) \<le> Suc (length (se_replies e))) \<and>
    (\<forall>i < length (cs_sessions s). \<forall>k < length (cs_sessions s). i \<noteq> k \<longrightarrow>
       set (se_jobs (cs_sessions s ! i)) \<inter> set (se_jobs (cs_sessions s ! k)) = {}) \<and>
    (\<forall>j < length (cs_jobs s). \<not> jb_dds (cs_jobs s ! j) \<longrightarrow> (\<exists>e \<in> set (cs_sessions s). j \<in> set (se_jobs e)))"
proof -
  have ok: "order_ok s" "jobs_ok s" "results_ok ex w0 s" "sessions_ok s"
    using creach_ok [OF assms start_ok] by (simp_all add: console_ok_def queue_ok_def)
  have finished: "\<forall>j < length (cs_jobs s). jb_done (cs_jobs s ! j) \<longleftrightarrow> j \<in> set (cs_executed s) \<union> set (cs_dropped s)"
  proof (intro allI impI)
    fix j assume "j < length (cs_jobs s)"
    then have "j \<in> set (cs_executed s @ run_of (cs_control s) @ cs_queue s) \<union> set (cs_dropped s)"
      using ok(1) unfolding order_ok_def by blast
    then show "jb_done (cs_jobs s ! j) \<longleftrightarrow> j \<in> set (cs_executed s) \<union> set (cs_dropped s)" using ok(2) unfolding jobs_ok_def by auto
  qed
  have dropped: "\<forall>j \<in> set (cs_dropped s). cs_controlStop s \<and> jb_resp (cs_jobs s ! j) = ''control stopped''"
    using ok(1,2) unfolding order_ok_def jobs_ok_def by (metis empty_iff list.set(1))
  have conn: "\<forall>i < length inputs. i < length (cs_sessions s) \<and> se_conn (cs_sessions s ! i) = inputs ! i"
    using creach_conn [OF assms] by (simp add: start_console_def new_session_def)
  have ses: "\<forall>e \<in> set (cs_sessions s).
       map (\<lambda>j. jb_line (cs_jobs s ! j)) (se_jobs e) = take (length (se_jobs e)) (session_lines (se_conn e)) \<and>
       se_replies e = map (\<lambda>j. jb_resp (cs_jobs s ! j) @ kRespDelim) (take (length (se_replies e)) (se_jobs e)) \<and>
       (\<forall>j \<in> set (take (length (se_replies e)) (se_jobs e)). jb_done (cs_jobs s ! j)) \<and>
       length (se_jobs e) \<le> Suc (length (se_replies e))"
  proof
    fix e assume "e \<in> set (cs_sessions s)"
    then have "session_ok (cs_jobs s) e" using ok(4) by (simp add: sessions_ok_def)
    then show "map (\<lambda>j. jb_line (cs_jobs s ! j)) (se_jobs e) = take (length (se_jobs e)) (session_lines (se_conn e)) \<and>
       se_replies e = map (\<lambda>j. jb_resp (cs_jobs s ! j) @ kRespDelim) (take (length (se_replies e)) (se_jobs e)) \<and>
       (\<forall>j \<in> set (take (length (se_replies e)) (se_jobs e)). jb_done (cs_jobs s ! j)) \<and>
       length (se_jobs e) \<le> Suc (length (se_replies e))"
      using session_jobs_le [of "cs_jobs s" e] unfolding session_ok_def by metis
  qed
  show ?thesis
    by (intro conjI finished dropped conn ses ok(1) [unfolded order_ok_def, THEN conjunct1] ok(3) [unfolded results_ok_def, THEN conjunct1]
      ok(3) [unfolded results_ok_def, THEN conjunct2] ok(4) [unfolded sessions_ok_def, THEN conjunct2, THEN conjunct1]
      ok(4) [unfolded sessions_ok_def, THEN conjunct2, THEN conjunct2])
qed

text \<open>Two sessions with a line each; the second one's line is queued first.\<close>

definition shout :: "string \<Rightarrow> nat \<Rightarrow> (string \<times> nat) option" where
  "shout l w = Some (l @ ''!'', Suc w)"

definition two_sessions :: "nat console" where
  "two_sessions = session_reply 0 1 True (session_reply 1 0 True (control_run shout 1 (control_wait (control_run shout 0 (control_wait
     (session_read 0 (session_read 1 (start_console [[''a'' @ newline], [''b'' @ newline]] True 0))))))))"

lemma two_sessions: "creach shout (start_console [[''a'' @ newline], [''b'' @ newline]] True 0) two_sessions"
    "cs_executed two_sessions = [0, 1]" "map jb_line (cs_jobs two_sessions) = [''b'', ''a'']"
    "map se_replies (cs_sessions two_sessions) = [[''a!'' @ kRespDelim], [''b!'' @ kRespDelim]]"
    "map se_jobs (cs_sessions two_sessions) = [[1], [0]]"
proof -
  let ?s0 = "start_console [[''a'' @ newline], [''b'' @ newline]] True (0 :: nat)"
  define s1 where "s1 = session_read 1 ?s0"
  define s2 where "s2 = session_read 0 s1"
  define s3 where "s3 = control_wait s2"
  define s4 where "s4 = control_run shout 0 s3"
  define s5 where "s5 = control_wait s4"
  define s6 where "s6 = control_run shout 1 s5"
  define s7 where "s7 = session_reply 1 0 True s6"
  have two: "two_sessions = session_reply 0 1 True s7"
    by (simp only: two_sessions_def s1_def s2_def s3_def s4_def s5_def s6_def s7_def)
  note defs = s7_def s6_def s5_def s4_def s3_def s2_def s1_def
  have "creach shout ?s0 s1" unfolding s1_def
    by (rule creach.step [OF creach.start cstep.read]) (simp_all add: start_console_def new_session_def)
  then have "creach shout ?s0 s2" unfolding s2_def
    by (rule creach.step [OF _ cstep.read]) (unfold defs, code_simp+)
  then have "creach shout ?s0 s3" unfolding s3_def
    by (rule creach.step [OF _ cstep.wait]) (unfold defs, code_simp+)
  then have "creach shout ?s0 s4" unfolding s4_def
    by (rule creach.step [OF _ cstep.run]) (unfold defs, code_simp)
  then have "creach shout ?s0 s5" unfolding s5_def
    by (rule creach.step [OF _ cstep.wait]) (unfold defs, code_simp+)
  then have "creach shout ?s0 s6" unfolding s6_def
    by (rule creach.step [OF _ cstep.run]) (unfold defs, code_simp)
  then have "creach shout ?s0 s7" unfolding s7_def
    by (rule creach.step [OF _ cstep.reply]) (unfold defs, code_simp+)
  then show "creach shout ?s0 two_sessions" unfolding two
    by (rule creach.step [OF _ cstep.reply]) (unfold defs, code_simp+)
  show "cs_executed two_sessions = [0, 1]" "map jb_line (cs_jobs two_sessions) = [''b'', ''a'']"
    "map se_replies (cs_sessions two_sessions) = [[''a!'' @ kRespDelim], [''b!'' @ kRespDelim]]"
    "map se_jobs (cs_sessions two_sessions) = [[1], [0]]"
    by code_simp+
qed

theorem Console_serializes_witness:
  "exec_all shout (map (\<lambda>j. jb_line (cs_jobs two_sessions ! j)) (cs_executed two_sessions)) 0 =
      Some (map (\<lambda>j. jb_resp (cs_jobs two_sessions ! j)) (cs_executed two_sessions), cs_world two_sessions) \<and>
   map se_replies (cs_sessions two_sessions) = [[''a!'' @ kRespDelim], [''b!'' @ kRespDelim]] \<and>
   map se_jobs (cs_sessions two_sessions) = [[1], [0]] \<and> cs_executed two_sessions = [0, 1]"
  using Console_serializes [OF two_sessions(1)] two_sessions(2,4,5) by simp

text \<open>Progress of the control thread alone.\<close>

lemma drain:
  assumes "\<forall>k \<in> set (cs_queue s). \<forall>w. ex (jb_line (cs_jobs s ! k)) w \<noteq> None" "cs_control s = Idle"
  shows "\<exists>s'. creach ex s s' \<and> cs_queue s' = [] \<and> cs_control s' = Idle \<and> cs_executed s' = cs_executed s @ cs_queue s \<and>
    cs_dropped s' = cs_dropped s"
  using assms
proof (induction "cs_queue s" arbitrary: s)
  case Nil
  then show ?case using creach.start [of ex s] by (intro exI [of _ s]) simp
next
  case (Cons j q)
  let ?s1 = "control_wait s"
  let ?s2 = "control_run ex j ?s1"
  have s1: "cs_control ?s1 = Running j" "cs_queue ?s1 = q" "cs_executed ?s1 = cs_executed s" "cs_dropped ?s1 = cs_dropped s"
    "cs_jobs ?s1 = cs_jobs s"
    using Cons.hyps(2) [symmetric] by (simp_all add: control_wait_def)
  have q: "\<forall>k \<in> set (j # q). \<forall>w. ex (jb_line (cs_jobs s ! k)) w \<noteq> None" using Cons.prems(1) Cons.hyps(2) by simp
  then obtain r w where e: "ex (jb_line (cs_jobs ?s1 ! j)) (cs_world ?s1) = Some (r, w)"
    unfolding s1(5) by (metis list.set_intros(1) not_Some_eq surj_pair)
  have "jb_line ((cs_jobs s)[j := (cs_jobs s ! j)\<lparr>jb_resp := r, jb_done := True\<rparr>] ! k) = jb_line (cs_jobs s ! k)" for k
    by (cases "k = j"; cases "j < length (cs_jobs s)") (simp_all add: list_update_beyond)
  then have l2: "jb_line (cs_jobs ?s2 ! k) = jb_line (cs_jobs s ! k)" for k
    using e s1(5) by (simp add: control_run_def Let_def PublishCtlResp_def)
  have s2: "cs_control ?s2 = Idle" "cs_queue ?s2 = q" "cs_executed ?s2 = cs_executed s @ [j]" "cs_dropped ?s2 = cs_dropped s"
    using e s1 by (simp_all add: control_run_def Let_def PublishCtlResp_def)
  have "cstep ex s ?s1" by (rule cstep.wait) (use Cons.prems(2) Cons.hyps(2) in auto)
  moreover have "cstep ex ?s1 ?s2" using s1(1) by (rule cstep.run)
  ultimately have r: "creach ex s ?s2" by (meson creach.start creach.step)
  obtain s' where s': "creach ex ?s2 s'" "cs_queue s' = []" "cs_control s' = Idle" "cs_executed s' = cs_executed ?s2 @ cs_queue ?s2"
    "cs_dropped s' = cs_dropped ?s2"
    using Cons.hyps(1) [of ?s2] s2(1,2) q l2 by auto
  have "creach ex s s'" using s'(1) r by (induction rule: creach.induct) (auto intro: creach.step)
  then show ?case using s' s2 Cons.hyps(2) [symmetric] by (intro exI [of _ s']) simp
qed

text \<open>After the control thread has gone, nothing answers a queued job.\<close>

definition stuck :: "nat \<Rightarrow> nat \<Rightarrow> 'w console \<Rightarrow> bool" where
  "stuck i j s \<longleftrightarrow> cs_control s = Exited \<and> cs_controlStop s \<and> j \<in> set (cs_queue s) \<and> j < length (cs_jobs s) \<and> \<not> jb_done (cs_jobs s ! j) \<and>
     i < length (cs_sessions s) \<and> se_phase (cs_sessions s ! i) = Waiting j"

lemma session_read_stuck:
  assumes "stuck i j s" "k < length (cs_sessions s)" "se_phase (cs_sessions s ! k) = Reading"
  shows "stuck i j (session_read k s)"
proof -
  have "k \<noteq> i" using assms by (auto simp: stuck_def)
  moreover obtain ok line ov rest where "ReadLine (se_input (cs_sessions s ! k)) [] False = (ok, line, ov, rest)" by (metis prod_cases4)
  ultimately show ?thesis using assms(1)
    by (auto simp: session_read_def stuck_def set_session_def PushJob_def Let_def nth_append)
qed

lemma cstep_stuck: "cstep ex s s' \<Longrightarrow> stuck i j s \<Longrightarrow> stuck i j s'"
proof (induction rule: cstep.induct)
  case (read k s)
  then show ?case by (intro session_read_stuck)
next
  case (reply k s m sent)
  have "m \<noteq> j" using reply by (auto simp: stuck_def)
  then have "k \<noteq> i" using reply by (auto simp: stuck_def)
  then show ?case using reply by (simp add: stuck_def session_reply_def set_session_def Let_def)
next
  case (submit s line)
  with submit_cases [of line s] show ?case by (auto simp: stuck_def)
next
  case (accept s input)
  then show ?case by (auto simp: stuck_def accept_session_def nth_append)
qed (auto simp: stuck_def console_stop_flag_def)

text \<open>The lines that the executor of the control thread gets through: those with a token, and blank ones.\<close>

definition executable_line :: "string \<Rightarrow> bool" where
  "executable_line l \<longleftrightarrow> tokens l \<noteq> [] \<or> (\<forall>c \<in> set l. trim_char c)"

lemma control_exec_None:
  assumes "\<forall>c \<in> set m. cd_fn c \<noteq> None"
  shows "control_exec run m l w = None \<longleftrightarrow> \<not> executable_line l"
proof -
  have "cd_fn cmd \<noteq> None" if "Find_cmd n m = Some cmd" for n cmd
    using assms that by (auto simp: Find_cmd_def find_Some_iff)
  note cmd = this
  show ?thesis
  proof (cases "tokens l")
    case (Cons t args)
    then show ?thesis using cmd [of "c_str t"]
      by (cases "Find_cmd (c_str t) m") (auto simp: control_exec_def executable_line_def Execute_tokens)
  qed (simp add: control_exec_def executable_line_def Execute_tokens)
qed

text \<open>Such a state is reached: stop, the control thread leaves, a session reads a line.\<close>

definition late_line :: "nat console" where
  "late_line = session_read 0 (control_wait (control_stop (start_console [[''help'' @ newline]] True 0)))"

lemma late_line: "stuck 0 0 late_line" "creach ex (start_console [[''help'' @ newline]] True 0) late_line"
proof -
  let ?s0 = "start_console [[''help'' @ newline]] True (0 :: nat)"
  have r: "ReadLine [''help'' @ [CHR 0x0A]] [] False = (True, ''help'', False, [])" by code_simp
  show "stuck 0 0 late_line"
    by (simp add: late_line_def control_stop_def start_console_def control_wait_def session_read_def PushJob_def set_session_def stuck_def Let_def
        new_session_def newline_def r [simplified])
  have a: "creach ex ?s0 (control_stop ?s0)"
    by (rule creach.step [OF creach.start cstep.stop]) (simp add: start_console_def)
  have b: "creach ex ?s0 (control_wait (control_stop ?s0))"
    by (rule creach.step [OF a cstep.wait]) (simp_all add: start_console_def control_stop_def)
  show "creach ex ?s0 late_line"
    unfolding late_line_def
    by (rule creach.step [OF b cstep.read]) (simp_all add: start_console_def control_stop_def control_wait_def new_session_def)
qed

text \<open>C38: Answers come, while the control thread lives. With the executor of the control thread, every
  command of the registry having its function: from any reachable state in which the control
  thread waits and every queued line has a token or is blank, it reaches by itself a state where
  the queue is empty and every job of it has been executed and answered. Of a line without a
  token that is not blank (a vertical tab, say) the execution is undefined, and the thread does
  not get past it. A session that queues a line after the control thread has ended waits for
  ever: in every later state it is still waiting for that job and the job is still not done,
  also after \<open>console_stop\<close>.\<close>

theorem Console_answers:
  assumes "creach (control_exec run m) (start_console inputs mw w0) s" "cs_control s = Idle"
    "\<forall>c \<in> set m. cd_fn c \<noteq> None" "stuck i j t" "creach (control_exec run m) t t'"
  shows "((\<forall>k \<in> set (cs_queue s). executable_line (jb_line (cs_jobs s ! k))) \<longrightarrow>
      (\<exists>s'. creach (control_exec run m) s s' \<and> cs_queue s' = [] \<and> cs_executed s' = cs_executed s @ cs_queue s \<and>
        (\<forall>k \<in> set (cs_queue s). jb_done (cs_jobs s' ! k)))) \<and>
    (\<forall>k q. cs_queue s = k # q \<and> \<not> executable_line (jb_line (cs_jobs s ! k)) \<longrightarrow>
      cs_control (control_run (control_exec run m) k (control_wait s)) = Crashed k) \<and>
    se_phase (cs_sessions t' ! i) = Waiting j \<and> \<not> jb_done (cs_jobs t' ! j)"
proof -
  let ?ex = "control_exec run m"
  have "\<exists>s'. creach ?ex s s' \<and> cs_queue s' = [] \<and> cs_executed s' = cs_executed s @ cs_queue s \<and>
      (\<forall>k \<in> set (cs_queue s). jb_done (cs_jobs s' ! k))"
    if "\<forall>k \<in> set (cs_queue s). executable_line (jb_line (cs_jobs s ! k))"
  proof -
    have "\<forall>k \<in> set (cs_queue s). \<forall>w. ?ex (jb_line (cs_jobs s ! k)) w \<noteq> None"
      using that by (simp add: control_exec_None [OF assms(3)])
    then obtain s' where s': "creach ?ex s s'" "cs_queue s' = []" "cs_executed s' = cs_executed s @ cs_queue s"
      using drain [of s ?ex] assms(2) by blast
    have "console_ok ?ex w0 s'" by (rule creach_ok [OF s'(1) creach_ok [OF assms(1) start_ok]])
    then have "\<forall>k \<in> set (cs_queue s). jb_done (cs_jobs s' ! k)"
      using s'(3) by (simp add: console_ok_def queue_ok_def jobs_ok_def)
    with s' show ?thesis by blast
  qed
  moreover have "cs_control (control_run ?ex k (control_wait s)) = Crashed k"
    if "cs_queue s = k # q" "\<not> executable_line (jb_line (cs_jobs s ! k))" for k q
  proof -
    have "?ex (jb_line (cs_jobs s ! k)) (cs_world s) = None" using that(2) by (simp add: control_exec_None [OF assms(3)])
    with that(1) show ?thesis by (simp add: control_run_def control_wait_def Let_def)
  qed
  moreover have "stuck i j t'" using assms(5,4) by (induction rule: creach.induct) (auto intro: cstep_stuck)
  ultimately show ?thesis by (auto simp: stuck_def)
qed

text \<open>A queued \<open>help\<close> with the program's registry.\<close>

definition one_help :: "nat console" where
  "one_help = snd (control_submit_dds (Some ''help'') (start_console [] True 0))"

definition run_help :: "cmd_fn \<Rightarrow> string list \<Rightarrow> string \<Rightarrow> nat \<Rightarrow> int \<times> string \<times> nat" where
  "run_help fn args out w = (let (rc, out1) = CmdHelp builtin_commands out in (rc, out1, Suc w))"

theorem Console_answers_witness:
  "(\<exists>s'. creach (control_exec run_help builtin_commands) one_help s' \<and> cs_queue s' = [] \<and> cs_executed s' = [0] \<and> jb_done (cs_jobs s' ! 0)) \<and>
   se_phase (cs_sessions late_line ! 0) = Waiting 0 \<and> \<not> jb_done (cs_jobs late_line ! 0)"
proof -
  have r: "creach (control_exec run_help builtin_commands) (start_console [] True 0) one_help"
    unfolding one_help_def by (rule creach.step [OF creach.start cstep.submit])
  have h: "cs_control one_help = Idle" "cs_queue one_help = [0]" "cs_executed one_help = []" "jb_line (cs_jobs one_help ! 0) = ''help''"
    by (simp_all add: one_help_def control_submit_dds_def start_console_def PushJob_def kMaxLineLen_def)
  have "tokens ''help'' = [''help'']" by code_simp
  then have "executable_line ''help''" by (simp add: executable_line_def)
  then show ?thesis
    using Console_answers [OF r h(1) _ late_line(1) creach.start] h by (simp add: builtin_commands_def)
qed

end
