(* ===== verification/Http_Sse.thy ===== *)
theory Http_Sse
  imports Prelude_Text
begin

text \<open>
  The web server's HTTP and event-stream server (\<open>webserver/src/http_sse.cpp\<close>): the request head, the
  routes, the responses as text, and the set of stream connections under joining, broadcasting,
  leaving and stopping. Each connection has a thread of its own; their interleavings with the
  broadcasts are the step relation \<open>hstep\<close>. Descriptors are numbers that the kernel gives out again
  after a close. A write goes to whatever connection has the descriptor open.
\<close>

section \<open>Requests and responses\<close>

definition crlf :: string where "crlf = [CHR 0x0D, CHR 0x0A]"
definition kMaxReqHead :: nat where "kMaxReqHead = 4096"

text \<open>\<open>ReadRequestHead\<close> over the chunks that \<open>recv\<close> returns; \<open>None\<close> is \<open>false\<close>.\<close>

fun ReadRequestHead :: "string list \<Rightarrow> string \<Rightarrow> string option" where
  "ReadRequestHead [] buf = None"
| "ReadRequestHead (chunk # chunks) buf =
    (if \<not> length buf < kMaxReqHead then None
     else if chunk = [] then None
     else let buf1 = buf @ chunk in
      (case find_sub (crlf @ crlf) buf1 of
         Some _ \<Rightarrow> (case find_sub crlf buf1 of
             Some eol \<Rightarrow> if take eol buf1 = [] then None else Some (take eol buf1)
           | None \<Rightarrow> if buf1 = [] then None else Some buf1)
       | None \<Rightarrow> ReadRequestHead chunks buf1))"

definition Respond :: "string \<Rightarrow> string \<Rightarrow> string \<Rightarrow> string \<Rightarrow> string" where
  "Respond status contentType body extraHead =
     ''HTTP/1.1 '' @ status @ crlf @ ''Content-Type: '' @ contentType @ crlf @
     ''Content-Length: '' @ dec_string (length body) @ crlf @ ''Connection: close'' @ crlf @ extraHead @ crlf @ body"

definition kSseHead :: string where
  "kSseHead = ''HTTP/1.1 200 OK'' @ crlf @ ''Content-Type: text/event-stream'' @ crlf @
     ''Cache-Control: no-cache'' @ crlf @ ''Connection: keep-alive'' @ crlf @ crlf"

text \<open>What a connection gets: nothing, one response, or the stream.\<close>

datatype reply = Close | Reply string | Stream

definition serve_line :: "string option \<Rightarrow> string \<Rightarrow> string \<Rightarrow> reply" where
  "serve_line stats index firstLine =
    (case (find_sub '' '' firstLine, rfind_sub '' '' firstLine) of
       (Some sp1, Some sp2) \<Rightarrow>
         if sp2 = sp1 then Close
         else let meth = take sp1 firstLine; path = take (sp2 - sp1 - 1) (drop (sp1 + 1) firstLine) in
           if meth \<noteq> ''GET'' then Reply (Respond ''405 Method Not Allowed'' ''text/plain'' (''GET only'' @ [CHR 0x0A]) [])
           else if path = ''/api/stream'' then Stream
           else if path = ''/api/stats'' then Reply (Respond ''200 OK'' ''application/json'' (case stats of Some j \<Rightarrow> j | None \<Rightarrow> ''{}'') [])
           else if path = ''/'' \<or> path = ''/index.html'' then Reply (Respond ''200 OK'' ''text/html; charset=utf-8'' index [])
           else Reply (Respond ''404 Not Found'' ''text/plain'' (''not found'' @ [CHR 0x0A]) [])
     | _ \<Rightarrow> Close)"

definition ServeConn :: "string option \<Rightarrow> string \<Rightarrow> string list \<Rightarrow> reply" where
  "ServeConn stats index chunks = (case ReadRequestHead chunks [] of None \<Rightarrow> Close | Some l \<Rightarrow> serve_line stats index l)"

section \<open>The server\<close>

datatype conn_phase = Fresh | Streaming | Gone

text \<open>A connection: its descriptor, where its thread is, what was written to it, and how many events came before it joined.\<close>

record conn =
  cn_fd :: nat
  cn_phase :: conn_phase
  cn_out :: "string list"
  cn_joined :: nat

record server =
  hs_running :: bool
  hs_index :: string
  hs_port :: u16
  hs_streams :: "nat list"
  hs_conns :: "conn list"
  hs_events :: "string list"

text \<open>\<open>Start\<close>: the page must not be empty, and socket, \<open>bind\<close> and \<open>listen\<close> must succeed.\<close>

definition Start_http :: "u16 \<Rightarrow> string \<Rightarrow> bool \<Rightarrow> bool \<Rightarrow> server \<Rightarrow> int \<times> server" where
  "Start_http prt page socket_ok bind_ok s =
    (let s1 = s\<lparr>hs_index := page\<rparr> in
     if page = [] then (- 1, s1)
     else let s2 = s1\<lparr>hs_port := prt\<rparr> in
       if \<not> socket_ok then (- 1, s2)
       else if \<not> bind_ok then (- 1, s2)
       else (0, s2\<lparr>hs_running := True\<rparr>))"

definition new_server :: server where
  "new_server = \<lparr>hs_running = False, hs_index = [], hs_port = 0, hs_streams = [], hs_conns = [], hs_events = []\<rparr>"

text \<open>\<open>Stop\<close>: the flag; the shutdown of the streams makes their threads leave.\<close>

definition Stop_http :: "server \<Rightarrow> server" where
  "Stop_http s = (if hs_running s then s\<lparr>hs_running := False\<rparr> else s)"

definition is_open :: "conn \<Rightarrow> bool" where
  "is_open c \<longleftrightarrow> cn_phase c \<noteq> Gone"

definition accept_conn :: "nat \<Rightarrow> server \<Rightarrow> server" where
  "accept_conn fd s = s\<lparr>hs_conns := hs_conns s @ [\<lparr>cn_fd = fd, cn_phase = Fresh, cn_out = [], cn_joined = 0\<rparr>]\<rparr>"

definition set_conn :: "nat \<Rightarrow> conn \<Rightarrow> server \<Rightarrow> server" where
  "set_conn i c s = s\<lparr>hs_conns := (hs_conns s)[i := c]\<rparr>"

text \<open>\<open>std::set\<close> insertion and erasure on the ordered list of its elements.\<close>

definition set_insert :: "nat \<Rightarrow> nat list \<Rightarrow> nat list" where
  "set_insert x xs = (if x \<in> set xs then xs else insort x xs)"

text \<open>\<open>ServeStream\<close> up to its blocking \<open>recv\<close>, and after it.\<close>

definition stream_enter :: "nat \<Rightarrow> bool \<Rightarrow> server \<Rightarrow> server" where
  "stream_enter i sent s = (let c = hs_conns s ! i in
     if sent then set_conn i (c\<lparr>cn_phase := Streaming, cn_out := cn_out c @ [kSseHead], cn_joined := length (hs_events s)\<rparr>)
          (s\<lparr>hs_streams := set_insert (cn_fd c) (hs_streams s)\<rparr>)
     else set_conn i (c\<lparr>cn_phase := Gone\<rparr>) s)"

definition stream_leave :: "nat \<Rightarrow> server \<Rightarrow> server" where
  "stream_leave i s = (let c = hs_conns s ! i in
     set_conn i (c\<lparr>cn_phase := Gone\<rparr>) (s\<lparr>hs_streams := filter (\<lambda>f. f \<noteq> cn_fd c) (hs_streams s)\<rparr>))"

text \<open>\<open>ServeConn\<close> on connection \<open>i\<close>; the stats text is what the provider returns now.\<close>

definition serve :: "nat \<Rightarrow> string option \<Rightarrow> string list \<Rightarrow> bool \<Rightarrow> server \<Rightarrow> server" where
  "serve i stats chunks sent s = (let c = hs_conns s ! i in
     case ServeConn stats (hs_index s) chunks of
       Close \<Rightarrow> set_conn i (c\<lparr>cn_phase := Gone\<rparr>) s
     | Reply r \<Rightarrow> set_conn i (c\<lparr>cn_phase := Gone, cn_out := cn_out c @ (if sent then [r] else [])\<rparr>) s
     | Stream \<Rightarrow> stream_enter i sent s)"

text \<open>\<open>Broadcast\<close>: \<open>ok fd\<close> tells whether the write succeeds; a failing descriptor leaves the set.\<close>

definition sse_text :: "string \<Rightarrow> string \<Rightarrow> string" where
  "sse_text event json = ''event: '' @ event @ [CHR 0x0A] @ ''data: '' @ json @ [CHR 0x0A, CHR 0x0A]"

definition Broadcast :: "string \<Rightarrow> string \<Rightarrow> (nat \<Rightarrow> bool) \<Rightarrow> server \<Rightarrow> server" where
  "Broadcast event json ok s =
    (let msg = sse_text event json in
     s\<lparr>hs_streams := filter ok (hs_streams s),
       hs_conns := map (\<lambda>c. if is_open c \<and> cn_fd c \<in> set (hs_streams s) \<and> ok (cn_fd c) then c\<lparr>cn_out := cn_out c @ [msg]\<rparr> else c) (hs_conns s),
       hs_events := hs_events s @ [msg]\<rparr>)"

inductive hstep :: "server \<Rightarrow> server \<Rightarrow> bool" where
  accept: "hs_running s \<Longrightarrow> \<forall>c \<in> set (hs_conns s). is_open c \<longrightarrow> cn_fd c \<noteq> fd \<Longrightarrow> hstep s (accept_conn fd s)"
| serve: "i < length (hs_conns s) \<Longrightarrow> cn_phase (hs_conns s ! i) = Fresh \<Longrightarrow> hstep s (serve i stats chunks sent s)"
| leave: "i < length (hs_conns s) \<Longrightarrow> cn_phase (hs_conns s ! i) = Streaming \<Longrightarrow> hstep s (stream_leave i s)"
| broadcast: "hstep s (Broadcast event json ok s)"
| stop: "hstep s (Stop_http s)"
| listen: "\<not> hs_running s \<Longrightarrow> hstep s (snd (Start_http prt page socket_ok bind_ok s))"

inductive hreach :: "server \<Rightarrow> server \<Rightarrow> bool" for s0 where
  start: "hreach s0 s0"
| step: "hreach s0 s \<Longrightarrow> hstep s s' \<Longrightarrow> hreach s0 s'"

section \<open>Request routing\<close>

lemma find_sub_prefix:
  assumes "find_sub pat (xs @ ys) = Some i"
  shows "i + length pat \<le> length xs \<Longrightarrow> find_sub pat xs = Some i" and "length xs < i + length pat \<Longrightarrow> find_sub pat xs = None"
proof -
  have other: "take (length pat) (drop j (xs @ ys)) = take (length pat) (drop j xs)" if "j + length pat \<le> length xs" for j
    using that by simp
  show "find_sub pat xs = Some i" if a: "i + length pat \<le> length xs"
  proof (rule find_sub_eqI [OF _ a])
    show "take (length pat) (drop i xs) = pat" using find_sub_Some [OF assms] other [OF a] by simp
    show "take (length pat) (drop j xs) \<noteq> pat" if "j < i" for j
      using find_sub_first [OF assms that] other [of j] a that by simp
  qed
  show "find_sub pat xs = None" if "length xs < i + length pat"
  proof (rule ccontr)
    assume "find_sub pat xs \<noteq> None"
    then obtain j where j: "find_sub pat xs = Some j" by blast
    have "j < i" using find_sub_Some [OF j] that by simp
    then show False using find_sub_first [OF assms, of j] find_sub_Some [OF j] other [of j] by simp
  qed
qed

lemma find_shorter:
  assumes "find_sub (p @ q) s = Some e"
  shows "\<exists>i \<le> e. find_sub p s = Some i"
proof -
  have o: "e + length p \<le> length s" "take (length p) (drop e s) = p"
    using find_sub_Some [OF assms] by (auto simp: take_add)
  then obtain i where i: "find_sub p s = Some i" using find_sub_None [of p s e] by (cases "find_sub p s") auto
  moreover have "i \<le> e" using find_sub_first [OF i, of e] o(2) by (cases "e < i") auto
  ultimately show ?thesis by blast
qed

lemma find_sub_longer: "find_sub p xs \<noteq> None \<Longrightarrow> find_sub p (xs @ ys) \<noteq> None"
proof -
  assume "find_sub p xs \<noteq> None"
  then obtain i where i: "find_sub p xs = Some i" by blast
  have "i + length p \<le> length (xs @ ys)" "take (length p) (drop i (xs @ ys)) = p"
    using find_sub_Some [OF i] by simp_all
  then show ?thesis using find_sub_None [of p "xs @ ys" i] by auto
qed

text \<open>
  The chunk that completes the request head, behind the bytes received before: no chunk up to it is
  empty (a closed connection), fewer than 4096 bytes came before it, and with it the blank line is
  there for the first time. And the first line of a text.
\<close>

definition head_behind :: "string \<Rightarrow> string list \<Rightarrow> nat \<Rightarrow> bool" where
  "head_behind buf chunks k \<longleftrightarrow> k < length chunks \<and> (\<forall>c \<in> set (take (Suc k) chunks). c \<noteq> []) \<and>
     length (buf @ concat (take k chunks)) < 4096 \<and> find_sub (crlf @ crlf) (buf @ concat (take k chunks)) = None \<and>
     find_sub (crlf @ crlf) (buf @ concat (take (Suc k) chunks)) \<noteq> None"

definition head_at :: "string list \<Rightarrow> nat \<Rightarrow> bool" where
  "head_at chunks k \<longleftrightarrow> head_behind [] chunks k"

definition first_line :: "string \<Rightarrow> string" where
  "first_line t = (case find_sub crlf t of Some eol \<Rightarrow> take eol t | None \<Rightarrow> t)"

lemma ReadRequestHead_Cons:
  "ReadRequestHead (c # cs) buf = (if 4096 \<le> length buf \<or> c = [] then None
     else if find_sub (crlf @ crlf) (buf @ c) \<noteq> None then (if first_line (buf @ c) = [] then None else Some (first_line (buf @ c)))
     else ReadRequestHead cs (buf @ c))"
  by (simp add: kMaxReqHead_def first_line_def Let_def split: option.split)

declare ReadRequestHead.simps(2) [simp del]

lemma ReadRequestHead_at:
  "head_behind buf chunks k \<Longrightarrow> ReadRequestHead chunks buf =
     (let l = first_line (buf @ concat (take (Suc k) chunks)) in if l = [] then None else Some l)"
proof (induction k arbitrary: buf chunks)
  case 0
  then obtain c cs where "chunks = c # cs" by (cases chunks) (auto simp: head_behind_def)
  with 0 show ?case by (simp add: head_behind_def ReadRequestHead_Cons Let_def)
next
  case (Suc k)
  then obtain c cs where c: "chunks = c # cs" by (cases chunks) (auto simp: head_behind_def)
  have h: "head_behind (buf @ c) cs k" "c \<noteq> []" "length buf < 4096" using Suc.prems by (simp_all add: head_behind_def c)
  have "find_sub (crlf @ crlf) ((buf @ c) @ concat (take k cs)) = None"
    using h(1) by (simp add: head_behind_def)
  then have "find_sub (crlf @ crlf) (buf @ c) = None" using find_sub_longer by metis
  then show ?case using Suc.IH [OF h(1)] h(2,3) by (simp add: c ReadRequestHead_Cons)
qed

lemma ReadRequestHead_only:
  "ReadRequestHead chunks buf = Some l \<Longrightarrow> find_sub (crlf @ crlf) buf = None \<Longrightarrow> \<exists>k. head_behind buf chunks k"
proof (induction chunks arbitrary: buf)
  case (Cons c cs)
  show ?case
  proof (cases "find_sub (crlf @ crlf) (buf @ c)")
    case None
    then have "ReadRequestHead cs (buf @ c) = Some l" "c \<noteq> []"
      using Cons.prems(1) by (simp_all add: ReadRequestHead_Cons split: if_splits)
    with Cons.IH [OF _ None] obtain k where "head_behind (buf @ c) cs k" by blast
    with \<open>c \<noteq> []\<close> have "head_behind buf (c # cs) (Suc k)" by (simp add: head_behind_def)
    then show ?thesis ..
  next
    case (Some i)
    then have "head_behind buf (c # cs) 0"
      using Cons.prems by (simp add: head_behind_def ReadRequestHead_Cons split: if_splits)
    then show ?thesis ..
  qed
qed simp

text \<open>A head of at most 4096 bytes is read however it is split into chunks, with the same first line.\<close>

lemma head_at_small:
  assumes "\<forall>c \<in> set chunks. c \<noteq> []" "find_sub (crlf @ crlf) (concat chunks) = Some e" "e + 4 \<le> 4096"
  shows "\<exists>k. head_at chunks k \<and> first_line (concat (take (Suc k) chunks)) = first_line (concat chunks)"
proof -
  let ?has = "\<lambda>k. find_sub (crlf @ crlf) (concat (take k chunks)) \<noteq> None"
  have len: "length (crlf @ crlf) = 4" "length crlf = 2" by (simp_all add: crlf_def)
  have "\<not> ?has 0" by (simp add: crlf_def)
  moreover have "?has (length chunks)" using assms(2) by simp
  ultimately obtain k where k: "k < length chunks" "\<forall>i \<le> k. \<not> ?has i" "?has (Suc k)"
    using ex_least_nat_less [of ?has "length chunks"] by auto
  have split: "concat chunks = concat (take m chunks) @ concat (drop m chunks)" for m
    by (metis append_take_drop_id concat_append)
  have "\<not> ?has k" using k(2) by blast
  then have "length (concat (take k chunks)) < e + 4"
    using find_sub_prefix(1) [OF assms(2) [unfolded split [of k]]] len by (cases "e + 4 \<le> length (concat (take k chunks))") auto
  then have h: "head_at chunks k"
    using k \<open>\<not> ?has k\<close> assms(1,3) by (auto simp: head_at_def head_behind_def dest: in_set_takeD)
  obtain eol where eol: "eol \<le> e" "find_sub crlf (concat chunks) = Some eol" using find_shorter [OF assms(2)] by blast
  have l: "e + 4 \<le> length (concat (take (Suc k) chunks))"
    using find_sub_prefix(2) [OF assms(2) [unfolded split [of "Suc k"]]] k(3) len by (metis not_less)
  then have "find_sub crlf (concat (take (Suc k) chunks)) = Some eol"
    using find_sub_prefix(1) [OF eol(2) [unfolded split [of "Suc k"]]] eol(1) len by simp
  moreover have "take eol (concat chunks) = take eol (concat (take (Suc k) chunks))"
    unfolding split [of "Suc k"] using l eol(1) by simp
  ultimately have "first_line (concat (take (Suc k) chunks)) = first_line (concat chunks)" by (simp add: first_line_def eol(2))
  with h show ?thesis by blast
qed

text \<open>A line with fewer than two blanks is not served; any other one has a first and a last blank.\<close>

lemma few_blanks:
  assumes "length (filter (\<lambda>c. c = CHR '' '') l) < 2"
  shows "serve_line stats index l = Close"
proof (cases "CHR '' '' \<in> set l")
  case True
  then obtain a b where l: "l = a @ CHR '' '' # b" "CHR '' '' \<notin> set a" by (meson split_list_first)
  then have "filter (\<lambda>c. c = CHR '' '') b = []" using assms by (simp add: filter_empty_conv)
  then have "CHR '' '' \<notin> set b" by (auto simp: filter_empty_conv)
  then show ?thesis using find_char_Some [OF l(2), of b] rfind_char_Some [of "CHR '' ''" b a] l
    by (simp add: serve_line_def)
qed (simp add: serve_line_def find_char)

lemma two_blanks:
  assumes "\<not> length (filter (\<lambda>c. c = CHR '' '') l) < 2"
  shows "\<exists>meth path ver. l = meth @ '' '' @ path @ '' '' @ ver \<and> CHR '' '' \<notin> set meth \<and> CHR '' '' \<notin> set ver"
proof -
  have "CHR '' '' \<in> set l"
  proof (rule ccontr)
    assume "CHR '' '' \<notin> set l"
    then have "filter (\<lambda>c. c = CHR '' '') l = []" by (auto simp: filter_empty_conv)
    then show False using assms by simp
  qed
  then obtain a b where l: "l = a @ CHR '' '' # b" "CHR '' '' \<notin> set a" by (meson split_list_first)
  have "CHR '' '' \<in> set b"
  proof (rule ccontr)
    assume "CHR '' '' \<notin> set b"
    then have "filter (\<lambda>c. c = CHR '' '') a = []" "filter (\<lambda>c. c = CHR '' '') b = []" using l(2) by (auto simp: filter_empty_conv)
    then show False using assms l(1) by simp
  qed
  then obtain p v where "b = p @ CHR '' '' # v" "CHR '' '' \<notin> set v" by (meson split_list_last)
  with l show ?thesis by (intro exI [of _ a] exI [of _ p] exI [of _ v]) simp
qed

lemma serve_line_words:
  assumes "CHR '' '' \<notin> set meth" "CHR '' '' \<notin> set ver"
  shows "serve_line stats index (meth @ '' '' @ path @ '' '' @ ver) =
    (if meth \<noteq> ''GET'' then Reply (Respond ''405 Method Not Allowed'' ''text/plain'' (''GET only'' @ [CHR 0x0A]) [])
     else if path = ''/api/stream'' then Stream
     else if path = ''/api/stats'' then Reply (Respond ''200 OK'' ''application/json'' (case stats of Some j \<Rightarrow> j | None \<Rightarrow> ''{}'') [])
     else if path = ''/'' \<or> path = ''/index.html'' then Reply (Respond ''200 OK'' ''text/html; charset=utf-8'' index [])
     else Reply (Respond ''404 Not Found'' ''text/plain'' (''not found'' @ [CHR 0x0A]) []))"
proof -
  let ?l = "meth @ '' '' @ path @ '' '' @ ver"
  have 1: "find_sub '' '' ?l = Some (length meth)"
    using find_char_Some [OF assms(1), of "path @ '' '' @ ver"] by simp
  have 2: "rfind_sub '' '' ?l = Some (length meth + 1 + length path)"
    using rfind_char_Some [OF assms(2), of "meth @ '' '' @ path"] by simp
  have 3: "take (length meth) ?l = meth" "take (length meth + 1 + length path - length meth - 1) (drop (length meth + 1) ?l) = path"
    by simp_all
  show ?thesis unfolding serve_line_def 1 2 using 3 by (simp add: Let_def)
qed

lemma serve_line_routed:
  assumes "\<not> length (filter (\<lambda>c. c = CHR '' '') l) < 2"
  shows "\<exists>meth path ver. l = meth @ '' '' @ path @ '' '' @ ver \<and> CHR '' '' \<notin> set meth \<and> CHR '' '' \<notin> set ver \<and>
        serve_line stats index l =
         (if meth \<noteq> ''GET'' then Reply (Respond ''405 Method Not Allowed'' ''text/plain'' (''GET only'' @ [CHR 0x0A]) [])
          else if path = ''/api/stream'' then Stream
          else if path = ''/api/stats'' then Reply (Respond ''200 OK'' ''application/json'' (case stats of Some j \<Rightarrow> j | None \<Rightarrow> ''{}'') [])
          else if path = ''/'' \<or> path = ''/index.html'' then Reply (Respond ''200 OK'' ''text/html; charset=utf-8'' index [])
          else Reply (Respond ''404 Not Found'' ''text/plain'' (''not found'' @ [CHR 0x0A]) []))"
proof -
  obtain meth path ver where l: "l = meth @ '' '' @ path @ '' '' @ ver" "CHR '' '' \<notin> set meth" "CHR '' '' \<notin> set ver"
    using two_blanks [OF assms] by blast
  note s = serve_line_words [OF l(2,3), of stats index path, folded l(1)]
  show ?thesis by (intro exI conjI) (rule l(1), rule l(2), rule l(3), rule s)
qed

text \<open>C40: Routing of requests, for every sequence of received chunks. The connection is closed without an
  answer unless some chunk completes a request head, that is unless the blank line arrives before
  the connection ends and with fewer than 4096 bytes in front of its last chunk; a head of at most
  4096 bytes does so however it is split, and with the same first line. The request line is then
  the text up to the first line end: with fewer than two blanks (an empty line among them) the
  connection is closed without an answer; otherwise it is a method up to the first blank, a path up
  to the last one, and a version, and it gets 405 for a method other than GET, the stream for
  /api/stream, the statistics as JSON for /api/stats, the page for / and /index.html, and 404
  otherwise; each single response states the exact length of its body and closes.\<close>

theorem Request_routing:
  "((\<nexists>k. head_at chunks k) \<longrightarrow> ServeConn stats index chunks = Close) \<and>
   (\<forall>e. (\<forall>c \<in> set chunks. c \<noteq> []) \<and> find_sub (crlf @ crlf) (concat chunks) = Some e \<and> e + 4 \<le> 4096 \<longrightarrow>
      (\<exists>k. head_at chunks k \<and> first_line (concat (take (Suc k) chunks)) = first_line (concat chunks))) \<and>
   (\<forall>k line. head_at chunks k \<and> line = first_line (concat (take (Suc k) chunks)) \<longrightarrow>
     (if length (filter (\<lambda>c. c = CHR '' '') line) < 2 then ServeConn stats index chunks = Close
      else (\<exists>meth path ver. line = meth @ '' '' @ path @ '' '' @ ver \<and> CHR '' '' \<notin> set meth \<and> CHR '' '' \<notin> set ver \<and>
        ServeConn stats index chunks =
         (if meth \<noteq> ''GET'' then Reply (Respond ''405 Method Not Allowed'' ''text/plain'' (''GET only'' @ [CHR 0x0A]) [])
          else if path = ''/api/stream'' then Stream
          else if path = ''/api/stats'' then Reply (Respond ''200 OK'' ''application/json'' (case stats of Some j \<Rightarrow> j | None \<Rightarrow> ''{}'') [])
          else if path = ''/'' \<or> path = ''/index.html'' then Reply (Respond ''200 OK'' ''text/html; charset=utf-8'' index [])
          else Reply (Respond ''404 Not Found'' ''text/plain'' (''not found'' @ [CHR 0x0A]) [])))))"
proof (intro conjI allI impI; (elim conjE)?)
  assume none: "\<nexists>k. head_at chunks k"
  have "find_sub (crlf @ crlf) [] = None" by (simp add: crlf_def)
  then have "ReadRequestHead chunks [] = None"
    using none ReadRequestHead_only [of chunks "[]"] unfolding head_at_def by (metis not_None_eq)
  then show "ServeConn stats index chunks = Close" by (simp add: ServeConn_def)
next
  fix e assume "\<forall>c \<in> set chunks. c \<noteq> []" "find_sub (crlf @ crlf) (concat chunks) = Some e" "e + 4 \<le> 4096"
  then show "\<exists>k. head_at chunks k \<and> first_line (concat (take (Suc k) chunks)) = first_line (concat chunks)" by (rule head_at_small)
next
  fix k line assume h: "head_at chunks k" and line: "line = first_line (concat (take (Suc k) chunks))"
  have r: "ReadRequestHead chunks [] = (if line = [] then None else Some line)"
    using ReadRequestHead_at [of "[]" chunks k] h by (simp add: head_at_def line Let_def)
  show "if length (filter (\<lambda>c. c = CHR '' '') line) < 2 then ServeConn stats index chunks = Close
      else (\<exists>meth path ver. line = meth @ '' '' @ path @ '' '' @ ver \<and> CHR '' '' \<notin> set meth \<and> CHR '' '' \<notin> set ver \<and>
        ServeConn stats index chunks =
         (if meth \<noteq> ''GET'' then Reply (Respond ''405 Method Not Allowed'' ''text/plain'' (''GET only'' @ [CHR 0x0A]) [])
          else if path = ''/api/stream'' then Stream
          else if path = ''/api/stats'' then Reply (Respond ''200 OK'' ''application/json'' (case stats of Some j \<Rightarrow> j | None \<Rightarrow> ''{}'') [])
          else if path = ''/'' \<or> path = ''/index.html'' then Reply (Respond ''200 OK'' ''text/html; charset=utf-8'' index [])
          else Reply (Respond ''404 Not Found'' ''text/plain'' (''not found'' @ [CHR 0x0A]) [])))"
  proof (cases "length (filter (\<lambda>c. c = CHR '' '') line) < 2")
    case True
    then show ?thesis using few_blanks [OF True, of stats index] by (simp add: ServeConn_def r)
  next
    case False
    then have "ServeConn stats index chunks = serve_line stats index line" by (auto simp: ServeConn_def r)
    then show ?thesis unfolding if_not_P [OF False] by (simp only:) (rule serve_line_routed [OF False])
  qed
qed

theorem Request_routing_witness:
  "ServeConn None ''page'' [''GET /api/str'', ''eam HTTP/1.1'' @ crlf @ [CHR 0x0D], [CHR 0x0A]] = Stream \<and>
   ServeConn None ''page'' [''GET /api/stream'' @ crlf @ crlf] = Close \<and>
   ServeConn None ''page'' [''GET /api/stream HTTP/1.1'' @ crlf] = Close"
proof -
  let ?a = "[''GET /api/str'', ''eam HTTP/1.1'' @ crlf @ [CHR 0x0D], [CHR 0x0A]]" and ?b = "[''GET /api/stream'' @ crlf @ crlf]"
  have a: "head_at ?a 2" "first_line (concat (take (Suc 2) ?a)) = ''GET /api/stream HTTP/1.1''"
    by code_simp+
  have b: "head_at ?b 0" "first_line (concat (take (Suc 0) ?b)) = ''GET /api/stream''"
    by code_simp+
  have "find_sub (crlf @ crlf) (concat [''GET /api/stream HTTP/1.1'' @ crlf]) = None" by code_simp
  then have c: "\<nexists>k. head_at [''GET /api/stream HTTP/1.1'' @ crlf] k" by (auto simp: head_at_def head_behind_def)
  have w: "meth = ''GET'' \<and> path = ''/api/stream''"
    if "''GET /api/stream HTTP/1.1'' = meth @ '' '' @ path @ '' '' @ ver" "CHR '' '' \<notin> set meth" "CHR '' '' \<notin> set ver" for meth path ver
  proof -
    have "meth = takeWhile (\<lambda>c. c \<noteq> CHR '' '') ''GET /api/stream HTTP/1.1''" unfolding that(1) using that(2) by (induction meth) auto
    moreover have "rev ver = takeWhile (\<lambda>c. c \<noteq> CHR '' '') (rev ''GET /api/stream HTTP/1.1'')"
    proof -
      have "CHR '' '' \<notin> set (rev ver)" using that(3) by simp
      then show ?thesis unfolding that(1) by (simp add: takeWhile_append)
    qed
    ultimately have "meth = ''GET''" "ver = ''HTTP/1.1''" using rev_swap by fastforce+
    with that(1) show ?thesis by simp
  qed
  have n: "\<not> length (filter (\<lambda>c. c = CHR '' '') ''GET /api/stream HTTP/1.1'') < 2" "length (filter (\<lambda>c. c = CHR '' '') ''GET /api/stream'') < 2"
    by code_simp+
  note R = Request_routing [THEN conjunct2, THEN conjunct2, rule_format, OF conjI]
  have "\<exists>meth path ver. ''GET /api/stream HTTP/1.1'' = meth @ '' '' @ path @ '' '' @ ver \<and> CHR '' '' \<notin> set meth \<and> CHR '' '' \<notin> set ver \<and>
        ServeConn None ''page'' ?a =
         (if meth \<noteq> ''GET'' then Reply (Respond ''405 Method Not Allowed'' ''text/plain'' (''GET only'' @ [CHR 0x0A]) [])
          else if path = ''/api/stream'' then Stream
          else if path = ''/api/stats'' then Reply (Respond ''200 OK'' ''application/json'' (case None of Some j \<Rightarrow> j | None \<Rightarrow> ''{}'') [])
          else if path = ''/'' \<or> path = ''/index.html'' then Reply (Respond ''200 OK'' ''text/html; charset=utf-8'' ''page'' [])
          else Reply (Respond ''404 Not Found'' ''text/plain'' (''not found'' @ [CHR 0x0A]) []))"
    using R [OF a(1) a(2) [symmetric], of None "''page''"] unfolding if_not_P [OF n(1)] .
  then obtain meth path ver where m: "''GET /api/stream HTTP/1.1'' = meth @ '' '' @ path @ '' '' @ ver" "CHR '' '' \<notin> set meth" "CHR '' '' \<notin> set ver"
    and s: "ServeConn None ''page'' ?a =
         (if meth \<noteq> ''GET'' then Reply (Respond ''405 Method Not Allowed'' ''text/plain'' (''GET only'' @ [CHR 0x0A]) [])
          else if path = ''/api/stream'' then Stream
          else if path = ''/api/stats'' then Reply (Respond ''200 OK'' ''application/json'' (case None of Some j \<Rightarrow> j | None \<Rightarrow> ''{}'') [])
          else if path = ''/'' \<or> path = ''/index.html'' then Reply (Respond ''200 OK'' ''text/html; charset=utf-8'' ''page'' [])
          else Reply (Respond ''404 Not Found'' ''text/plain'' (''not found'' @ [CHR 0x0A]) []))"
    by (elim exE conjE)
  have "ServeConn None ''page'' ?a = Stream" unfolding s using w [OF m] by simp
  moreover have "ServeConn None ''page'' ?b = Close"
    using R [OF b(1) b(2) [symmetric], of None "''page''"] unfolding if_P [OF n(2)] .
  moreover have "ServeConn None ''page'' [''GET /api/stream HTTP/1.1'' @ crlf] = Close"
    using Request_routing [THEN conjunct1, rule_format, OF c] by blast
  ultimately show ?thesis by blast
qed

section \<open>The stream connections\<close>

text \<open>What a stream has received: its head and an unbroken run of the events since it joined.\<close>

definition got :: "conn \<Rightarrow> string list \<Rightarrow> bool" where
  "got c ev \<longleftrightarrow> cn_joined c \<le> length ev \<and> (\<exists>n \<le> length ev - cn_joined c. cn_out c = kSseHead # take n (drop (cn_joined c) ev))"

definition conn_ok :: "nat list \<Rightarrow> string list \<Rightarrow> conn \<Rightarrow> bool" where
  "conn_ok streams ev c \<longleftrightarrow> (case cn_phase c of
     Fresh \<Rightarrow> cn_out c = []
   | Streaming \<Rightarrow> got c ev \<and> (cn_fd c \<in> set streams \<longrightarrow> cn_out c = kSseHead # drop (cn_joined c) ev)
   | Gone \<Rightarrow> length (cn_out c) \<le> 1 \<or> got c ev)"

definition server_ok :: "server \<Rightarrow> bool" where
  "server_ok s \<longleftrightarrow> (\<forall>c \<in> set (hs_conns s). conn_ok (hs_streams s) (hs_events s) c) \<and>
     (\<forall>f \<in> set (hs_streams s). \<exists>c \<in> set (hs_conns s). cn_phase c = Streaming \<and> cn_fd c = f) \<and>
     (\<forall>i < length (hs_conns s). \<forall>j < length (hs_conns s). is_open (hs_conns s ! i) \<longrightarrow> is_open (hs_conns s ! j) \<longrightarrow>
        cn_fd (hs_conns s ! i) = cn_fd (hs_conns s ! j) \<longrightarrow> i = j)"

lemma got_snoc:
  assumes "got c ev"
  shows "got c (ev @ [m])"
proof -
  obtain n where n: "cn_joined c \<le> length ev" "n \<le> length ev - cn_joined c" "cn_out c = kSseHead # take n (drop (cn_joined c) ev)"
    using assms by (auto simp: got_def)
  then have "cn_out c = kSseHead # take n (drop (cn_joined c) (ev @ [m]))" by simp
  with n(1,2) show ?thesis unfolding got_def by (intro conjI exI [of _ n]) simp_all
qed

lemma server_okD:
  assumes "server_ok s" "i < length (hs_conns s)"
  shows "conn_ok (hs_streams s) (hs_events s) (hs_conns s ! i)"
    and "cn_phase (hs_conns s ! i) = Fresh \<Longrightarrow> cn_fd (hs_conns s ! i) \<notin> set (hs_streams s)"
proof -
  show "conn_ok (hs_streams s) (hs_events s) (hs_conns s ! i)" using assms by (simp add: server_ok_def)
  show "cn_fd (hs_conns s ! i) \<notin> set (hs_streams s)" if "cn_phase (hs_conns s ! i) = Fresh"
  proof
    assume "cn_fd (hs_conns s ! i) \<in> set (hs_streams s)"
    then have "\<exists>c \<in> set (hs_conns s). cn_phase c = Streaming \<and> cn_fd c = cn_fd (hs_conns s ! i)"
      using assms(1) by (simp add: server_ok_def)
    then obtain j where j: "j < length (hs_conns s)" "cn_phase (hs_conns s ! j) = Streaming" "cn_fd (hs_conns s ! j) = cn_fd (hs_conns s ! i)"
      by (auto simp: in_set_conv_nth)
    then have "j = i" using assms that by (simp add: server_ok_def is_open_def)
    with j(2) that show False by simp
  qed
qed

text \<open>Replacing one connection, with the set of streams changing at most at its descriptor.\<close>

lemma set_conn_ok:
  assumes ok: "server_ok s" and i: "i < length (hs_conns s)" and c: "cn_fd c = cn_fd (hs_conns s ! i)"
    and o: "is_open c \<Longrightarrow> is_open (hs_conns s ! i)" "is_open (hs_conns s ! i)"
    and new: "conn_ok streams (hs_events s) c" and st: "\<And>f. f \<noteq> cn_fd c \<Longrightarrow> f \<in> set streams \<longleftrightarrow> f \<in> set (hs_streams s)"
    and self: "cn_fd c \<in> set streams \<Longrightarrow> cn_phase c = Streaming"
  shows "server_ok (set_conn i c (s\<lparr>hs_streams := streams\<rparr>))"
proof -
  let ?cs = "hs_conns s" and ?t = "set_conn i c (s\<lparr>hs_streams := streams\<rparr>)"
  have f: "hs_conns ?t = ?cs[i := c]" "hs_streams ?t = streams" "hs_events ?t = hs_events s" by (simp_all add: set_conn_def)
  have uniq: "j = k" if "j < length ?cs" "k < length ?cs" "is_open (?cs ! j)" "is_open (?cs ! k)" "cn_fd (?cs ! j) = cn_fd (?cs ! k)" for j k
    using ok that by (simp add: server_ok_def)
  have keep: "conn_ok streams (hs_events s) (?cs ! j)" if j: "j < length ?cs" "j \<noteq> i" for j
  proof (cases "cn_phase (?cs ! j) = Streaming")
    case True
    then have "cn_fd (?cs ! j) \<noteq> cn_fd c" using uniq [OF j(1) i] j(2) o(2) c by (auto simp: is_open_def)
    then show ?thesis using server_okD(1) [OF ok j(1)] st True by (simp add: conn_ok_def)
  next
    case False
    then show ?thesis using server_okD(1) [OF ok j(1)] by (auto simp: conn_ok_def split: conn_phase.splits)
  qed
  have "\<forall>d \<in> set (?cs[i := c]). conn_ok streams (hs_events s) d"
  proof
    fix d assume "d \<in> set (?cs[i := c])"
    then obtain k where "k < length ?cs" "d = ?cs[i := c] ! k" by (auto simp: in_set_conv_nth)
    with keep [of k] new i show "conn_ok streams (hs_events s) d" by (cases "k = i") simp_all
  qed
  moreover have "\<exists>d \<in> set (?cs[i := c]). cn_phase d = Streaming \<and> cn_fd d = f" if "f \<in> set streams" for f
  proof (cases "f = cn_fd c")
    case True
    with self that i show ?thesis by (auto intro!: bexI [of _ c] simp: set_update_memI)
  next
    case False
    with st that have "\<exists>d \<in> set ?cs. cn_phase d = Streaming \<and> cn_fd d = f" using ok by (simp add: server_ok_def)
    then obtain j where j: "j < length ?cs" "cn_phase (?cs ! j) = Streaming" "cn_fd (?cs ! j) = f"
      by (auto simp: in_set_conv_nth)
    then have "j \<noteq> i" using False c by auto
    with j show ?thesis by (intro bexI [of _ "?cs ! j"]) (auto simp: in_set_conv_nth intro!: exI [of _ j])
  qed
  moreover have "\<forall>j < length (?cs[i := c]). \<forall>k < length (?cs[i := c]). is_open (?cs[i := c] ! j) \<longrightarrow> is_open (?cs[i := c] ! k) \<longrightarrow>
      cn_fd (?cs[i := c] ! j) = cn_fd (?cs[i := c] ! k) \<longrightarrow> j = k"
    using uniq c o i by (auto simp: nth_list_update)
  ultimately show ?thesis unfolding server_ok_def f by blast
qed

lemma set_conn_same: "set_conn i c s = set_conn i c (s\<lparr>hs_streams := hs_streams s\<rparr>)"
  by simp

lemma stream_enter_ok:
  assumes "server_ok s" "i < length (hs_conns s)" "cn_phase (hs_conns s ! i) = Fresh"
  shows "server_ok (stream_enter i sent s)"
proof -
  let ?c = "hs_conns s ! i"
  have fd: "cn_fd ?c \<notin> set (hs_streams s)" and out: "cn_out ?c = []"
    using server_okD [OF assms(1,2)] assms(3) by (simp_all add: conn_ok_def)
  show ?thesis
  proof (cases sent)
    case True
    have "server_ok (set_conn i (?c\<lparr>cn_phase := Streaming, cn_out := cn_out ?c @ [kSseHead], cn_joined := length (hs_events s)\<rparr>)
        (s\<lparr>hs_streams := set_insert (cn_fd ?c) (hs_streams s)\<rparr>))"
      by (rule set_conn_ok [OF assms(1,2)])
        (use assms(3) out in \<open>auto simp: is_open_def conn_ok_def got_def set_insert_def set_insort_key\<close>)
    with True show ?thesis by (simp add: stream_enter_def Let_def)
  next
    case False
    have "server_ok (set_conn i (?c\<lparr>cn_phase := Gone\<rparr>) (s\<lparr>hs_streams := hs_streams s\<rparr>))"
      by (rule set_conn_ok [OF assms(1,2)]) (use assms(3) out fd in \<open>auto simp: is_open_def conn_ok_def\<close>)
    with False show ?thesis by (simp add: stream_enter_def Let_def)
  qed
qed

lemma serve_ok:
  assumes "server_ok s" "i < length (hs_conns s)" "cn_phase (hs_conns s ! i) = Fresh"
  shows "server_ok (serve i stats chunks sent s)"
proof -
  let ?c = "hs_conns s ! i"
  have fd: "cn_fd ?c \<notin> set (hs_streams s)" and out: "cn_out ?c = []"
    using server_okD [OF assms(1,2)] assms(3) by (simp_all add: conn_ok_def)
  have "server_ok (set_conn i (?c\<lparr>cn_phase := Gone, cn_out := cn_out ?c @ (if sent then [r] else [])\<rparr>) (s\<lparr>hs_streams := hs_streams s\<rparr>))" for r
    by (rule set_conn_ok [OF assms(1,2)]) (use assms(3) out fd in \<open>auto simp: is_open_def conn_ok_def\<close>)
  moreover have "server_ok (set_conn i (?c\<lparr>cn_phase := Gone\<rparr>) (s\<lparr>hs_streams := hs_streams s\<rparr>))"
    by (rule set_conn_ok [OF assms(1,2)]) (use assms(3) out fd in \<open>auto simp: is_open_def conn_ok_def\<close>)
  ultimately show ?thesis using stream_enter_ok [OF assms] by (simp add: serve_def Let_def split: reply.split)
qed

lemma stream_leave_ok:
  assumes "server_ok s" "i < length (hs_conns s)" "cn_phase (hs_conns s ! i) = Streaming"
  shows "server_ok (stream_leave i s)"
  unfolding stream_leave_def Let_def
  by (rule set_conn_ok [OF assms(1,2)])
    (use assms(3) server_okD(1) [OF assms(1,2)] in \<open>auto simp: is_open_def conn_ok_def got_def\<close>)

lemma accept_ok:
  assumes "server_ok s" "\<forall>c \<in> set (hs_conns s). is_open c \<longrightarrow> cn_fd c \<noteq> fd"
  shows "server_ok (accept_conn fd s)"
  using assms unfolding server_ok_def accept_conn_def by (auto simp: conn_ok_def nth_append less_Suc_eq)

lemma Broadcast_ok:
  assumes "server_ok s"
  shows "server_ok (Broadcast event json ok s)"
proof -
  let ?msg = "sse_text event json" and ?st = "hs_streams s" and ?ev = "hs_events s"
  let ?g = "\<lambda>c. if is_open c \<and> cn_fd c \<in> set ?st \<and> ok (cn_fd c) then c\<lparr>cn_out := cn_out c @ [?msg]\<rparr> else c"
  have f: "hs_conns (Broadcast event json ok s) = map ?g (hs_conns s)" "hs_streams (Broadcast event json ok s) = filter ok ?st"
    "hs_events (Broadcast event json ok s) = ?ev @ [?msg]" by (simp_all add: Broadcast_def Let_def)
  have g: "cn_fd (?g c) = cn_fd c" "cn_phase (?g c) = cn_phase c" "is_open (?g c) = is_open c" for c by (simp_all add: is_open_def)
  have "conn_ok (filter ok ?st) (?ev @ [?msg]) (?g (hs_conns s ! i))" if i: "i < length (hs_conns s)" for i
  proof -
    let ?c = "hs_conns s ! i"
    note c = server_okD [OF assms i]
    show ?thesis
    proof (cases "cn_phase ?c")
      case Fresh
      with c show ?thesis by (simp add: conn_ok_def)
    next
      case Gone
      with c(1) got_snoc [of ?c ?ev ?msg] show ?thesis by (auto simp: conn_ok_def is_open_def)
    next
      case Streaming
      then have s: "got ?c ?ev" "cn_fd ?c \<in> set ?st \<longrightarrow> cn_out ?c = kSseHead # drop (cn_joined ?c) ?ev"
        using c(1) by (simp_all add: conn_ok_def)
      have j: "cn_joined ?c \<le> length ?ev" using s(1) by (simp add: got_def)
      show ?thesis
      proof (cases "cn_fd ?c \<in> set ?st \<and> ok (cn_fd ?c)")
        case True
        then have "cn_out (?g ?c) = kSseHead # drop (cn_joined ?c) (?ev @ [?msg])"
          using s(2) Streaming j by (simp add: is_open_def)
        with True Streaming j show ?thesis
          by (simp add: conn_ok_def got_def is_open_def) (rule exI [of _ "Suc (length ?ev) - cn_joined ?c"], simp)
      next
        case False
        then have "?g ?c = ?c" by auto
        with False Streaming got_snoc [OF s(1), of ?msg] show ?thesis by (auto simp: conn_ok_def)
      qed
    qed
  qed
  then have "\<forall>c \<in> set (map ?g (hs_conns s)). conn_ok (filter ok ?st) (?ev @ [?msg]) c"
    unfolding set_map ball_simps(9) by (metis in_set_conv_nth)
  moreover have "\<forall>f \<in> set (filter ok ?st). \<exists>c \<in> set (map ?g (hs_conns s)). cn_phase c = Streaming \<and> cn_fd c = f"
  proof
    fix f assume "f \<in> set (filter ok ?st)"
    then obtain c where "c \<in> set (hs_conns s)" "cn_phase c = Streaming" "cn_fd c = f" using assms by (auto simp: server_ok_def)
    then show "\<exists>c \<in> set (map ?g (hs_conns s)). cn_phase c = Streaming \<and> cn_fd c = f"
      using g [of c] by (intro bexI [of _ "?g c"]) simp_all
  qed
  moreover have "\<forall>i < length (map ?g (hs_conns s)). \<forall>j < length (map ?g (hs_conns s)). is_open (map ?g (hs_conns s) ! i) \<longrightarrow>
      is_open (map ?g (hs_conns s) ! j) \<longrightarrow> cn_fd (map ?g (hs_conns s) ! i) = cn_fd (map ?g (hs_conns s) ! j) \<longrightarrow> i = j"
  proof (intro allI impI)
    fix i j assume i: "i < length (map ?g (hs_conns s))" and j: "j < length (map ?g (hs_conns s))"
      and o: "is_open (map ?g (hs_conns s) ! i)" "is_open (map ?g (hs_conns s) ! j)"
        "cn_fd (map ?g (hs_conns s) ! i) = cn_fd (map ?g (hs_conns s) ! j)"
    have n: "map ?g (hs_conns s) ! i = ?g (hs_conns s ! i)" "map ?g (hs_conns s) ! j = ?g (hs_conns s ! j)"
      using i j by (simp_all only: length_map nth_map)
    show "i = j" using assms i j o unfolding server_ok_def n g by (simp only: length_map)
  qed
  ultimately show ?thesis unfolding server_ok_def f by blast
qed

lemma hstep_ok: "hstep s s' \<Longrightarrow> server_ok s \<Longrightarrow> server_ok s'"
proof (induction rule: hstep.induct)
  case (stop s)
  then show ?case by (simp add: Stop_http_def server_ok_def)
next
  case (listen s prt page socket_ok bind_ok)
  then show ?case by (simp add: Start_http_def server_ok_def Let_def)
qed (auto intro: accept_ok serve_ok stream_leave_ok Broadcast_ok)

lemma hreach_ok: "hreach s0 s \<Longrightarrow> server_ok s0 \<Longrightarrow> server_ok s"
  by (induction rule: hreach.induct) (auto intro: hstep_ok)

text \<open>C32: What a browser's event stream receives, under any interleaving of connections, broadcasts,
  failing writes, leaving and stopping, and although descriptors are reused. A connection that is
  in the stream set has received the stream head and every event since it joined, in order; one
  whose write failed or that has left has received the head and an unbroken run of these events
  from the first on; every other connection has received at most one response. No descriptor is
  in the set that is not an open stream, so an event is never written to a connection that did
  not ask for the stream.\<close>

theorem Streams_receive_events:
  assumes "hreach new_server s" "c \<in> set (hs_conns s)"
  shows "(cn_phase c = Streaming \<and> cn_fd c \<in> set (hs_streams s) \<longrightarrow> cn_out c = kSseHead # drop (cn_joined c) (hs_events s)) \<and>
    (length (cn_out c) \<le> 1 \<or> (\<exists>n. cn_out c = kSseHead # take n (drop (cn_joined c) (hs_events s)))) \<and>
    (cn_phase c = Fresh \<longrightarrow> cn_out c = [] \<and> cn_fd c \<notin> set (hs_streams s)) \<and>
    (\<forall>f \<in> set (hs_streams s). \<exists>d \<in> set (hs_conns s). cn_phase d = Streaming \<and> cn_fd d = f)"
proof -
  have ok: "server_ok s"
    by (rule hreach_ok [OF assms(1)]) (simp add: server_ok_def new_server_def)
  then have c: "conn_ok (hs_streams s) (hs_events s) c" using assms(2) by (simp add: server_ok_def)
  obtain i where "i < length (hs_conns s)" "c = hs_conns s ! i" using assms(2) by (auto simp: in_set_conv_nth)
  then have "cn_phase c = Fresh \<longrightarrow> cn_fd c \<notin> set (hs_streams s)" using server_okD(2) [OF ok] by blast
  moreover have "\<forall>f \<in> set (hs_streams s). \<exists>d \<in> set (hs_conns s). cn_phase d = Streaming \<and> cn_fd d = f"
    using ok by (simp add: server_ok_def)
  moreover have "length (cn_out c) \<le> 1 \<or> (\<exists>n. cn_out c = kSseHead # take n (drop (cn_joined c) (hs_events s)))"
    using c by (auto simp: conn_ok_def got_def split: conn_phase.splits)
  moreover have "cn_phase c = Streaming \<and> cn_fd c \<in> set (hs_streams s) \<longrightarrow> cn_out c = kSseHead # drop (cn_joined c) (hs_events s)"
    "cn_phase c = Fresh \<longrightarrow> cn_out c = []"
    using c by (auto simp: conn_ok_def)
  ultimately show ?thesis by blast
qed

definition one_stream :: server where
  "one_stream = Broadcast ''stats'' ''1'' (\<lambda>_. True) (serve 0 None [''GET /api/stream HTTP/1.1'' @ crlf @ crlf] True
     (accept_conn 5 (snd (Start_http 8080 ''page'' True True new_server))))"

theorem Streams_receive_events_witness:
  "cn_out (hs_conns one_stream ! 0) = [kSseHead, sse_text ''stats'' ''1'']"
proof -
  let ?s1 = "snd (Start_http 8080 ''page'' True True new_server)"
  let ?s2 = "accept_conn 5 ?s1"
  let ?s3 = "serve 0 None [''GET /api/stream HTTP/1.1'' @ crlf @ crlf] True ?s2"
  have a: "hreach new_server ?s1" by (rule hreach.step [OF hreach.start hstep.listen]) (simp add: new_server_def)
  have b: "hreach new_server ?s2" by (rule hreach.step [OF a hstep.accept]) (simp_all add: new_server_def Start_http_def)
  have c: "hreach new_server ?s3"
    by (rule hreach.step [OF b hstep.serve]) (simp_all add: new_server_def Start_http_def accept_conn_def)
  have d: "hreach new_server one_stream" unfolding one_stream_def by (rule hreach.step [OF c hstep.broadcast])
  have o: "one_stream = \<lparr>hs_running = True, hs_index = ''page'', hs_port = 8080, hs_streams = [5],
      hs_conns = [\<lparr>cn_fd = 5, cn_phase = Streaming, cn_out = [kSseHead, sse_text ''stats'' ''1''], cn_joined = 0\<rparr>],
      hs_events = [sse_text ''stats'' ''1'']\<rparr>"
    by code_simp
  show ?thesis using Streams_receive_events [OF d, of "hs_conns one_stream ! 0"] unfolding o by simp
qed

end
