(* ===== verification/Kafka_Client.thy ===== *)
theory Kafka_Client
  imports Prelude_DTS
begin

text \<open>
  The web server's wrapper of librdkafka (\<open>webserver/src/kafka_client.cpp\<close>): starting and stopping the
  producer and the consumer with every early return, producing, the delivery callback, and the
  consumer's polling round with its lag. librdkafka is not part of the sources: what its calls
  return is given as arguments, and what the wrapper hands to it or frees is recorded.
\<close>

section \<open>The library's results\<close>

text \<open>The error codes that the code names.\<close>

datatype kerr = NO_ERROR | TOPIC_ALREADY_EXISTS | TIMED_OUT | PARTITION_EOF | MSG_TIMED_OUT | Other_error nat

text \<open>A configuration object: the properties set and the delivery callback. The code never sets an opaque pointer.\<close>

record kconf =
  kf_props :: "(string \<times> string) list"
  kf_dr_cb :: bool
  kf_opaque :: "nat option"

definition conf_new :: kconf where
  "conf_new = \<lparr>kf_props = [], kf_dr_cb = False, kf_opaque = None\<rparr>"

definition conf_set :: "string \<Rightarrow> string \<Rightarrow> kconf \<Rightarrow> kconf" where
  "conf_set k v c = c\<lparr>kf_props := kf_props c @ [(k, v)]\<rparr>"

definition kStartTimeoutS :: nat where "kStartTimeoutS = 5"
definition kFlushTimeoutMs :: nat where "kFlushTimeoutMs = 3000"

text \<open>\<open>LogOnce\<close>: the last error logged, and whether this one is logged.\<close>

definition LogOnce :: "kerr \<Rightarrow> kerr \<Rightarrow> bool \<times> kerr" where
  "LogOnce err last_err = (if err \<noteq> last_err then (True, err) else (False, last_err))"

section \<open>The producer\<close>

record kmessage =
  km_value :: bytes
  km_key :: string
  km_headers :: "(string \<times> string) list"

record KafkaProducer =
  kp_brokers :: string
  kp_topic :: string
  kp_rk :: bool
  kp_rkt :: bool
  kp_conf :: kconf
  kp_sent :: "kmessage list"
  kp_queued :: u64
  kp_delivered :: u64
  kp_failed :: u64

definition new_producer :: "string \<Rightarrow> string \<Rightarrow> KafkaProducer" where
  "new_producer brokers tpc = \<lparr>kp_brokers = brokers, kp_topic = tpc, kp_rk = False, kp_rkt = False, kp_conf = conf_new,
     kp_sent = [], kp_queued = 0, kp_delivered = 0, kp_failed = 0\<rparr>"

text \<open>What the calls of \<open>Start\<close> return, in the order in which it makes them.\<close>

record producer_env =
  ev_new :: bool
  ev_topic_new :: bool
  ev_metadata :: kerr
  ev_newtopic :: bool
  ev_create :: "kerr option"

definition producer_conf :: "string \<Rightarrow> kconf" where
  "producer_conf brokers = (conf_set ''message.timeout.ms'' ''5000'' (conf_set ''bootstrap.servers'' brokers conf_new))\<lparr>kf_dr_cb := True\<rparr>"

definition Start_producer :: "producer_env \<Rightarrow> KafkaProducer \<Rightarrow> int \<times> KafkaProducer" where
  "Start_producer e s =
    (if \<not> ev_new e then (- 1, s\<lparr>kp_rk := False\<rparr>)
     else let s1 = s\<lparr>kp_rk := True, kp_conf := producer_conf (kp_brokers s)\<rparr> in
       if \<not> ev_topic_new e then (- 1, s1\<lparr>kp_rkt := False\<rparr>)
       else let s2 = s1\<lparr>kp_rkt := True\<rparr> in
         if ev_metadata e \<noteq> NO_ERROR then (- 1, s2)
         else if \<not> ev_newtopic e then (- 1, s2)
         else let crc = (case ev_create e of Some c \<Rightarrow> c | None \<Rightarrow> TIMED_OUT) in
           if crc \<noteq> NO_ERROR \<and> crc \<noteq> TOPIC_ALREADY_EXISTS then (- 1, s2)
           else (0, s2))"

text \<open>\<open>OnDelivery\<close> with the context pointer it is called with; \<open>None\<close> is a call through a null pointer.\<close>

definition OnDelivery :: "nat option \<Rightarrow> kerr \<Rightarrow> KafkaProducer \<Rightarrow> KafkaProducer option" where
  "OnDelivery ctx err s = (case ctx of
     None \<Rightarrow> None
   | Some _ \<Rightarrow> Some (if err \<noteq> NO_ERROR then s\<lparr>kp_failed := kp_failed s + 1\<rparr> else s\<lparr>kp_delivered := kp_delivered s + 1\<rparr>))"

text \<open>\<open>Produce\<close>; \<open>rc\<close> is the result of \<open>rd_kafka_producev\<close>.\<close>

definition Produce :: "kerr \<Rightarrow> bytes \<Rightarrow> u32 \<Rightarrow> string \<Rightarrow> (string \<times> string) list \<Rightarrow> KafkaProducer \<Rightarrow> int \<times> KafkaProducer" where
  "Produce rc data len key headers s =
    (if \<not> kp_rk s then (- 1, s)
     else if rc \<noteq> NO_ERROR then (- 1, s)
     else (0, s\<lparr>kp_sent := kp_sent s @ [\<lparr>km_value = take (unat len) data, km_key = key,
              km_headers = map (\<lambda>h. (c_str (fst h), snd h)) headers\<rparr>], kp_queued := kp_queued s + 1\<rparr>))"

text \<open>\<open>Shutdown\<close>, with the library calls it makes.\<close>

datatype kcall = Flush nat | Topic_destroy | Destroy | Consumer_close

definition Shutdown_producer :: "KafkaProducer \<Rightarrow> kcall list \<times> KafkaProducer" where
  "Shutdown_producer s =
    ((if kp_rk s then [Flush kFlushTimeoutMs] else []) @ (if kp_rkt s then [Topic_destroy] else []) @ (if kp_rk s then [Destroy] else []),
     s\<lparr>kp_rk := False, kp_rkt := False\<rparr>)"

section \<open>The consumer\<close>

record KafkaConsumer =
  kc_brokers :: string
  kc_topic :: string
  kc_rk :: bool
  kc_conf :: kconf
  kc_fn :: bool
  kc_thread :: bool
  kc_running :: bool
  kc_consumed :: int
  kc_lag :: int
  kc_parts :: "int list"
  kc_hiBase :: int

definition new_consumer :: "string \<Rightarrow> string \<Rightarrow> KafkaConsumer" where
  "new_consumer brokers tpc = \<lparr>kc_brokers = brokers, kc_topic = tpc, kc_rk = False, kc_conf = conf_new, kc_fn = False,
     kc_thread = False, kc_running = False, kc_consumed = 0, kc_lag = 0, kc_parts = [], kc_hiBase = 0\<rparr>"

text \<open>
  The results for \<open>Start\<close>: the handle, the metadata (topics with their partitions), the result of
  \<open>assign\<close>, and the high watermark of a partition (\<open>None\<close> is an error).
\<close>

record consumer_env =
  ce_new :: bool
  ce_md_err :: kerr
  ce_topics :: "(string \<times> int list) list"
  ce_assign :: kerr
  ce_high :: "int \<Rightarrow> int option"

definition consumer_conf :: "string \<Rightarrow> kconf" where
  "consumer_conf brokers = conf_set ''enable.auto.commit'' ''false''
     (conf_set ''group.id'' ''dts-web-ui'' (conf_set ''bootstrap.servers'' brokers conf_new))"

fun find_topic :: "(string \<times> int list) list \<Rightarrow> string \<Rightarrow> int list option" where
  "find_topic [] t = None"
| "find_topic (x # xs) t = (if c_str (fst x) = c_str t then Some (snd x) else find_topic xs t)"

text \<open>The sum of the high watermarks that could be queried.\<close>

fun high_sum :: "(int \<Rightarrow> int option) \<Rightarrow> int list \<Rightarrow> int \<Rightarrow> int" where
  "high_sum high [] a = a"
| "high_sum high (p # ps) a = high_sum high ps (case high p of Some h \<Rightarrow> a + h | None \<Rightarrow> a)"

definition Start_consumer :: "consumer_env \<Rightarrow> bool \<Rightarrow> KafkaConsumer \<Rightarrow> int \<times> KafkaConsumer" where
  "Start_consumer e fn s0 =
    (let s = s0\<lparr>kc_fn := fn\<rparr> in
     if \<not> ce_new e then (- 1, s\<lparr>kc_rk := False\<rparr>)
     else let s1 = s\<lparr>kc_rk := True, kc_conf := consumer_conf (kc_brokers s)\<rparr> in
       if ce_md_err e \<noteq> NO_ERROR \<or> ce_topics e = [] then (- 1, s1)
       else (case find_topic (ce_topics e) (kc_topic s1) of
          None \<Rightarrow> (- 1, s1)
        | Some parts \<Rightarrow>
           (let s2 = s1\<lparr>kc_parts := kc_parts s1 @ parts\<rparr> in
            if ce_assign e \<noteq> NO_ERROR then (- 1, s2)
            else (0, s2\<lparr>kc_hiBase := high_sum (ce_high e) (kc_parts s2) (kc_hiBase s2), kc_running := True, kc_thread := True\<rparr>))))"

text \<open>
  One round of \<open>Run\<close>: what \<open>consumer_poll\<close> returns (an error code, a payload and an offset), and, in
  every tenth round, the watermarks. The first result is the call of the message function.
\<close>

record kpolled =
  kq_err :: kerr
  kq_payload :: bytes
  kq_offset :: int

definition consume :: "kpolled option \<Rightarrow> KafkaConsumer \<Rightarrow> (bytes \<times> u32 \<times> int) list \<times> KafkaConsumer" where
  "consume msg s = (case msg of
     None \<Rightarrow> ([], s)
   | Some m \<Rightarrow>
      if kq_err m = NO_ERROR
      then (if kc_fn s then [(kq_payload m, of_nat (length (kq_payload m)), kq_offset m)] else [], s\<lparr>kc_consumed := kc_consumed s + 1\<rparr>)
      else ([], s))"

definition refresh_lag :: "(int \<Rightarrow> int option) \<Rightarrow> KafkaConsumer \<Rightarrow> KafkaConsumer" where
  "refresh_lag high s = s\<lparr>kc_lag := high_sum high (kc_parts s) 0 - kc_hiBase s - kc_consumed s\<rparr>"

definition run_round :: "int \<Rightarrow> kpolled option \<Rightarrow> (int \<Rightarrow> int option) \<Rightarrow> KafkaConsumer \<Rightarrow> (bytes \<times> u32 \<times> int) list \<times> KafkaConsumer" where
  "run_round pollCnt msg high s = (let (calls, s1) = consume msg s in
     (calls, if (pollCnt + 1) mod 10 = 0 then refresh_lag high s1 else s1))"

fun Run_consumer :: "int \<Rightarrow> (kpolled option \<times> (int \<Rightarrow> int option)) list \<Rightarrow> KafkaConsumer \<Rightarrow> (bytes \<times> u32 \<times> int) list \<times> KafkaConsumer" where
  "Run_consumer pollCnt [] s = ([], s)"
| "Run_consumer pollCnt ((msg, high) # rounds) s =
    (if \<not> kc_running s then ([], s)
     else let (calls, s1) = run_round pollCnt msg high s; (calls2, s2) = Run_consumer (pollCnt + 1) rounds s1 in (calls @ calls2, s2))"

definition Stop_consumer :: "KafkaConsumer \<Rightarrow> kcall list \<times> KafkaConsumer" where
  "Stop_consumer s =
    (if \<not> kc_running s then ([], s)
     else let s1 = s\<lparr>kc_running := False, kc_thread := False\<rparr> in
       if kc_rk s1 then ([Consumer_close, Destroy], s1\<lparr>kc_rk := False\<rparr>) else ([], s1))"

section \<open>Results\<close>

text \<open>The producer. \<open>Start\<close> succeeds exactly if every call does and the topic exists or was created;
  whatever it returns, \<open>Shutdown\<close> afterwards frees exactly the handles that were created, the
  topic before the client, and a second \<open>Shutdown\<close> frees nothing. \<open>Produce\<close> hands over a copy of
  the bytes with its key and headers exactly if the client exists and the library accepts it.
  But the configuration of a started producer has no opaque pointer, so every delivery report
  goes through a null pointer: the delivered and failed counters can never be counted.\<close>

theorem Producer_life:
  assumes "\<not> kp_rk s" "\<not> kp_rkt s"
  shows "(fst (Start_producer e s) = 0 \<longleftrightarrow> ev_new e \<and> ev_topic_new e \<and> ev_metadata e = NO_ERROR \<and> ev_newtopic e \<and>
      ev_create e \<in> {Some NO_ERROR, Some TOPIC_ALREADY_EXISTS}) \<and>
    fst (Shutdown_producer (snd (Start_producer e s))) =
      (if ev_new e then [Flush 3000] @ (if ev_topic_new e then [Topic_destroy] else []) @ [Destroy] else []) \<and>
    fst (Shutdown_producer (snd (Shutdown_producer (snd (Start_producer e s))))) = [] \<and>
    Produce rc data len key hdrs (snd (Start_producer e s)) =
      (if ev_new e \<and> rc = NO_ERROR
       then (0, (snd (Start_producer e s))\<lparr>kp_sent := kp_sent s @ [\<lparr>km_value = take (unat len) data, km_key = key,
              km_headers = map (\<lambda>h. (c_str (fst h), snd h)) hdrs\<rparr>], kp_queued := kp_queued s + 1\<rparr>)
       else (- 1, snd (Start_producer e s))) \<and>
    (ev_new e \<longrightarrow> kf_dr_cb (kp_conf (snd (Start_producer e s))) \<and>
       OnDelivery (kf_opaque (kp_conf (snd (Start_producer e s)))) err (snd (Start_producer e s)) = None)"
proof (intro conjI)
  show "fst (Start_producer e s) = 0 \<longleftrightarrow> ev_new e \<and> ev_topic_new e \<and> ev_metadata e = NO_ERROR \<and> ev_newtopic e \<and>
      ev_create e \<in> {Some NO_ERROR, Some TOPIC_ALREADY_EXISTS}"
    by (cases "ev_create e") (auto simp: Start_producer_def Let_def)
qed (use assms in \<open>auto simp: Start_producer_def Shutdown_producer_def Produce_def OnDelivery_def producer_conf_def conf_set_def
    conf_new_def kFlushTimeoutMs_def Let_def\<close>)

theorem Producer_life_witness:
  "OnDelivery (kf_opaque (kp_conf (snd (Start_producer \<lparr>ev_new = True, ev_topic_new = True, ev_metadata = NO_ERROR, ev_newtopic = True,
     ev_create = Some NO_ERROR\<rparr> (new_producer ''b'' ''t''))))) NO_ERROR
     (snd (Start_producer \<lparr>ev_new = True, ev_topic_new = True, ev_metadata = NO_ERROR, ev_newtopic = True,
     ev_create = Some NO_ERROR\<rparr> (new_producer ''b'' ''t''))) = None"
  using Producer_life [of "new_producer ''b'' ''t''" "\<lparr>ev_new = True, ev_topic_new = True, ev_metadata = NO_ERROR, ev_newtopic = True,
     ev_create = Some NO_ERROR\<rparr>" NO_ERROR "[]" 0 "[]" "[]" NO_ERROR]
  by (simp add: new_producer_def)

lemma high_sum_add: "high_sum high ps a = a + (\<Sum>p\<leftarrow>ps. case high p of Some h \<Rightarrow> h | None \<Rightarrow> 0)"
  by (induction ps arbitrary: a) (auto split: option.split)

text \<open>The good messages among what was polled.\<close>

definition good_msgs :: "(kpolled option \<times> (int \<Rightarrow> int option)) list \<Rightarrow> kpolled list" where
  "good_msgs rounds = [m. (Some m, _) \<leftarrow> rounds, kq_err m = NO_ERROR]"

lemma good_msgs_Cons:
  "good_msgs ((msg, h) # rounds) = (case msg of Some m \<Rightarrow> if kq_err m = NO_ERROR then [m] else [] | None \<Rightarrow> []) @ good_msgs rounds"
  by (cases msg) (simp_all add: good_msgs_def)

lemma run_round_facts:
  "kc_running (snd (run_round k msg h s)) = kc_running s" "kc_fn (snd (run_round k msg h s)) = kc_fn s"
  "kc_parts (snd (run_round k msg h s)) = kc_parts s" "kc_hiBase (snd (run_round k msg h s)) = kc_hiBase s"
  "kc_consumed (snd (run_round k msg h s)) = kc_consumed s + int (length (good_msgs [(msg, h)]))"
  "kc_fn s \<Longrightarrow> fst (run_round k msg h s) = map (\<lambda>m. (kq_payload m, of_nat (length (kq_payload m)), kq_offset m)) (good_msgs [(msg, h)])"
  "kc_lag (snd (run_round k msg h s)) = (if (k + 1) mod 10 = 0 then high_sum h (kc_parts s) 0 - kc_hiBase s - kc_consumed (snd (run_round k msg h s)) else kc_lag s)"
  by (auto simp: run_round_def consume_def refresh_lag_def good_msgs_def split_beta Let_def split: option.split)

lemma Run_consumer_facts:
  assumes "kc_running s" "kc_fn s"
  shows "fst (Run_consumer k rounds s) = map (\<lambda>m. (kq_payload m, of_nat (length (kq_payload m)), kq_offset m)) (good_msgs rounds) \<and>
    kc_consumed (snd (Run_consumer k rounds s)) = kc_consumed s + int (length (good_msgs rounds)) \<and>
    kc_running (snd (Run_consumer k rounds s)) \<and> kc_parts (snd (Run_consumer k rounds s)) = kc_parts s \<and>
    kc_hiBase (snd (Run_consumer k rounds s)) = kc_hiBase s"
  using assms
proof (induction rounds arbitrary: k s)
  case (Cons r rounds)
  obtain msg h where r: "r = (msg, h)" by (cases r)
  have "good_msgs (r # rounds) = good_msgs [r] @ good_msgs rounds"
    unfolding r by (simp only: good_msgs_Cons good_msgs_def [of "[]"]) (simp add: good_msgs_def)
  with Cons.prems Cons.IH [of "snd (run_round k msg h s)" "k + 1"] show ?case
    by (simp add: r run_round_facts split_beta Let_def)
qed (simp add: good_msgs_def)

lemma Run_consumer_app:
  "kc_running s \<Longrightarrow> kc_fn s \<Longrightarrow> Run_consumer k (xs @ ys) s =
    (fst (Run_consumer k xs s) @ fst (Run_consumer (k + int (length xs)) ys (snd (Run_consumer k xs s))),
     snd (Run_consumer (k + int (length xs)) ys (snd (Run_consumer k xs s))))"
  by (induction xs arbitrary: k s) (auto simp: run_round_facts split_beta Let_def add.assoc)

lemma Run_consumer_lag:
  assumes "kc_running s" "kc_fn s" "(k + int (length rounds) + 1) mod 10 = 0"
  shows "kc_lag (snd (Run_consumer k (rounds @ [(m, h)]) s)) =
    high_sum h (kc_parts s) 0 - kc_hiBase s - kc_consumed (snd (Run_consumer k (rounds @ [(m, h)]) s))"
  using assms Run_consumer_facts [of s k rounds]
  by (simp add: Run_consumer_app run_round_facts split_beta Let_def)

lemma Start_consumer_ok:
  assumes "fst (Start_consumer e True (new_consumer b t)) = 0"
  shows "kc_running (snd (Start_consumer e True (new_consumer b t)))" "kc_fn (snd (Start_consumer e True (new_consumer b t)))"
    "kc_rk (snd (Start_consumer e True (new_consumer b t)))"
    "kc_consumed (snd (Start_consumer e True (new_consumer b t))) = 0"
    "find_topic (ce_topics e) t = Some (kc_parts (snd (Start_consumer e True (new_consumer b t))))"
    "kc_hiBase (snd (Start_consumer e True (new_consumer b t))) =
       high_sum (ce_high e) (kc_parts (snd (Start_consumer e True (new_consumer b t)))) 0"
  using assms by (auto simp: Start_consumer_def new_consumer_def Let_def split: if_splits option.splits)

lemma Run_consumer_rk: "kc_rk (snd (Run_consumer k rounds s)) = kc_rk s"
  by (induction k rounds s rule: Run_consumer.induct)
    (auto simp: run_round_def consume_def refresh_lag_def split_beta Let_def split: option.split)

text \<open>The consumer. After a successful \<open>Start\<close> every message polled without an error reaches the
  message function, in the order of polling, with its payload and offset; errors and empty polls
  reach it never. After every tenth round the lag is the growth of the watermarks of the topic's
  partitions since the start, less the number of messages consumed; \<open>Stop\<close> then closes and frees
  the client. If \<open>Start\<close> fails after the client was created, nothing runs, and \<open>Stop\<close> (also the
  destructor's) returns without freeing it.\<close>

theorem Consumer_lag:
  assumes "start = Start_consumer e True (new_consumer b t)" "after = Run_consumer 0 rounds (snd start)"
  shows "(fst start = 0 \<longrightarrow>
      fst after = map (\<lambda>m. (kq_payload m, of_nat (length (kq_payload m)), kq_offset m)) (good_msgs rounds) \<and>
      (\<forall>ps early m h. find_topic (ce_topics e) t = Some ps \<longrightarrow> rounds = early @ [(m, h)] \<longrightarrow> length rounds mod 10 = 0 \<longrightarrow>
         kc_lag (snd after) = (\<Sum>p\<leftarrow>ps. case h p of Some x \<Rightarrow> x | None \<Rightarrow> 0)
           - (\<Sum>p\<leftarrow>ps. case ce_high e p of Some x \<Rightarrow> x | None \<Rightarrow> 0) - int (length (good_msgs rounds))) \<and>
      fst (Stop_consumer (snd after)) = [Consumer_close, Destroy]) \<and>
    (fst start \<noteq> 0 \<longrightarrow> fst after = [] \<and> Stop_consumer (snd start) = ([], snd start) \<and> kc_rk (snd start) = ce_new e)"
proof (intro conjI impI allI)
  assume ok: "fst start = 0"
  note st = Start_consumer_ok [OF ok [unfolded assms(1)], folded assms(1)]
  note run = Run_consumer_facts [OF st(1,2), of 0 rounds, folded assms(2)]
  show "fst after = map (\<lambda>m. (kq_payload m, of_nat (length (kq_payload m)), kq_offset m)) (good_msgs rounds)"
    using run by simp
  show "fst (Stop_consumer (snd after)) = [Consumer_close, Destroy]"
    using run st(3) by (simp add: Stop_consumer_def Let_def assms(2) Run_consumer_rk)
  fix ps early m h
  assume ps: "find_topic (ce_topics e) t = Some ps" and r: "rounds = early @ [(m, h)]" and ten: "length rounds mod 10 = 0"
  have "(0 + int (length early) + 1) mod 10 = 0" using ten unfolding r by (simp, presburger)
  from Run_consumer_lag [OF st(1,2) this, of m h] run ps st(4-6)
  show "kc_lag (snd after) = (\<Sum>p\<leftarrow>ps. case h p of Some x \<Rightarrow> x | None \<Rightarrow> 0)
           - (\<Sum>p\<leftarrow>ps. case ce_high e p of Some x \<Rightarrow> x | None \<Rightarrow> 0) - int (length (good_msgs rounds))"
    unfolding assms(2) r [symmetric] by (simp add: high_sum_add)
next
  assume bad: "fst start \<noteq> 0"
  have nr: "\<not> kc_running (snd start)" "kc_rk (snd start) = ce_new e"
    using bad unfolding assms(1)
    by (auto simp: Start_consumer_def new_consumer_def Let_def split: if_splits option.splits)
  show "fst after = []" using nr(1) unfolding assms(2) by (cases rounds) auto
  show "Stop_consumer (snd start) = ([], snd start)" using nr(1) by (simp add: Stop_consumer_def)
  show "kc_rk (snd start) = ce_new e" by (rule nr(2))
qed

theorem Consumer_lag_witness:
  "Stop_consumer (snd (Start_consumer \<lparr>ce_new = True, ce_md_err = NO_ERROR, ce_topics = [(''x'', [0])], ce_assign = NO_ERROR,
     ce_high = \<lambda>_. Some 0\<rparr> True (new_consumer ''b'' ''t''))) = ([], snd (Start_consumer \<lparr>ce_new = True, ce_md_err = NO_ERROR,
     ce_topics = [(''x'', [0])], ce_assign = NO_ERROR, ce_high = \<lambda>_. Some 0\<rparr> True (new_consumer ''b'' ''t'')))"
  using Consumer_lag [OF refl refl, of "\<lparr>ce_new = True, ce_md_err = NO_ERROR, ce_topics = [(''x'', [0])], ce_assign = NO_ERROR,
     ce_high = \<lambda>_. Some 0\<rparr>" "''b''" "''t''" "[]"]
  by (simp add: Start_consumer_def new_consumer_def Let_def c_str_def)

end
