(* ===== verification/Web_Server.thy ===== *)
theory Web_Server
  imports Web_Report Http_Sse Kafka_Client
begin

text \<open>
  The web server process (\<open>webserver/src/main.cpp\<close>): reports from the middleware go to Kafka, what
  comes back from Kafka is parsed, counted and pushed to the browsers, at most one frame event in
  100 ms and one statistics event each second; the start with its early returns and the orderly
  end. Times of the steady clock are integers in nanoseconds.
\<close>

section \<open>State\<close>

text \<open>
  The globals and the locals of \<open>main\<close>. \<open>wb_armed\<close> is \<open>g_producer != nullptr\<close>; \<open>wb_alive\<close> says that the
  object it points to has not been destroyed.
\<close>

record web =
  wb_stats :: Stats
  wb_last :: int
  wb_http :: server
  wb_producer :: KafkaProducer
  wb_consumer :: KafkaConsumer
  wb_armed :: bool
  wb_alive :: bool

definition new_web :: "string \<Rightarrow> string \<Rightarrow> web" where
  "new_web brokers tpc = \<lparr>wb_stats = init_Stats, wb_last = 0, wb_http = new_server, wb_producer = new_producer brokers tpc,
     wb_consumer = new_consumer brokers tpc, wb_armed = False, wb_alive = True\<rparr>"

definition dec32 :: "u32 \<Rightarrow> string" where "dec32 w = dec_string (unat w)"
definition dec16 :: "u16 \<Rightarrow> string" where "dec16 w = dec_string (unat w)"

section \<open>Reports to Kafka\<close>

text \<open>\<open>OnDtsReport\<close>; \<open>rc\<close> is what the library answers. \<open>None\<close> is a call on a destroyed producer.\<close>

definition OnDtsReport :: "kerr \<Rightarrow> bytes option \<Rightarrow> web \<Rightarrow> web option" where
  "OnDtsReport rc data w = (case data of
     None \<Rightarrow> Some w
   | Some bs \<Rightarrow>
      if bs = [] \<or> \<not> wb_armed w then Some w
      else let v = snd (ParseReport (Some bs) (of_nat (length bs)) zero_view);
               seqStr = snprintf_text 16 (dec32 (v_seq v));
               tsStr = snprintf_text 24 (dec_string (unat (v_timestampMs v)))
           in if \<not> wb_alive w then None
              else Some (w\<lparr>wb_producer := snd (Produce rc bs (of_nat (length bs)) (dec32 (v_taskId v))
                     [(''seq'', seqStr), (''ts_ms'', tsStr)] (wb_producer w))\<rparr>))"

section \<open>Kafka to the browsers\<close>

definition frame_event :: "ReportView \<Rightarrow> int \<Rightarrow> string" where
  "frame_event v offset = ''{\"seq\":'' @ dec32 (v_seq v) @ '',\"task\":'' @ dec32 (v_taskId v) @
     '',\"ts_ms\":'' @ dec_string (unat (v_timestampMs v)) @ '',\"slices\":'' @ dec16 (v_sliceCount v) @
     '',\"data_ids\":['' @ dec16 (v_dataIdMin v) @ '','' @ dec16 (v_dataIdMax v) @ ''],\"len\":'' @ dec32 (v_frameLen v) @
     '',\"offset\":'' @ int_string offset @ ''}''"

text \<open>A message of the topic, with the clocks when it is handled and the writes that then succeed.\<close>

record web_msg =
  wm_data :: bytes
  wm_len :: u32
  wm_offset :: int
  wm_now :: int
  wm_sec :: int
  wm_ok :: "nat \<Rightarrow> bool"

definition OnMessage :: "web_msg \<Rightarrow> web \<Rightarrow> web" where
  "OnMessage m w = (let (parsed, v) = ParseReport (Some (wm_data m)) (wm_len m) zero_view in
     if \<not> parsed then w
     else let w1 = w\<lparr>wb_stats := OnReport v (wm_sec m) (wb_stats w)\<rparr> in
       if wm_now m - wb_last w1 \<ge> 100000000
       then w1\<lparr>wb_last := wm_now m,
               wb_http := Broadcast ''frame'' (snprintf_text 256 (frame_event v (wm_offset m))) (wm_ok m) (wb_http w1)\<rparr>
       else w1)"

text \<open>
  One turn of the main loop: \<open>SnapshotJson\<close> for the log and again for the event, at two readings of
  the clock. \<open>json\<close> prints a snapshot (its doubles need the C library's \<open>%f\<close>).
\<close>

definition every_second :: "(Snapshot \<Rightarrow> string) \<Rightarrow> int \<Rightarrow> int \<Rightarrow> (nat \<Rightarrow> bool) \<Rightarrow> web \<Rightarrow> string \<times> web" where
  "every_second json sec1 sec2 ok w =
    (let (logged, st1) = SnapshotJson sec1 (wb_stats w); (pushed, st2) = SnapshotJson sec2 st1 in
     (json logged, w\<lparr>wb_stats := st2, wb_http := Broadcast ''stats'' (json pushed) ok (wb_http w)\<rparr>))"

section \<open>Start and end\<close>

record web_args =
  wa_cfg :: string
  wa_brokers :: string
  wa_port :: u16
  wa_topic :: string
  wa_dir :: string

text \<open>\<open>atoi\<close> is \<open>strtol\<close> cut to an \<open>int\<close>; the port then keeps its low 16 bits.\<close>

definition parse_args :: "string list \<Rightarrow> web_args option" where
  "parse_args argv =
    (if length argv < 2 then None
     else Some \<lparr>wa_cfg = argv ! 1,
       wa_brokers = (if length argv \<ge> 3 then argv ! 2 else ''localhost:9092''),
       wa_port = (if length argv \<ge> 4 then of_int (strtol10 (argv ! 3)) else 8080),
       wa_topic = (if length argv \<ge> 5 then argv ! 4 else ''dts.report''),
       wa_dir = (if length argv \<ge> 6 then argv ! 5 else ''./web'')\<rparr>)"

text \<open>What the outside answers: the middleware, the Kafka client, the files, the sockets, the subscription.\<close>

record web_env =
  we_good :: "string \<Rightarrow> bool"
  we_producer :: producer_env
  we_consumer :: consumer_env
  we_file :: "string \<Rightarrow> string"
  we_socket :: bool
  we_bind :: bool
  we_subscribe :: int

text \<open>The destructors at the end of \<open>main\<close>, in reverse order of construction.\<close>

definition destroy_locals :: "web \<Rightarrow> kcall list \<times> web" where
  "destroy_locals w =
    (let (c1, kc) = Stop_consumer (wb_consumer w); hs = Stop_http (wb_http w); (c2, kp) = Shutdown_producer (wb_producer w)
     in (c1 @ c2, w\<lparr>wb_consumer := kc, wb_http := hs, wb_producer := kp, wb_alive := False\<rparr>))"

text \<open>\<open>main\<close> up to its loop: \<open>Inl\<close> is an early return with its exit code, after the destructors.\<close>

definition web_start :: "web_env \<Rightarrow> string list \<Rightarrow> (int \<times> kcall list \<times> web) + web" where
  "web_start e argv = (case parse_args argv of
     None \<Rightarrow> Inl (1, [], new_web [] [])
   | Some a \<Rightarrow>
     (let w0 = new_web (wa_brokers a) (wa_topic a) in
      if \<not> we_good e (wa_cfg a) then Inl (1, [], w0)
      else let (prc, kp) = Start_producer (we_producer e) (wb_producer w0); w1 = w0\<lparr>wb_producer := kp\<rparr> in
        if prc \<noteq> 0 then Inl (1, destroy_locals w1)
        else let (crc, kc) = Start_consumer (we_consumer e) True (wb_consumer w1); w2 = w1\<lparr>wb_consumer := kc\<rparr> in
          if crc \<noteq> 0 then Inl (1, destroy_locals w2)
          else let (hrc, hs) = Start_http (wa_port a) (we_file e (wa_dir a @ ''/index.html'')) (we_socket e) (we_bind e) (wb_http w2);
                   w3 = w2\<lparr>wb_http := hs\<rparr> in
            if hrc \<noteq> 0 then Inl (1, destroy_locals w3)
            else let w4 = w3\<lparr>wb_armed := True\<rparr> in
              if we_subscribe e \<noteq> 0 then Inl (1, destroy_locals w4) else Inr w4))"

text \<open>After the loop; the destructors that follow find nothing left to free.\<close>

definition web_end :: "web \<Rightarrow> kcall list \<times> web" where
  "web_end w = (let (c1, kc) = Stop_consumer (wb_consumer w); (c2, kp) = Shutdown_producer (wb_producer w);
     hs = Stop_http (wb_http w) in (c1 @ c2, w\<lparr>wb_consumer := kc, wb_producer := kp, wb_http := hs\<rparr>))"

section \<open>Frame events\<close>

lemma length_dec32_w: "length (dec32 w) \<le> 10"
  using length_dec32 by (simp add: dec32_def)

lemma length_dec16_w: "length (dec16 w) \<le> 5"
  using length_dec_u16 by (simp add: dec16_def)

lemma frame_event_fits:
  assumes "- (2 ^ 63) \<le> off" "off < 2 ^ 63"
  shows "snprintf_text 256 (frame_event v off) = frame_event v off"
proof -
  have "length (frame_event v off) < 256"
    using length_int_string [OF assms] length_dec32_w [of "v_seq v"] length_dec32_w [of "v_taskId v"] length_dec32_w [of "v_frameLen v"]
      length_dec16_w [of "v_sliceCount v"] length_dec16_w [of "v_dataIdMin v"] length_dec16_w [of "v_dataIdMax v"]
      length_dec_u64 [of "v_timestampMs v"]
    by (simp add: frame_event_def del: One_nat_def)
  then show ?thesis by (simp add: snprintf_text_def)
qed

text \<open>The messages that parse, and those among them that become events: the first that is due, and so on.\<close>

definition parsed_of :: "web_msg \<Rightarrow> ReportView option" where
  "parsed_of m = (let (p, v) = ParseReport (Some (wm_data m)) (wm_len m) zero_view in if p then Some v else None)"

fun pushes :: "int \<Rightarrow> web_msg list \<Rightarrow> (ReportView \<times> web_msg) list" where
  "pushes last_push [] = []"
| "pushes last_push (m # ms) = (case parsed_of m of
     Some v \<Rightarrow> if wm_now m - last_push \<ge> 100000000 then (v, m) # pushes (wm_now m) ms else pushes last_push ms
   | None \<Rightarrow> pushes last_push ms)"

definition run_messages :: "web_msg list \<Rightarrow> web \<Rightarrow> web" where
  "run_messages ms w = fold OnMessage ms w"

definition counted_views :: "web_msg list \<Rightarrow> (ReportView \<times> int) list" where
  "counted_views ms = [(v, wm_sec m). m \<leftarrow> ms, v \<leftarrow> (case parsed_of m of Some v \<Rightarrow> [v] | None \<Rightarrow> [])]"

lemma OnMessage_alt:
  "OnMessage m w = (case parsed_of m of None \<Rightarrow> w
    | Some v \<Rightarrow> let w1 = w\<lparr>wb_stats := OnReport v (wm_sec m) (wb_stats w)\<rparr> in
       if wm_now m - wb_last w \<ge> 100000000
       then w1\<lparr>wb_last := wm_now m, wb_http := Broadcast ''frame'' (snprintf_text 256 (frame_event v (wm_offset m))) (wm_ok m) (wb_http w)\<rparr>
       else w1)"
  by (simp add: OnMessage_def parsed_of_def split_beta Let_def)

lemma Broadcast_events: "hs_events (Broadcast ev j ok s) = hs_events s @ [sse_text ev j]"
  by (simp add: Broadcast_def Let_def)

lemma pushes_spaced: "successively (\<lambda>a b. b - a \<ge> 100000000) (t # map (\<lambda>p. wm_now (snd p)) (pushes t ms))"
proof (induction t ms rule: pushes.induct)
  case (2 t m ms)
  show ?case
  proof (cases "parsed_of m")
    case (Some v)
    then show ?thesis using 2 by (cases "wm_now m - t \<ge> 100000000") simp_all
  qed (use 2 in simp)
qed simp

lemma run_messages_facts:
  assumes "\<forall>m \<in> set ms. - (2 ^ 63) \<le> wm_offset m \<and> wm_offset m < 2 ^ 63"
  shows "hs_events (wb_http (run_messages ms w)) = hs_events (wb_http w) @
      map (\<lambda>(v, m). sse_text ''frame'' (frame_event v (wm_offset m))) (pushes (wb_last w) ms) \<and>
    wb_stats (run_messages ms w) = run_reports (counted_views ms) (wb_stats w)"
  using assms
proof (induction ms arbitrary: w)
  case (Cons m ms)
  have off: "snprintf_text 256 (frame_event v (wm_offset m)) = frame_event v (wm_offset m)" for v
    using Cons.prems by (intro frame_event_fits) simp_all
  have IH: "hs_events (wb_http (run_messages ms x)) = hs_events (wb_http x) @
      map (\<lambda>(v, m). sse_text ''frame'' (frame_event v (wm_offset m))) (pushes (wb_last x) ms) \<and>
    wb_stats (run_messages ms x) = run_reports (counted_views ms) (wb_stats x)" for x
    using Cons.prems by (intro Cons.IH) simp
  have step: "run_messages (m # ms) w = run_messages ms (OnMessage m w)" by (simp add: run_messages_def)
  show ?case
  proof (cases "parsed_of m")
    case None
    then show ?thesis using IH [of w] by (simp add: step OnMessage_alt counted_views_def)
  next
    case (Some v)
    have cv: "run_reports (counted_views (m # ms)) s = run_reports (counted_views ms) (OnReport v (wm_sec m) s)" for s
      using Some by (simp add: counted_views_def run_reports_def)
    show ?thesis using IH [of "OnMessage m w"] Some
      by (auto simp: step OnMessage_alt cv Let_def Broadcast_events off)
  qed
qed (simp add: run_messages_def counted_views_def run_reports_def)

text \<open>C33: What the browsers see of the frames. Whatever messages come, in whatever order, the statistics
  count exactly those that parse; the frame events are those of the messages the 100 ms rule
  selects, each with the full text of its report (it never fills the 256-byte buffer), in order
  and at least 100 ms apart. Nothing else is pushed.\<close>

theorem Frame_events_throttled:
  assumes "\<forall>m \<in> set ms. - (2 ^ 63) \<le> wm_offset m \<and> wm_offset m < 2 ^ 63"
  shows "hs_events (wb_http (run_messages ms w)) = hs_events (wb_http w) @
      map (\<lambda>(v, m). sse_text ''frame'' (frame_event v (wm_offset m))) (pushes (wb_last w) ms) \<and>
    successively (\<lambda>a b. b - a \<ge> 100000000) (wb_last w # map (\<lambda>p. wm_now (snd p)) (pushes (wb_last w) ms)) \<and>
    wb_stats (run_messages ms w) = run_reports (counted_views ms) (wb_stats w)"
  using run_messages_facts [OF assms, of w] pushes_spaced [of "wb_last w" ms] by blast

theorem Frame_events_throttled_witness:
  "length (pushes 0 (map (\<lambda>t. \<lparr>wm_data = replicate 24 0, wm_len = 24, wm_offset = 1, wm_now = t, wm_sec = 1, wm_ok = \<lambda>_. True\<rparr>)
      [200000000, 250000000, 300000000])) = 2 \<and>
   length (hs_events (wb_http (run_messages (map (\<lambda>t. \<lparr>wm_data = replicate 24 0, wm_len = 24, wm_offset = 1, wm_now = t, wm_sec = 1,
      wm_ok = \<lambda>_. True\<rparr>) [200000000, 250000000, 300000000]) (new_web ''b'' ''t'')))) = 2"
proof -
  let ?ms = "map (\<lambda>t. \<lparr>wm_data = replicate 24 0, wm_len = 24, wm_offset = 1, wm_now = t, wm_sec = 1, wm_ok = \<lambda>_. True\<rparr>)
      [200000000, 250000000, 300000000]"
  have p: "length (pushes 0 ?ms) = 2"
    by (simp add: parsed_of_def ParseReport_def sizeof_ReportHeader_def Let_def split_beta)
  have h: "\<forall>m \<in> set ?ms. - (2 ^ 63) \<le> wm_offset m \<and> wm_offset m < 2 ^ 63" by simp
  have "hs_events (wb_http (run_messages ?ms (new_web ''b'' ''t''))) = hs_events (wb_http (new_web ''b'' ''t'')) @
      map (\<lambda>(v, m). sse_text ''frame'' (frame_event v (wm_offset m))) (pushes (wb_last (new_web ''b'' ''t'')) ?ms)"
    by (rule Frame_events_throttled [OF h, THEN conjunct1])
  then have "length (hs_events (wb_http (run_messages ?ms (new_web ''b'' ''t'')))) = length (pushes 0 ?ms)"
    by (simp add: new_web_def new_server_def del: pushes.simps list.map)
  with p show ?thesis by simp
qed

section \<open>A report's way to the browsers\<close>

lemma snprintf_dec32: "snprintf_text 16 (dec32 w) = dec32 w"
  using length_dec32_w [of w] by (simp add: snprintf_text_def)

lemma snprintf_dec64: "snprintf_text 24 (dec_string (unat (w :: u64))) = dec_string (unat w)"
  using length_dec_u64 [of w] by (simp add: snprintf_text_def)

lemma c_str_literals: "c_str ''seq'' = ''seq''" "c_str ''ts_ms'' = ''ts_ms''"
  by (simp_all add: c_str_def)

text \<open>C25: From the middleware through Kafka to the browsers. A report built by the aggregator is handed
  to Kafka once and unchanged, keyed by its task, with its sequence number and time as headers.
  When these bytes come back, the statistics count one frame with its length, remember its task
  and number, and count a gap exactly if the number does not follow the last one; when an event
  is due it shows the number, task, time, slice count, the range of ids and the length of that
  report.\<close>

theorem Report_to_browser:
  assumes "length pad = 4" "\<forall>s \<in> set ss. length (snd s) < 65536" "length ss \<le> 1000" "ss \<noteq> []"
    and "24 + length (payload ss) < 2 ^ 32" "f = report_frame pad t ts seq ss"
    and "wb_armed w" "wb_alive w" "kp_rk (wb_producer w)"
    and "- (2 ^ 63) \<le> off" "off < 2 ^ 63"
  shows "OnDtsReport NO_ERROR (Some f) w = Some (w\<lparr>wb_producer := (wb_producer w)
      \<lparr>kp_sent := kp_sent (wb_producer w) @ [\<lparr>km_value = f, km_key = dec32 t,
           km_headers = [(''seq'', dec32 seq), (''ts_ms'', dec_string (unat ts))]\<rparr>],
        kp_queued := kp_queued (wb_producer w) + 1\<rparr>\<rparr>) \<and>
    (let w1 = OnMessage \<lparr>wm_data = f, wm_len = of_nat (length f), wm_offset = off, wm_now = now, wm_sec = sec, wm_ok = ok\<rparr> w in
      w_totalFrames (wb_stats w1) = w_totalFrames (wb_stats w) + 1 \<and>
      w_totalBytes (wb_stats w1) = w_totalBytes (wb_stats w) + of_nat (length f) \<and>
      w_lastSeq (wb_stats w1) = seq \<and> w_lastTaskId (wb_stats w1) = t \<and>
      w_gaps (wb_stats w1) = w_gaps (wb_stats w) +
        (if w_hasLastSeq (wb_stats w) \<and> seq \<noteq> w_lastSeq (wb_stats w) + 1 then 1 else 0) \<and>
      hs_events (wb_http w1) = hs_events (wb_http w) @ (if now - wb_last w \<ge> 100000000
        then [sse_text ''frame'' (''{\"seq\":'' @ dec32 seq @ '',\"task\":'' @ dec32 t @ '',\"ts_ms\":'' @ dec_string (unat ts) @
          '',\"slices\":'' @ dec_string (length ss) @ '',\"data_ids\":['' @ dec16 (ids_min 0xFFFF ss) @ '','' @
          dec16 (ids_max 0 ss) @ ''],\"len\":'' @ dec_string (length f) @ '',\"offset\":'' @ int_string off @ ''}'')] else []))"
proof -
  obtain v where p: "ParseReport (Some f) (of_nat (length f)) zero_view = (True, v)"
    and v: "v_taskId v = t" "v_timestampMs v = ts" "v_seq v = seq" "unat (v_frameLen v) = 24 + length (payload ss)"
      "unat (v_sliceCount v) = length ss" "v_dataIdMin v = ids_min 0xFFFF ss" "v_dataIdMax v = ids_max 0 ss"
    using parse_frame [OF assms(1,2,3,5,6,4)] by blast
  have len: "length f = 24 + length (payload ss)" using assms(1,6) by (simp add: report_frame_def)
  then have ul: "unat (of_nat (length f) :: u32) = length f" using assms(5) by (simp add: unat_of_nat del: of_nat_add)
  have "unat (of_nat (length f) :: u64) = length f" using len assms(5) by (simp add: unat_of_nat del: of_nat_add)
  then have uc: "(ucast (v_frameLen v) :: u64) = of_nat (length f)"
    using v(4) len by (simp add: word_unat_eq_iff)
  have ne: "f \<noteq> []" using len by auto
  have a: "OnDtsReport NO_ERROR (Some f) w = Some (w\<lparr>wb_producer := (wb_producer w)
      \<lparr>kp_sent := kp_sent (wb_producer w) @ [\<lparr>km_value = f, km_key = dec32 t,
           km_headers = [(''seq'', dec32 seq), (''ts_ms'', dec_string (unat ts))]\<rparr>],
        kp_queued := kp_queued (wb_producer w) + 1\<rparr>\<rparr>)"
    using ne assms(7-9) ul by (simp add: OnDtsReport_def p v snprintf_dec32 snprintf_dec64 Produce_def c_str_literals Let_def)
  have ev: "snprintf_text 256 (frame_event v off) = ''{\"seq\":'' @ dec32 seq @ '',\"task\":'' @ dec32 t @ '',\"ts_ms\":'' @
      dec_string (unat ts) @ '',\"slices\":'' @ dec_string (length ss) @ '',\"data_ids\":['' @ dec16 (ids_min 0xFFFF ss) @ '','' @
      dec16 (ids_max 0 ss) @ ''],\"len\":'' @ dec_string (length f) @ '',\"offset\":'' @ int_string off @ ''}''"
    unfolding frame_event_fits [OF assms(10,11)]
    unfolding frame_event_def v(1-3,6,7) dec16_def [of "v_sliceCount v"] v(5)
      dec32_def [of "v_frameLen v"] v(4) len ..
  let ?m = "\<lparr>wm_data = f, wm_len = of_nat (length f), wm_offset = off, wm_now = now, wm_sec = sec, wm_ok = ok\<rparr>"
  have pv: "parsed_of ?m = Some v" by (simp add: parsed_of_def p)
  have st: "wb_stats (OnMessage ?m w) = OnReport v sec (wb_stats w)"
    by (simp add: OnMessage_alt pv Let_def)
  have ht: "hs_events (wb_http (OnMessage ?m w)) = hs_events (wb_http w) @
      (if now - wb_last w \<ge> 100000000 then [sse_text ''frame'' (snprintf_text 256 (frame_event v off))] else [])"
    by (simp add: OnMessage_alt pv Let_def Broadcast_events)
  have cnt: "w_totalFrames (OnReport v sec s) = w_totalFrames s + 1" "w_totalBytes (OnReport v sec s) = w_totalBytes s + of_nat (length f)"
    "w_lastSeq (OnReport v sec s) = seq" "w_lastTaskId (OnReport v sec s) = t"
    "w_gaps (OnReport v sec s) = w_gaps s + (if w_hasLastSeq s \<and> seq \<noteq> w_lastSeq s + 1 then 1 else 0)" for s
    by (simp_all add: OnReport_def AddBucket_def RollTo_def Let_def v(1,3) uc)
  show ?thesis unfolding Let_def st ht cnt ev using a by simp
qed

theorem Report_to_browser_witness:
  "w_lastSeq (wb_stats (OnMessage \<lparr>wm_data = report_frame [0,0,0,0] 7 100 3 [(2, [1,2,3])], wm_len = 31, wm_offset = 5,
     wm_now = 1, wm_sec = 1, wm_ok = \<lambda>_. True\<rparr> ((new_web ''b'' ''t'')\<lparr>wb_armed := True, wb_producer := (new_producer ''b'' ''t'')\<lparr>kp_rk := True\<rparr>\<rparr>))) = 3"
  using Report_to_browser [of "[0,0,0,0]" "[(2, [1,2,3])]" _ 7 100 3
      "(new_web ''b'' ''t'')\<lparr>wb_armed := True, wb_producer := (new_producer ''b'' ''t'')\<lparr>kp_rk := True\<rparr>\<rparr>" 5 1 1 "\<lambda>_. True",
      OF _ _ _ _ _ refl]
  by (simp add: new_web_def report_frame_def Let_def)

section \<open>Life of the process\<close>

lemma Start_http_new:
  "Start_http prt page sk bd s = (if page \<noteq> [] \<and> sk \<and> bd then (0, s\<lparr>hs_index := page, hs_port := prt, hs_running := True\<rparr>)
     else (- 1, s\<lparr>hs_index := page, hs_port := (if page = [] then hs_port s else prt)\<rparr>))"
  by (simp add: Start_http_def Let_def)

definition consumer_starts :: "consumer_env \<Rightarrow> string \<Rightarrow> bool" where
  "consumer_starts c t \<longleftrightarrow> ce_new c \<and> ce_md_err c = NO_ERROR \<and> find_topic (ce_topics c) t \<noteq> None \<and> ce_assign c = NO_ERROR"

definition producer_starts :: "producer_env \<Rightarrow> bool" where
  "producer_starts p \<longleftrightarrow> ev_new p \<and> ev_topic_new p \<and> ev_metadata p = NO_ERROR \<and> ev_newtopic p \<and>
     ev_create p \<in> {Some NO_ERROR, Some TOPIC_ALREADY_EXISTS}"

lemma Start_producer_starts: "fst (Start_producer e s) = 0 \<longleftrightarrow> producer_starts e"
  by (cases "ev_create e") (auto simp: Start_producer_def producer_starts_def Let_def)

lemma Start_producer_handles:
  "producer_starts e \<Longrightarrow> kp_rk (snd (Start_producer e s)) \<and> kp_rkt (snd (Start_producer e s))"
  by (cases "ev_create e") (auto simp: Start_producer_def producer_starts_def Let_def)

lemma Start_consumer_starts:
  "fst (Start_consumer e fn (new_consumer b t)) = 0 \<longleftrightarrow> consumer_starts e t"
  by (auto simp: Start_consumer_def consumer_starts_def new_consumer_def Let_def split: option.split)

lemma Start_consumer_handles:
  "consumer_starts e t \<Longrightarrow> kc_rk (snd (Start_consumer e fn (new_consumer b t))) \<and> kc_running (snd (Start_consumer e fn (new_consumer b t)))"
  by (auto simp: Start_consumer_def consumer_starts_def new_consumer_def Let_def split: option.split)

definition web_ok :: "web_env \<Rightarrow> web_args \<Rightarrow> bool" where
  "web_ok e a \<longleftrightarrow> we_good e (wa_cfg a) \<and> producer_starts (we_producer e) \<and> consumer_starts (we_consumer e) (wa_topic a) \<and>
     we_file e (wa_dir a @ ''/index.html'') \<noteq> [] \<and> we_socket e \<and> we_bind e \<and> we_subscribe e = 0"

text \<open>\<open>main\<close> without its intermediate states.\<close>

lemma web_start_alt:
  assumes "parse_args argv = Some a"
  shows "web_start e argv =
    (let w0 = new_web (wa_brokers a) (wa_topic a);
         w1 = w0\<lparr>wb_producer := snd (Start_producer (we_producer e) (wb_producer w0))\<rparr>;
         w2 = w1\<lparr>wb_consumer := snd (Start_consumer (we_consumer e) True (wb_consumer w0))\<rparr>;
         w3 = w2\<lparr>wb_http := snd (Start_http (wa_port a) (we_file e (wa_dir a @ ''/index.html'')) (we_socket e) (we_bind e) new_server)\<rparr>;
         w4 = w3\<lparr>wb_armed := True\<rparr>
     in if \<not> we_good e (wa_cfg a) then Inl (1, [], w0)
        else if \<not> producer_starts (we_producer e) then Inl (1, destroy_locals w1)
        else if \<not> consumer_starts (we_consumer e) (wa_topic a) then Inl (1, destroy_locals w2)
        else if \<not> (we_file e (wa_dir a @ ''/index.html'') \<noteq> [] \<and> we_socket e \<and> we_bind e) then Inl (1, destroy_locals w3)
        else if we_subscribe e \<noteq> 0 then Inl (1, destroy_locals w4) else Inr w4)"
proof -
  have c: "fst (Start_consumer (we_consumer e) True (wb_consumer (new_web b t))) = 0 \<longleftrightarrow> consumer_starts (we_consumer e) t" for b t
    using Start_consumer_starts [of "we_consumer e" True b t] by (simp add: new_web_def)
  have hs: "wb_http (new_web b t) = new_server" for b t by (simp add: new_web_def)
  show ?thesis
    by (simp add: web_start_def assms split_beta Let_def Start_producer_starts c hs Start_http_new)
qed

lemma Start_consumer_leaves:
  "\<not> consumer_starts e t \<Longrightarrow> \<not> kc_running (snd (Start_consumer e fn (new_consumer b t))) \<and>
     kc_rk (snd (Start_consumer e fn (new_consumer b t))) = ce_new e"
  by (auto simp: Start_consumer_def consumer_starts_def new_consumer_def Let_def split: option.split)

lemma new_web_fields [simp]:
  "wb_consumer (new_web b t) = new_consumer b t" "wb_producer (new_web b t) = new_producer b t" "wb_alive (new_web b t)"
  "wb_http (new_web b t) = new_server"
  by (simp_all add: new_web_def)

lemma new_consumer_idle [simp]: "\<not> kc_running (new_consumer b t)" "\<not> kc_rk (new_consumer b t)"
  by (simp_all add: new_consumer_def)

lemma web_up:
  assumes "parse_args argv = Some a" and ok: "web_ok e a"
  shows "\<exists>w. web_start e argv = Inr w \<and> hs_running (wb_http w) \<and> wb_armed w \<and> wb_alive w \<and>
      fst (web_end w) = [Consumer_close, Destroy, Flush 3000, Topic_destroy, Destroy] \<and>
      fst (destroy_locals (snd (web_end w))) = [] \<and>
      (\<forall>rc d. d \<noteq> [] \<longrightarrow> OnDtsReport rc (Some d) (snd (web_end w)) = Some (snd (web_end w)) \<and>
        OnDtsReport rc (Some d) (snd (destroy_locals (snd (web_end w)))) = None)"
proof -
  let ?kp = "snd (Start_producer (we_producer e) (new_producer (wa_brokers a) (wa_topic a)))"
  let ?kc = "snd (Start_consumer (we_consumer e) True (new_consumer (wa_brokers a) (wa_topic a)))"
  let ?hs = "snd (Start_http (wa_port a) (we_file e (wa_dir a @ ''/index.html'')) (we_socket e) (we_bind e) new_server)"
  let ?w = "(new_web (wa_brokers a) (wa_topic a))\<lparr>wb_producer := ?kp, wb_consumer := ?kc, wb_http := ?hs, wb_armed := True\<rparr>"
  have s: "web_start e argv = Inr ?w"
    using ok by (simp add: web_start_alt [OF assms(1)] web_ok_def Let_def)
  have kp: "kp_rk ?kp" "kp_rkt ?kp" using Start_producer_handles ok by (auto simp: web_ok_def)
  have kc: "kc_rk ?kc" "kc_running ?kc" using Start_consumer_handles ok by (auto simp: web_ok_def)
  have r: "hs_running ?hs" using ok by (simp add: Start_http_new web_ok_def)
  have p: "snd (Produce rc d len key h (?kp\<lparr>kp_rk := False, kp_rkt := False\<rparr>)) = ?kp\<lparr>kp_rk := False, kp_rkt := False\<rparr>"
    for rc d len key h by (simp add: Produce_def)
  have "OnDtsReport rc (Some d) (snd (web_end ?w)) = Some (snd (web_end ?w)) \<and>
        OnDtsReport rc (Some d) (snd (destroy_locals (snd (web_end ?w)))) = None" if "d \<noteq> []" for rc d
    using that kp kc p by (simp add: OnDtsReport_def web_end_def destroy_locals_def Stop_consumer_def Shutdown_producer_def Let_def)
  moreover have "fst (web_end ?w) = [Consumer_close, Destroy, Flush 3000, Topic_destroy, Destroy]"
    "fst (destroy_locals (snd (web_end ?w))) = []"
    using kp kc by (simp_all add: web_end_def destroy_locals_def Stop_consumer_def Shutdown_producer_def Let_def kFlushTimeoutMs_def)
  ultimately show ?thesis
    using s r by (intro exI [of _ ?w]) simp
qed

lemma web_fails:
  assumes "parse_args argv = Some a" and bad: "\<not> web_ok e a"
  shows "\<exists>calls w. web_start e argv = Inl (1, calls, w) \<and> \<not> kp_rk (wb_producer w) \<and> \<not> kp_rkt (wb_producer w) \<and>
      (kc_rk (wb_consumer w) \<longleftrightarrow> we_good e (wa_cfg a) \<and> producer_starts (we_producer e) \<and>
         \<not> consumer_starts (we_consumer e) (wa_topic a) \<and> ce_new (we_consumer e))"
proof -
  have d: "\<not> kp_rk (wb_producer (snd (destroy_locals w)))" "\<not> kp_rkt (wb_producer (snd (destroy_locals w)))"
    "kc_rk (wb_consumer (snd (destroy_locals w))) \<longleftrightarrow> kc_rk (wb_consumer w) \<and> \<not> kc_running (wb_consumer w)" for w
    by (auto simp: destroy_locals_def Stop_consumer_def Shutdown_producer_def Let_def)
  let ?w1 = "(new_web (wa_brokers a) (wa_topic a))\<lparr>wb_producer := snd (Start_producer (we_producer e) (new_producer (wa_brokers a) (wa_topic a)))\<rparr>"
  let ?w2 = "?w1\<lparr>wb_consumer := snd (Start_consumer (we_consumer e) True (new_consumer (wa_brokers a) (wa_topic a)))\<rparr>"
  let ?w3 = "?w2\<lparr>wb_http := snd (Start_http (wa_port a) (we_file e (wa_dir a @ ''/index.html'')) (we_socket e) (we_bind e) new_server)\<rparr>"
  note kc = Start_consumer_leaves [of "we_consumer e" "wa_topic a" True "wa_brokers a"]
    Start_consumer_handles [of "we_consumer e" "wa_topic a" True "wa_brokers a"]
  consider (comm) "\<not> we_good e (wa_cfg a)"
    | (prod) "we_good e (wa_cfg a)" "\<not> producer_starts (we_producer e)"
    | (cons) "we_good e (wa_cfg a)" "producer_starts (we_producer e)" "\<not> consumer_starts (we_consumer e) (wa_topic a)"
    | (http) "we_good e (wa_cfg a)" "producer_starts (we_producer e)" "consumer_starts (we_consumer e) (wa_topic a)"
        "\<not> (we_file e (wa_dir a @ ''/index.html'') \<noteq> [] \<and> we_socket e \<and> we_bind e)"
    | (sub) "we_good e (wa_cfg a)" "producer_starts (we_producer e)" "consumer_starts (we_consumer e) (wa_topic a)"
        "we_file e (wa_dir a @ ''/index.html'') \<noteq> [] \<and> we_socket e \<and> we_bind e" "we_subscribe e \<noteq> 0"
    using bad unfolding web_ok_def by blast
  then have "\<exists>x. web_start e argv = Inl (1, x) \<and> \<not> kp_rk (wb_producer (snd x)) \<and> \<not> kp_rkt (wb_producer (snd x)) \<and>
      (kc_rk (wb_consumer (snd x)) \<longleftrightarrow> we_good e (wa_cfg a) \<and> producer_starts (we_producer e) \<and>
         \<not> consumer_starts (we_consumer e) (wa_topic a) \<and> ce_new (we_consumer e))"
  proof cases
    case comm
    then show ?thesis by (simp add: web_start_alt [OF assms(1)] new_producer_def Let_def)
  next
    case prod
    then show ?thesis using d [of ?w1] by (simp add: web_start_alt [OF assms(1)] Let_def)
  next
    case cons
    then show ?thesis using d [of ?w2] kc by (simp add: web_start_alt [OF assms(1)] Let_def)
  next
    case http
    then have "web_start e argv = Inl (1, destroy_locals ?w3)" by (simp add: web_start_alt [OF assms(1)] Let_def)
    with http(1-3) show ?thesis using d [of ?w3] kc by simp
  next
    case sub
    then have "web_start e argv = Inl (1, destroy_locals (?w3\<lparr>wb_armed := True\<rparr>))" by (simp add: web_start_alt [OF assms(1)] Let_def)
    with sub(1-3) show ?thesis using d [of "?w3\<lparr>wb_armed := True\<rparr>"] kc by simp
  qed
  then show ?thesis by force
qed

text \<open>C34: The life of the web server. It runs exactly if the middleware, the producer, the consumer, the
  page, the port and the subscription all come up; otherwise it exits with 1, the producer's
  handles are freed, and the consumer's handle is left behind exactly if its \<open>Start\<close> failed after
  creating it. At the end the consumer is closed before the producer is flushed and freed, nothing
  is freed twice, and a report that still arrives then is refused. But once the locals of \<open>main\<close> are
  destroyed the middleware, constructed first, still delivers: such a report goes to the destroyed
  producer.\<close>

theorem Web_life:
  assumes "parse_args argv = Some a"
  shows "(web_ok e a \<longrightarrow> (\<exists>w. web_start e argv = Inr w \<and> hs_running (wb_http w) \<and> wb_armed w \<and> wb_alive w \<and>
      fst (web_end w) = [Consumer_close, Destroy, Flush 3000, Topic_destroy, Destroy] \<and>
      fst (destroy_locals (snd (web_end w))) = [] \<and>
      (\<forall>rc d. d \<noteq> [] \<longrightarrow> OnDtsReport rc (Some d) (snd (web_end w)) = Some (snd (web_end w)) \<and>
        OnDtsReport rc (Some d) (snd (destroy_locals (snd (web_end w)))) = None))) \<and>
    (\<not> web_ok e a \<longrightarrow> (\<exists>calls w. web_start e argv = Inl (1, calls, w) \<and> \<not> kp_rk (wb_producer w) \<and> \<not> kp_rkt (wb_producer w) \<and>
      (kc_rk (wb_consumer w) \<longleftrightarrow> we_good e (wa_cfg a) \<and> producer_starts (we_producer e) \<and>
         \<not> consumer_starts (we_consumer e) (wa_topic a) \<and> ce_new (we_consumer e))))"
  using web_up [OF assms, of e] web_fails [OF assms, of e] by blast

definition good_env :: web_env where
  "good_env = \<lparr>we_good = \<lambda>_. True, we_producer = \<lparr>ev_new = True, ev_topic_new = True, ev_metadata = NO_ERROR, ev_newtopic = True,
     ev_create = Some NO_ERROR\<rparr>, we_consumer = \<lparr>ce_new = True, ce_md_err = NO_ERROR, ce_topics = [(''dts.report'', [0])],
     ce_assign = NO_ERROR, ce_high = \<lambda>_. Some 0\<rparr>, we_file = \<lambda>_. ''page'', we_socket = True, we_bind = True, we_subscribe = 0\<rparr>"

theorem Web_life_witness:
  "(\<exists>w. web_start good_env [''web_server'', ''c.json''] = Inr w \<and>
     fst (web_end w) = [Consumer_close, Destroy, Flush 3000, Topic_destroy, Destroy] \<and>
     OnDtsReport NO_ERROR (Some [1]) (snd (destroy_locals (snd (web_end w)))) = None) \<and>
   (\<exists>calls w. web_start (good_env\<lparr>we_consumer := (we_consumer good_env)\<lparr>ce_assign := TIMED_OUT\<rparr>\<rparr>) [''web_server'', ''c.json''] =
     Inl (1, calls, w) \<and> kc_rk (wb_consumer w))"
proof -
  have a: "parse_args [''web_server'', ''c.json''] = Some \<lparr>wa_cfg = ''c.json'', wa_brokers = ''localhost:9092'', wa_port = 8080,
      wa_topic = ''dts.report'', wa_dir = ''./web''\<rparr>" by (simp add: parse_args_def)
  have ok: "web_ok good_env \<lparr>wa_cfg = ''c.json'', wa_brokers = ''localhost:9092'', wa_port = 8080,
      wa_topic = ''dts.report'', wa_dir = ''./web''\<rparr>"
    by (simp add: web_ok_def good_env_def producer_starts_def consumer_starts_def)
  have bad: "\<not> consumer_starts (we_consumer (good_env\<lparr>we_consumer := (we_consumer good_env)\<lparr>ce_assign := TIMED_OUT\<rparr>\<rparr>)) ''dts.report''"
    by (simp add: consumer_starts_def)
  have p: "producer_starts (we_producer good_env)" "we_good good_env c" "ce_new (we_consumer good_env)" for c
    by (simp_all add: good_env_def producer_starts_def)
  show ?thesis
    using Web_life [OF a, of good_env] ok
      Web_life [OF a, of "good_env\<lparr>we_consumer := (we_consumer good_env)\<lparr>ce_assign := TIMED_OUT\<rparr>\<rparr>"] bad p
    by (force simp: web_ok_def)
qed

end
