(* ===== verification/Console_Socket.thy ===== *)
theory Console_Socket
  imports Prelude_Text
begin

text \<open>
  The console's listening socket: its path, derived from the configuration file
  (\<open>MakeConsoleSockPath\<close> of \<open>bootstrap/src/run.cpp\<close>), and opening and closing it (\<open>console_start\<close>,
  \<open>console_stop\<close> of \<open>infrastructure/src/console.cpp\<close>). The file system is the set of paths that
  exist; a socket cannot be bound to one of them. Of the sessions there are their number
  (\<open>ck_live\<close>, the threads that exist) and the handles in \<open>g_sessions\<close> (\<open>ck_handles\<close>: is it joinable?).
\<close>

section \<open>The path\<close>

definition dot_json :: string where "dot_json = ''.json''"

definition MakeConsoleSockPath :: "string \<Rightarrow> string" where
  "MakeConsoleSockPath cfg_path =
    (let name = cfg_path;
         name1 = (case rfind_sub ''/'' name of Some slash \<Rightarrow> drop (slash + 1) name | None \<Rightarrow> name);
         name2 = (case rfind_sub dot_json name1 of Some dot \<Rightarrow> take dot name1 | None \<Rightarrow> name1)
     in ''/tmp/dts-'' @ name2 @ ''.sock'')"

section \<open>Start and stop\<close>

record console_sock =
  ck_fs :: "string set"
  ck_path :: string
  ck_listening :: bool
  ck_thread :: bool
  ck_stop :: bool
  ck_handles :: "bool list"
  ck_live :: nat

text \<open>What the system answers; \<open>sun_path\<close> holds 108 bytes with the NUL.\<close>

record sock_env =
  sv_socket :: bool
  sv_listen :: bool
  sv_thread :: bool

definition console_start :: "sock_env \<Rightarrow> cstr \<Rightarrow> console_sock \<Rightarrow> int \<times> console_sock" where
  "console_start e sock_path s = (case sock_path of
     None \<Rightarrow> (- 1, s)
   | Some p \<Rightarrow>
      (let path = c_str p; s1 = s\<lparr>ck_path := path\<rparr> in
       if \<not> sv_socket e then (- 1, s1)
       else let addr = snprintf_text 108 path; s2 = s1\<lparr>ck_fs := ck_fs s1 - {path}\<rparr> in
         if addr \<in> ck_fs s2 then (- 1, s2)
         else let s3 = s2\<lparr>ck_fs := insert addr (ck_fs s2)\<rparr> in
           if \<not> sv_listen e then (- 1, s3)
           else let s4 = s3\<lparr>ck_listening := True, ck_stop := False\<rparr> in
             if \<not> sv_thread e then (- 1, s4\<lparr>ck_listening := False\<rparr>)
             else (0, s4\<lparr>ck_thread := True\<rparr>)))"

text \<open>\<open>ConsoleLoop\<close> on a connection: the new thread's handle is stored and detached. A session's thread ends by itself.\<close>

definition accept_conn :: "console_sock \<Rightarrow> console_sock" where
  "accept_conn s = (if \<not> ck_thread s \<or> ck_stop s then s
     else let s1 = s\<lparr>ck_handles := ck_handles s @ [True], ck_live := Suc (ck_live s)\<rparr> in
       if last (ck_handles s1) then s1\<lparr>ck_handles := butlast (ck_handles s1) @ [False]\<rparr> else s1)"

definition session_gone :: "console_sock \<Rightarrow> console_sock" where
  "session_gone s = s\<lparr>ck_live := ck_live s - 1\<rparr>"

datatype conn_event = Accepted | Ended

fun console_conns :: "conn_event list \<Rightarrow> console_sock \<Rightarrow> console_sock" where
  "console_conns [] s = s"
| "console_conns (Accepted # cs) s = console_conns cs (accept_conn s)"
| "console_conns (Ended # cs) s = console_conns cs (session_gone s)"

text \<open>\<open>console_stop\<close>; a join waits until the thread of a joinable handle has ended.\<close>

definition join_sessions :: "console_sock \<Rightarrow> console_sock" where
  "join_sessions s = s\<lparr>ck_live := ck_live s - length (filter (\<lambda>joinable. joinable) (ck_handles s)), ck_handles := []\<rparr>"

definition console_stop :: "console_sock \<Rightarrow> console_sock" where
  "console_stop s =
    (let s1 = join_sessions (s\<lparr>ck_stop := True, ck_thread := False, ck_listening := False\<rparr>) in
     if ck_path s1 \<noteq> [] then s1\<lparr>ck_fs := ck_fs s1 - {ck_path s1}, ck_path := []\<rparr> else s1)"

definition new_sock :: console_sock where
  "new_sock = \<lparr>ck_fs = {}, ck_path = [], ck_listening = False, ck_thread = False, ck_stop = False, ck_handles = [], ck_live = 0\<rparr>"

definition all_well :: sock_env where
  "all_well = \<lparr>sv_socket = True, sv_listen = True, sv_thread = True\<rparr>"

section \<open>Results\<close>

lemma sun_path: "snprintf_text 108 p = p \<longleftrightarrow> length p \<le> 107"
  by (auto simp: snprintf_text_def dest: arg_cong [of _ _ length])

lemma start_short:
  assumes "length (c_str p) \<le> 107"
  shows "console_start all_well (Some p) s =
    (0, s\<lparr>ck_path := c_str p, ck_fs := insert (c_str p) (ck_fs s), ck_listening := True, ck_stop := False, ck_thread := True\<rparr>)"
  using assms by (simp add: console_start_def all_well_def sun_path [THEN iffD2] Let_def insert_Diff_single)

lemma start_long:
  assumes "length (c_str p) > 107"
  shows "console_start all_well (Some p) s =
    (if take 107 (c_str p) \<in> ck_fs s then (- 1, s\<lparr>ck_path := c_str p, ck_fs := ck_fs s - {c_str p}\<rparr>)
     else (0, s\<lparr>ck_path := c_str p, ck_fs := insert (take 107 (c_str p)) (ck_fs s - {c_str p}),
        ck_listening := True, ck_stop := False, ck_thread := True\<rparr>))"
proof -
  have "take 107 (c_str p) \<noteq> c_str p" using assms by (auto dest: arg_cong [of _ _ length])
  then show ?thesis by (auto simp: console_start_def all_well_def snprintf_text_def Let_def)
qed

lemma console_start_handles:
  "ck_handles (snd (console_start e p s)) = ck_handles s"
  by (simp add: console_start_def Let_def split: option.split)

text \<open>No handle stays joinable, so the join at the end waits for none of the sessions.\<close>

lemma conns_detached: "True \<notin> set (ck_handles s) \<Longrightarrow> True \<notin> set (ck_handles (console_conns cs s))"
  by (induction cs s rule: console_conns.induct) (auto simp: accept_conn_def session_gone_def Let_def)

lemma console_stop_live:
  assumes "True \<notin> set (ck_handles s)"
  shows "ck_live (console_stop s) = ck_live s" "ck_handles (console_stop s) = []"
proof -
  have "filter (\<lambda>joinable. joinable) (ck_handles s) = []" using assms by (simp add: filter_empty_conv) metis
  then show "ck_live (console_stop s) = ck_live s" "ck_handles (console_stop s) = []"
    by (simp_all add: console_stop_def join_sessions_def Let_def)
qed

text \<open>Restarting the console. If the path fits into a socket address, a start succeeds whatever is
  left of an earlier run, and the next stop removes the file. A longer path is cut when it is
  bound but not when it is removed: after a start and a stop the cut file remains, and every later
  start fails, as does a second instance whose path has the same first 107 characters.\<close>

theorem Console_restart:
  assumes "c_str p \<noteq> []"
  shows "if length (c_str p) \<le> 107
    then fst (console_start all_well (Some p) s) = 0 \<and>
      ck_fs (console_stop (snd (console_start all_well (Some p) s))) = ck_fs s - {c_str p} \<and>
      fst (console_start all_well (Some p) (snd (console_start all_well (Some p) s))) = 0
    else take 107 (c_str p) \<notin> ck_fs s \<longrightarrow>
      fst (console_start all_well (Some p) s) = 0 \<and>
      take 107 (c_str p) \<in> ck_fs (console_stop (snd (console_start all_well (Some p) s))) \<and>
      fst (console_start all_well (Some p) (console_stop (snd (console_start all_well (Some p) s)))) = - 1 \<and>
      (\<forall>q. length (c_str q) > 107 \<and> take 107 (c_str q) = take 107 (c_str p) \<longrightarrow>
         fst (console_start all_well (Some q) (snd (console_start all_well (Some p) s))) = - 1)"
proof (cases "length (c_str p) \<le> 107")
  case True
  then show ?thesis using assms by (simp add: start_short console_stop_def join_sessions_def Let_def)
next
  case False
  then have l: "length (c_str p) > 107" and n: "take 107 (c_str p) \<noteq> c_str p"
    by (auto dest: arg_cong [of _ _ length])
  then show ?thesis using assms by (simp add: start_long console_stop_def join_sessions_def Let_def)
qed

theorem Console_restart_witness:
  "fst (console_start all_well (Some ''/tmp/dts-a.sock'') (snd (console_start all_well (Some ''/tmp/dts-a.sock'') new_sock))) = 0 \<and>
   fst (console_start all_well (Some (replicate 120 CHR ''a'')) (console_stop (snd (console_start all_well (Some (replicate 120 CHR ''a'')) new_sock)))) = - 1"
proof -
  have c: "c_str (replicate 120 CHR ''a'') = replicate 120 CHR ''a''" "c_str ''/tmp/dts-a.sock'' = ''/tmp/dts-a.sock''"
    by (simp_all add: c_str_def takeWhile_eq_all_conv)
  show ?thesis
    using Console_restart [of "''/tmp/dts-a.sock''" new_sock] Console_restart [of "replicate 120 CHR ''a''" new_sock]
    by (simp add: c new_sock_def)
qed

text \<open>The path of a configuration file depends on its last component only.\<close>

lemma rfind_slash:
  assumes "CHR ''/'' \<notin> set n"
  shows "rfind_sub ''/'' (d @ ''/'' @ n) = Some (length d)" "rfind_sub ''/'' n = None"
proof -
  have f: "find_sub ''/'' (xs @ CHR ''/'' # ys) = Some (length xs)" if "CHR ''/'' \<notin> set xs" for xs ys
    using that by (induction xs) auto
  have g: "find_sub ''/'' xs = None" if "CHR ''/'' \<notin> set xs" for xs using that by (induction xs) auto
  show "rfind_sub ''/'' (d @ ''/'' @ n) = Some (length d)"
    using f [of "rev n" "rev d"] assms by (simp add: rfind_sub_def)
  show "rfind_sub ''/'' n = None" using g [of "rev n"] assms by (simp add: rfind_sub_def)
qed

lemma rfind_json: "CHR ''.'' \<notin> set n \<Longrightarrow> rfind_sub dot_json (n @ dot_json) = Some (length n)"
proof -
  assume "CHR ''.'' \<notin> set n"
  have "find_sub (rev dot_json) (rev (n @ dot_json)) = Some 0"
    by (simp add: dot_json_def)
  then show ?thesis by (simp add: rfind_sub_def)
qed

text \<open>The console's path. For a configuration \<open>dir/name.json\<close> it is \<open>/tmp/dts-name.sock\<close>, whatever the
  directory: instances with the same file name in different directories share one path, and the
  later one takes the earlier one's socket file away. The path fits into a socket address exactly
  if the name has at most 93 characters.\<close>

theorem Console_path:
  assumes "CHR ''/'' \<notin> set n" "CHR ''.'' \<notin> set n" "CHR 0x00 \<notin> set n"
  shows "MakeConsoleSockPath (d @ ''/'' @ n @ dot_json) = ''/tmp/dts-'' @ n @ ''.sock'' \<and>
    MakeConsoleSockPath (n @ dot_json) = ''/tmp/dts-'' @ n @ ''.sock'' \<and>
    (length (c_str (MakeConsoleSockPath (n @ dot_json))) \<le> 107 \<longleftrightarrow> length n \<le> 93)"
proof -
  have s: "CHR ''/'' \<notin> set (n @ dot_json)" using assms(1) by (simp add: dot_json_def)
  have a: "MakeConsoleSockPath (d @ ''/'' @ n @ dot_json) = ''/tmp/dts-'' @ n @ ''.sock''"
    using rfind_slash(1) [OF s, of d] rfind_json [OF assms(2)] by (simp add: MakeConsoleSockPath_def Let_def)
  have b: "MakeConsoleSockPath (n @ dot_json) = ''/tmp/dts-'' @ n @ ''.sock''"
    using rfind_slash(2) [OF s] rfind_json [OF assms(2)] by (simp add: MakeConsoleSockPath_def Let_def)
  have "\<forall>c \<in> set (''/tmp/dts-'' @ n @ ''.sock''). c \<noteq> CHR 0x00" using assms(3) by auto
  then have "c_str (''/tmp/dts-'' @ n @ ''.sock'') = ''/tmp/dts-'' @ n @ ''.sock''"
    unfolding c_str_def by (simp only: takeWhile_eq_all_conv)
  then have "length (c_str (MakeConsoleSockPath (n @ dot_json))) = length n + 14" unfolding b by simp
  with a b show ?thesis by simp
qed

theorem Console_path_witness:
  "MakeConsoleSockPath ''/etc/a/cpf-dts.json'' = ''/tmp/dts-cpf-dts.sock'' \<and>
   MakeConsoleSockPath ''/etc/a/cpf-dts.json'' = MakeConsoleSockPath ''/etc/b/cpf-dts.json''"
  using Console_path [of "''cpf-dts''" "''/etc/a''"] Console_path [of "''cpf-dts''" "''/etc/b''"]
  by (simp add: dot_json_def)

end
