(* ===== verification/Bootstrap.thy ===== *)
theory Bootstrap
  imports Console Console_Socket Contexts Thread_Loop
begin

text \<open>
  The composition root (\<open>bootstrap/src/run.cpp\<close>): the three commands it adds to the control plane, the
  functions behind all six, the subscriptions that carry a message into a thread's mailbox or to
  the control queue, the assembly of the process, and \<open>Run\<close> with its exit codes. Thread creation,
  the middleware and the generated route tables are arguments.
\<close>

section \<open>The commands' functions\<close>

text \<open>A group of handlers as \<open>get_handlers\<close> reads it.\<close>

type_synonym group_info = "cstr \<times> cstr \<times> (u32 \<times> cstr) list"

definition group_info :: "'s SessionMsgTable \<Rightarrow> group_info" where
  "group_info g = (sg_sessionType g, sg_sessionInst g,
     map (\<lambda>h. (mh_msgId h, mh_name h)) (case sg_entries g of Some tb \<Rightarrow> tb | None \<Rightarrow> []))"

text \<open>\<open>kGroupFns\<close>: the groups of the task, the data and the log thread.\<close>

definition kGroupFns :: "process_env \<Rightarrow> group_info list list" where
  "kGroupFns pe = [map group_info kTaskGroups, map group_info (kDataGroups pe), map group_info kLogGroups]"

definition hex_digit :: "nat \<Rightarrow> char" where
  "hex_digit d = (if d < 10 then char_of (48 + d) else char_of (55 + d))"

fun hex_string :: "nat \<Rightarrow> string" where
  "hex_string n = (if n < 16 then [hex_digit n] else hex_string (n div 16) @ [hex_digit (n mod 16)])"

declare hex_string.simps [simp del]

text \<open>\<open>%04X\<close>.\<close>

definition hex4 :: "u32 \<Rightarrow> string" where
  "hex4 w = (let h = hex_string (unat w) in replicate (4 - length h) CHR ''0'' @ h)"

definition handler_line :: "u32 \<times> cstr \<Rightarrow> string" where
  "handler_line h = snprintf_text 64 (''  0x'' @ hex4 (fst h) @ ''  '' @ cstr_text (snd h) @ newline)"

definition group_text :: "string \<Rightarrow> group_info \<Rightarrow> string" where
  "group_text want g = (case g of (st, si, hs) \<Rightarrow>
     case si of
       None \<Rightarrow> []
     | Some inst \<Rightarrow>
        if want \<noteq> [] \<and> want \<noteq> c_str inst then []
        else cstr_text st @ ''.'' @ c_str inst @ '' ('' @ dec_string (length hs) @ '' msgs)'' @ newline @ concat (map handler_line hs))"

definition CmdGetHandlers :: "process_env \<Rightarrow> string list \<Rightarrow> string \<Rightarrow> int \<times> string" where
  "CmdGetHandlers pe args out = (let want = (case args of [] \<Rightarrow> [] | a # _ \<Rightarrow> a) in
     (0, out @ concat (map (\<lambda>gs. concat (map (group_text want) gs)) (kGroupFns pe))))"

definition data_stats_text :: "DataStatsSnapshot \<Rightarrow> string" where
  "data_stats_text s = ''frames='' @ dec64 (s_frames s) @ '' max_us='' @ dec64 (s_frameMaxUs s) @
     '' warn='' @ dec64 (s_frameBudgetWarn s) @ '' alarm='' @ dec64 (s_frameBudgetAlarm s) @
     '' ticks='' @ dec_string (unat (s_ticks s)) @ '' budget_warn_us='' @ dec64 (s_budgetWarnUs s) @
     '' budget_alarm_us='' @ dec64 (s_budgetAlarmUs s) @ newline @
     ''drop_pool_full='' @ dec64 (s_dropPoolFull s) @ '' drop_slice_overcap='' @ dec64 (s_dropSliceOverCap s) @
     '' key_fail='' @ dec64 (s_keyFail s) @ newline"

definition CmdGetDataStats :: "DataFactory \<Rightarrow> string \<Rightarrow> int \<times> string" where
  "CmdGetDataStats f out = (0, out @ snprintf_text 512 (data_stats_text (Stats f)))"

definition CmdSetDataBudget :: "string list \<Rightarrow> string \<Rightarrow> DataFactory \<Rightarrow> int \<times> string \<times> DataFactory" where
  "CmdSetDataBudget args out f =
    (if length args < 2 then (1, ''usage: set_data_budget <warn_us> <alarm_us>'', f)
     else let w = fst (strtoull10 (c_str (args ! 0))); a = fst (strtoull10 (c_str (args ! 1))); (rc, f1) = SetBudget w a f in
       if rc \<noteq> 0 then (1, ''invalid budget (warn must be <= alarm and both > 0)'', f1)
       else (0, ''data budget -> warn='' @ dec64 w @ ''us alarm='' @ dec64 a @ ''us'', f1))"

text \<open>The threads' entries: \<open>ThreadEntry\<close> with the context of a business thread, and the two loops of the control plane.\<close>

datatype worker = Task | Data | Log

datatype entry_fn = ThreadEntry_fn worker | ConsoleLoop_fn | ControlLoop_fn

text \<open>What the commands read and change: the data factory, the logger, the thread table, the registry.\<close>

record world =
  dw_factory :: DataFactory
  dw_log :: log_state
  dw_threads :: "entry_fn ThreadFactory"
  dw_cmds :: "Command list"

definition run_cmd :: "process_env \<Rightarrow> cmd_fn \<Rightarrow> string list \<Rightarrow> string \<Rightarrow> world \<Rightarrow> int \<times> string \<times> world" where
  "run_cmd pe fn args out w = (case fn of
     CmdHelp_fn \<Rightarrow> (let (rc, o1) = CmdHelp (dw_cmds w) out in (rc, o1, w))
   | CmdGetThreads_fn \<Rightarrow> (let (rc, o1) = CmdGetThreads (dw_threads w) out in (rc, o1, w))
   | CmdSetLogLevel_fn \<Rightarrow> (let (rc, o1, lg) = CmdSetLogLevel args out (dw_log w) in (rc, o1, w\<lparr>dw_log := lg\<rparr>))
   | CmdGetHandlers_fn \<Rightarrow> (let (rc, o1) = CmdGetHandlers pe args out in (rc, o1, w))
   | CmdGetDataStats_fn \<Rightarrow> (let (rc, o1) = CmdGetDataStats (dw_factory w) out in (rc, o1, w))
   | CmdSetDataBudget_fn \<Rightarrow> (let (rc, o1, f) = CmdSetDataBudget args out (dw_factory w) in (rc, o1, w\<lparr>dw_factory := f\<rparr>)))"

definition bootstrap_commands :: "Command list" where
  "bootstrap_commands =
    [\<lparr>cd_name = Some ''get_handlers'', cd_usage = Some (''get_handlers [task|data|log] '' @ [CHR 0xE6, CHR 0x9F, CHR 0xA5, CHR 0xE7, CHR 0x9C, CHR 0x8B, CHR 0xE7, CHR 0xBA, CHR 0xBF, CHR 0xE7, CHR 0xA8, CHR 0x8B, CHR 0xE6, CHR 0xB6, CHR 0x88, CHR 0xE6, CHR 0x81, CHR 0xAF, CHR 0xE8, CHR 0xA1, CHR 0xA8, CHR 0xEF, CHR 0xBC, CHR 0x88] @ ''msgId'' @ [CHR 0xE2, CHR 0x86, CHR 0x92, CHR 0xE5, CHR 0xA4, CHR 0x84, CHR 0xE7, CHR 0x90, CHR 0x86, CHR 0xE5, CHR 0x87, CHR 0xBD, CHR 0xE6, CHR 0x95, CHR 0xB0, CHR 0xEF, CHR 0xBC, CHR 0x89]), cd_fn = Some CmdGetHandlers_fn\<rparr>,
     \<lparr>cd_name = Some ''get_data_stats'', cd_usage = Some (''get_data_stats '' @ [CHR 0xE6, CHR 0x9F, CHR 0xA5, CHR 0xE7, CHR 0x9C, CHR 0x8B] @ '' data '' @ [CHR 0xE7, CHR 0xBA, CHR 0xBF, CHR 0xE7, CHR 0xA8, CHR 0x8B, CHR 0xE5, CHR 0xA4, CHR 0x84, CHR 0xE7, CHR 0x90, CHR 0x86, CHR 0xE7, CHR 0xBB, CHR 0x9F, CHR 0xE8, CHR 0xAE, CHR 0xA1, CHR 0xEF, CHR 0xBC, CHR 0x88, CHR 0xE5, CHR 0xB8, CHR 0xA7, CHR 0xE8, CHR 0x80, CHR 0x97, CHR 0xE6, CHR 0x97, CHR 0xB6, CHR 0xE9, CHR 0xA2, CHR 0x84, CHR 0xE7, CHR 0xAE, CHR 0x97] @ ''/'' @ [CHR 0xE4, CHR 0xB8, CHR 0xA2, CHR 0xE5, CHR 0xBC, CHR 0x83, CHR 0xE8, CHR 0xAE, CHR 0xA1, CHR 0xE6, CHR 0x95, CHR 0xB0, CHR 0xEF, CHR 0xBC, CHR 0x89]), cd_fn = Some CmdGetDataStats_fn\<rparr>,
     \<lparr>cd_name = Some ''set_data_budget'', cd_usage = Some (''set_data_budget <warn_us> <alarm_us> '' @ [CHR 0xE8, CHR 0xB0, CHR 0x83, CHR 0xE6, CHR 0x95, CHR 0xB4] @ '' data '' @ [CHR 0xE5, CHR 0xB8, CHR 0xA7, CHR 0xE8, CHR 0x80, CHR 0x97, CHR 0xE6, CHR 0x97, CHR 0xB6, CHR 0xE9, CHR 0xA2, CHR 0x84, CHR 0xE7, CHR 0xAE, CHR 0x97, CHR 0xE9, CHR 0x98, CHR 0x88, CHR 0xE5, CHR 0x80, CHR 0xBC]), cd_fn = Some CmdSetDataBudget_fn\<rparr>]"

section \<open>Subscriptions\<close>

record SubRoute =
  rt_inst :: string
  rt_msgId :: u32

text \<open>\<open>sb_thread\<close> is empty for the control channel.\<close>

record Subscription =
  sb_ep :: endpoint
  sb_thread :: "worker option"

text \<open>
  A subscription's callback is \<open>OnRouteMsg\<close> (1) or \<open>OnRouteCtl\<close> (2); its context is the place of the
  subscription in \<open>subs\<close>.
\<close>

fun register_routes :: "'t transport_ops \<Rightarrow> nat \<Rightarrow> worker option \<Rightarrow> string \<Rightarrow> SubRoute list \<Rightarrow>
    Subscription list \<times> 't Communicator \<Rightarrow> Subscription list \<times> 't Communicator" where
  "register_routes ops fn th st [] s = s"
| "register_routes ops fn th st (r # rs) s =
    (let ep = \<lparr>session_type = st, session_inst = rt_inst r, msg_id = rt_msgId r\<rparr>;
         (rc, c) = subscribe ops ep (Some fn, length (fst s)) (snd s)
     in register_routes ops fn th st rs (if rc = 0 then (fst s @ [\<lparr>sb_ep = ep, sb_thread = th\<rparr>], c) else (fst s, c)))"

definition RegisterSubRoutes :: "'t transport_ops \<Rightarrow> worker \<Rightarrow> string \<Rightarrow> SubRoute list \<Rightarrow>
    Subscription list \<times> 't Communicator \<Rightarrow> Subscription list \<times> 't Communicator" where
  "RegisterSubRoutes ops w st rs s = register_routes ops 1 (Some w) st rs s"

definition RegisterCtlRoutes :: "'t transport_ops \<Rightarrow> SubRoute list \<Rightarrow>
    Subscription list \<times> 't Communicator \<Rightarrow> Subscription list \<times> 't Communicator" where
  "RegisterCtlRoutes ops rs s = register_routes ops 2 None SESSION_TYPE_DTS rs s"

definition OnRouteMsg :: "Subscription option \<Rightarrow> bytes option \<Rightarrow> (worker \<Rightarrow> Mailbox) \<Rightarrow> worker \<Rightarrow> Mailbox" where
  "OnRouteMsg userCtx data mb = (case userCtx of
     None \<Rightarrow> mb
   | Some sub \<Rightarrow> (case sb_thread sub of
        None \<Rightarrow> mb
      | Some t \<Rightarrow> mb(t := Send_move (msg_id (sb_ep sub)) data (Some (c_str (session_inst (sb_ep sub)))) (mb t))))"

definition OnRouteCtl :: "bytes option \<Rightarrow> 'w console \<Rightarrow> 'w console" where
  "OnRouteCtl data s = snd (control_submit_dds (map_option (map (\<lambda>b. char_of (unat b))) data) s)"

text \<open>A callback of the middleware.\<close>

definition route_callback :: "Subscription list \<Rightarrow> recv_id \<times> bytes \<Rightarrow> (worker \<Rightarrow> Mailbox) \<times> 'w console \<Rightarrow> (worker \<Rightarrow> Mailbox) \<times> 'w console" where
  "route_callback subs call s = (case call of ((fn, ctx), p) \<Rightarrow>
     if fn = Some 1 then (OnRouteMsg (Some (subs ! ctx)) (Some p) (fst s), snd s)
     else if fn = Some 2 then (fst s, OnRouteCtl (Some p) (snd s)) else s)"

section \<open>The process\<close>

text \<open>
  \<open>Process\<close> and the singletons that \<open>Run\<close> sets up. A worker has a handle (\<open>h != nullptr\<close>, which \<open>StopWorker\<close> does
  not reset) and a running thread.
\<close>

record 't process =
  ps_stop :: bool
  ps_comm :: "'t Communicator option"
  ps_mw :: bool
  ps_handle :: "worker \<Rightarrow> bool"
  ps_running :: "worker \<Rightarrow> bool"
  ps_subs :: "Subscription list"
  ps_sock :: console_sock
  ps_control :: bool
  ps_controlStop :: bool
  ps_cmds :: "bool \<times> Command list"
  ps_factory :: DataFactory
  ps_extractors :: extractor_table
  ps_log :: log_state

text \<open>
  What the process meets: the middleware's constructor on the configuration and its transport, the
  scheduler's answers, the generated route tables, the system calls of the console, fresh memory.
\<close>

record 't boot_env =
  be_comm :: "string \<Rightarrow> 't Communicator"
  be_ops :: "'t transport_ops"
  be_domain :: bool
  be_thread :: "string \<Rightarrow> bool"
  be_routes :: "worker \<Rightarrow> SubRoute list"
  be_control_routes :: "SubRoute list"
  be_sock :: sock_env
  be_fresh :: "nat \<Rightarrow> bytes"

text \<open>The middleware's global handle, set or cleared, and read.\<close>

definition DtsMwSet :: "bool \<Rightarrow> 't process \<Rightarrow> 't process" where
  [simp]: "DtsMwSet h p = p\<lparr>ps_mw := h\<rparr>"

definition DtsMw :: "'t process \<Rightarrow> bool" where
  [simp]: "DtsMw p = ps_mw p"

definition StopSignal_Request :: "'t process \<Rightarrow> 't process" where
  "StopSignal_Request p = p\<lparr>ps_stop := True\<rparr>"

fun worker_name :: "worker \<Rightarrow> string" where
  "worker_name Task = ''task''" | "worker_name Data = ''data''" | "worker_name Log = ''log''"

definition StartWorker :: "'t boot_env \<Rightarrow> worker \<Rightarrow> 't process \<Rightarrow> bool \<times> 't process" where
  "StartWorker e w p = (let h = be_thread e (worker_name w) in
     (h, p\<lparr>ps_handle := (ps_handle p)(w := h), ps_running := (ps_running p)(w := h)\<rparr>))"

definition StopWorker :: "worker \<Rightarrow> 't process \<Rightarrow> 't process" where
  "StopWorker w p = (if \<not> ps_handle p w then p else p\<lparr>ps_running := (ps_running p)(w := False)\<rparr>)"

definition set_routes :: "Subscription list \<times> 't Communicator \<Rightarrow> 't process \<Rightarrow> 't process" where
  "set_routes r p = p\<lparr>ps_subs := fst r, ps_comm := Some (snd r)\<rparr>"

text \<open>\<open>control_start\<close>.\<close>

definition control_start :: "'t boot_env \<Rightarrow> 't process \<Rightarrow> int \<times> 't process" where
  "control_start e p = (let p1 = p\<lparr>ps_cmds := RegisterBuiltins (ps_cmds p), ps_controlStop := False\<rparr> in
     if \<not> be_thread e ''control'' then (- 1, p1\<lparr>ps_control := False\<rparr>) else (0, p1\<lparr>ps_control := True\<rparr>))"

definition register_command :: "Command \<Rightarrow> 't process \<Rightarrow> 't process" where
  "register_command c p = p\<lparr>ps_cmds := (fst (ps_cmds p), snd (Register_cmd c (snd (ps_cmds p))))\<rparr>"

definition Start :: "'t boot_env \<Rightarrow> string \<Rightarrow> 't process \<Rightarrow> bool \<times> 't process" where
  "Start e console_path p =
    (let ok = be_domain e;
         (t1, p1) = StartWorker e Task p; ok1 = (t1 \<and> ok);
         (t2, p2) = StartWorker e Data p1; ok2 = (t2 \<and> ok1);
         (t3, p3) = StartWorker e Log p2; ok3 = (t3 \<and> ok2);
         r1 = RegisterSubRoutes (be_ops e) Task SESSION_TYPE_DTS (be_routes e Task) (ps_subs p3, the (ps_comm p3));
         r2 = RegisterSubRoutes (be_ops e) Data SESSION_TYPE_DTS (be_routes e Data) r1;
         r3 = RegisterSubRoutes (be_ops e) Log SESSION_TYPE_DTS (be_routes e Log) r2;
         p4 = set_routes r3 p3;
         p5 = p4\<lparr>ps_sock := snd (console_start (be_sock e) (Some console_path) (ps_sock p4))\<rparr>;
         (crc, p6) = control_start e p5;
         p7 = (if crc = 0 then set_routes (RegisterCtlRoutes (be_ops e) (be_control_routes e) (ps_subs p6, the (ps_comm p6))) p6 else p6)
     in (ok3, fold register_command bootstrap_commands p7))"

definition control_stop_p :: "'t process \<Rightarrow> 't process" where
  "control_stop_p p = p\<lparr>ps_controlStop := True, ps_control := False\<rparr>"

definition Stop_process :: "'t process \<Rightarrow> 't process" where
  "Stop_process p =
    (let p1 = control_stop_p p; p2 = p1\<lparr>ps_sock := console_stop (ps_sock p1)\<rparr>;
         p3 = StopWorker Log (StopWorker Data (StopWorker Task p2))
     in (DtsMwSet False p3)\<lparr>ps_comm := None, ps_subs := []\<rparr>)"

text \<open>
  \<open>Run\<close> up to the wait for the stop signal: \<open>Inl\<close> is an early return, \<open>Inr\<close> the process that waits; and
  from the wait on, \<open>None\<close> while the signal has not come.
\<close>

definition Run_up :: "'t boot_env \<Rightarrow> cstr \<Rightarrow> 't process \<Rightarrow> (int \<times> 't process) + 't process" where
  "Run_up e cfg_path s0 =
    (let s = s0\<lparr>ps_log := snd (Init_log default_config (ps_log s0))\<rparr> in
     case cfg_path of
       None \<Rightarrow> Inl (1, s)
     | Some path \<Rightarrow>
        (let p = s\<lparr>ps_comm := Some (be_comm e path)\<rparr> in
         if \<not> good (be_comm e path) then
           (let p1 = Stop_process p in Inl (2, p1\<lparr>ps_log := Shutdown_log (ps_log p1)\<rparr>))
         else
           let p1 = (DtsMwSet True p)\<lparr>
                 ps_factory := SetReportSink True ((ps_factory p)\<lparr>f_mem := Init (be_fresh e) (Some (f_mem (ps_factory p)))\<rparr>),
                 ps_extractors := InitExtractors (ps_extractors p)\<rparr>;
               (ok, p2) = Start e (MakeConsoleSockPath (c_str path)) p1
           in if \<not> ok then (let p3 = Stop_process p2 in Inl (3, p3\<lparr>ps_log := Shutdown_log (ps_log p3)\<rparr>))
              else Inr p2))"

definition Run_down :: "'t process \<Rightarrow> (int \<times> 't process) option" where
  "Run_down p = (if \<not> ps_stop p then None
     else let p1 = Stop_process p in Some (0, p1\<lparr>ps_log := Shutdown_log (ps_log p1)\<rparr>))"

text \<open>\<open>main\<close>: the exit code of the process.\<close>

definition main_exit :: "int \<Rightarrow> int" where
  "main_exit run_rc = (if run_rc \<noteq> 0 then 1 else 0)"

text \<open>The data factory's reports leave through \<open>DataMwReportSink\<close> (\<open>data_mw_report_sink.h\<close>).\<close>

definition Publish_report :: "'t transport_ops \<Rightarrow> bytes option \<Rightarrow> u32 \<Rightarrow> 't process \<Rightarrow> 't process" where
  "Publish_report ops data len p = (case ps_comm p of
     None \<Rightarrow> p
   | Some c \<Rightarrow> if \<not> DtsMw p \<or> data = None \<or> len = 0 then p
       else p\<lparr>ps_comm := Some (snd (publish_external ops (dts_endpoint SESSION_INST_DATA MSG_ID_REPORT) data len c))\<rparr>)"

section \<open>From the middleware to the threads\<close>

definition route_fn :: "Subscription \<Rightarrow> nat" where
  "route_fn s = (if sb_thread s = None then 2 else 1)"

text \<open>The middleware holds, under each endpoint, exactly the subscriptions made for it, in order.\<close>

definition subs_match :: "Subscription list \<Rightarrow> 't Communicator \<Rightarrow> bool" where
  "subs_match subs c \<longleftrightarrow> (\<forall>ep. c_localSubs c ep =
     map (\<lambda>i. (Some (route_fn (subs ! i)), i)) (filter (\<lambda>i. sb_ep (subs ! i) = ep) [0..<length subs]))"

lemma subs_match_snoc:
  assumes "subs_match subs c" "c_localSubs c' = (c_localSubs c)(sb_ep s := c_localSubs c (sb_ep s) @ [(Some (route_fn s), length subs)])"
  shows "subs_match (subs @ [s]) c'"
proof -
  have old: "map (\<lambda>i. (Some (route_fn ((subs @ [s]) ! i)), i)) (filter (\<lambda>i. sb_ep ((subs @ [s]) ! i) = ep) [0..<length subs]) =
      c_localSubs c ep" for ep
  proof -
    have "filter (\<lambda>i. sb_ep ((subs @ [s]) ! i) = ep) [0..<length subs] = filter (\<lambda>i. sb_ep (subs ! i) = ep) [0..<length subs]"
      by (rule filter_cong) (simp_all add: nth_append)
    moreover have "map (\<lambda>i. (Some (route_fn ((subs @ [s]) ! i)), i)) (filter (\<lambda>i. sb_ep (subs ! i) = ep) [0..<length subs]) =
        map (\<lambda>i. (Some (route_fn (subs ! i)), i)) (filter (\<lambda>i. sb_ep (subs ! i) = ep) [0..<length subs])"
      by (rule map_cong) (simp_all add: nth_append)
    ultimately show ?thesis using assms(1) by (simp only: subs_match_def)
  qed
  have "c_localSubs c' ep = c_localSubs c ep @ (if sb_ep s = ep then [(Some (route_fn s), length subs)] else [])" for ep
    using assms(2) by simp
  then show ?thesis unfolding subs_match_def length_append_singleton upt_Suc filter_append map_append
    by (simp add: old)
qed

lemma register_routes_match:
  assumes "subs_match (fst s) (snd s)" "fn = (if th = None then 2 else 1)"
  shows "subs_match (fst (register_routes ops fn th st rs s)) (snd (register_routes ops fn th st rs s))"
  using assms(1)
proof (induction rs arbitrary: s)
  case (Cons r rs)
  let ?ep = "\<lparr>session_type = st, session_inst = rt_inst r, msg_id = rt_msgId r\<rparr>"
  let ?sub = "\<lparr>sb_ep = ?ep, sb_thread = th\<rparr>"
  obtain rc c where sc: "subscribe ops ?ep (Some fn, length (fst s)) (snd s) = (rc, c)" by (cases "subscribe ops ?ep (Some fn, length (fst s)) (snd s)")
  have rf: "route_fn ?sub = fn" using assms(2) by (simp add: route_fn_def)
  have "subs_match (fst s @ [?sub]) c" if "rc = 0"
  proof (rule subs_match_snoc [OF Cons.prems])
    show "c_localSubs c = (c_localSubs (snd s))(sb_ep ?sub := c_localSubs (snd s) (sb_ep ?sub) @ [(Some (route_fn ?sub), length (fst s))])"
      using sc that unfolding rf by (auto simp: subscribe_def Let_def split: option.splits prod.splits if_splits)
  qed
  moreover have "subs_match (fst s) c" if "rc \<noteq> 0"
    using sc that Cons.prems by (auto simp: subscribe_def subs_match_def Let_def split: option.splits prod.splits if_splits)
  ultimately show ?case using Cons.IH by (simp add: sc)
qed simp

text \<open>
  A transport that opens the readers of some endpoints: in its states that satisfy \<open>keeps\<close> it creates
  a reader for each of them, and is in such a state again.
\<close>

definition opens_readers :: "'t transport_ops \<Rightarrow> ('t \<Rightarrow> bool) \<Rightarrow> endpoint set \<Rightarrow> bool" where
  "opens_readers ops keeps eps \<longleftrightarrow> (\<forall>ep \<in> eps. \<forall>r t. keeps t \<longrightarrow>
     fst (tr_CreateReader ops ep r t) = 0 \<and> keeps (snd (tr_CreateReader ops ep r t)))"

definition transport_in :: "('t \<Rightarrow> bool) \<Rightarrow> 't Communicator \<Rightarrow> bool" where
  "transport_in keeps c \<longleftrightarrow> (case c_transport c of None \<Rightarrow> False | Some t \<Rightarrow> keeps t)"

lemma register_routes_all:
  assumes "transport_in keeps (snd s)" "opens_readers ops keeps ((\<lambda>r. \<lparr>session_type = st, session_inst = rt_inst r, msg_id = rt_msgId r\<rparr>) ` set rs)"
  shows "fst (register_routes ops fn th st rs s) = fst s @
      map (\<lambda>r. \<lparr>sb_ep = \<lparr>session_type = st, session_inst = rt_inst r, msg_id = rt_msgId r\<rparr>, sb_thread = th\<rparr>) rs \<and>
    transport_in keeps (snd (register_routes ops fn th st rs s))"
  using assms
proof (induction rs arbitrary: s)
  case (Cons r rs)
  obtain t where t: "c_transport (snd s) = Some t" "keeps t" using Cons.prems(1) by (auto simp: transport_in_def split: option.splits)
  let ?ep = "\<lparr>session_type = st, session_inst = rt_inst r, msg_id = rt_msgId r\<rparr>" and ?rv = "(Some fn, length (fst s))"
  have "fst (tr_CreateReader ops ?ep ?rv t) = 0 \<and> keeps (snd (tr_CreateReader ops ?ep ?rv t))"
    using Cons.prems(2) t(2) by (simp add: opens_readers_def)
  then obtain t' where t': "tr_CreateReader ops ?ep ?rv t = (0, t')" "keeps t'"
    by (metis prod.collapse)
  then have sub: "subscribe ops ?ep ?rv (snd s) = (0, (snd s)\<lparr>c_transport := Some t',
      c_localSubs := (c_localSubs (snd s))(?ep := c_localSubs (snd s) ?ep @ [?rv])\<rparr>)" (is "_ = (0, ?c)")
    by (simp add: subscribe_def t Let_def)
  let ?s = "(fst s @ [\<lparr>sb_ep = ?ep, sb_thread = th\<rparr>], ?c)"
  have step: "register_routes ops fn th st (r # rs) s = register_routes ops fn th st rs ?s"
    by (simp add: sub Let_def)
  have "transport_in keeps (snd ?s)" using t'(2) by (simp add: transport_in_def)
  moreover have "opens_readers ops keeps ((\<lambda>r. \<lparr>session_type = st, session_inst = rt_inst r, msg_id = rt_msgId r\<rparr>) ` set rs)"
    using Cons.prems(2) by (simp add: opens_readers_def)
  ultimately show ?case unfolding step using Cons.IH [of ?s] by simp
qed simp

text \<open>What the callbacks of one publication do to the mailboxes and the control queue.\<close>

definition route_msg :: "endpoint \<Rightarrow> bytes \<Rightarrow> MailMsg" where
  "route_msg dst p = \<lparr>mm_msgId = msg_id dst, mm_sessionInst = Some (c_str (session_inst dst)), mm_payload = Some p\<rparr>"

lemma callbacks_deliver:
  assumes "\<forall>i \<in> set js. sb_ep (subs ! i) = dst"
  shows "fst (fold (route_callback subs) (map (\<lambda>i. ((Some (route_fn (subs ! i)), i), p)) js) s) w =
      fst s w @ replicate (length (filter (\<lambda>i. sb_thread (subs ! i) = Some w) js)) (route_msg dst p) \<and>
    snd (fold (route_callback subs) (map (\<lambda>i. ((Some (route_fn (subs ! i)), i), p)) js) s) =
      (OnRouteCtl (Some p) ^^ length (filter (\<lambda>i. sb_thread (subs ! i) = None) js)) (snd s)"
  using assms
proof (induction js arbitrary: s)
  case (Cons i js)
  then have ep: "sb_ep (subs ! i) = dst" by simp
  show ?case
  proof (cases "sb_thread (subs ! i)")
    case None
    then have "route_callback subs ((Some (route_fn (subs ! i)), i), p) s = (fst s, OnRouteCtl (Some p) (snd s))"
      by (simp add: route_callback_def route_fn_def)
    with Cons None show ?thesis by (simp add: funpow_swap1)
  next
    case (Some t)
    then have "route_callback subs ((Some (route_fn (subs ! i)), i), p) s = ((fst s)(t := fst s t @ [route_msg dst p]), snd s)"
      using ep by (simp add: route_callback_def route_fn_def OnRouteMsg_def Send_move_def route_msg_def)
    with Cons Some show ?thesis by simp
  qed
qed simp

lemma filter_nth: "length (filter (\<lambda>i. P (xs ! i)) [0..<length xs]) = length (filter P xs)"
proof -
  have "filter P xs = map ((!) xs) (filter (\<lambda>i. P (xs ! i)) [0..<length xs])"
    by (subst map_nth [of xs, symmetric]) (simp only: filter_map comp_def)
  then show ?thesis by simp
qed

definition route_ep :: "SubRoute \<Rightarrow> endpoint" where
  "route_ep r = dts_endpoint (rt_inst r) (rt_msgId r)"

text \<open>The subscriptions as \<open>Start\<close> makes them.\<close>

definition all_routes :: "'t boot_env \<Rightarrow> 't Communicator \<Rightarrow> Subscription list \<times> 't Communicator" where
  "all_routes e c = RegisterCtlRoutes (be_ops e) (be_control_routes e)
     (RegisterSubRoutes (be_ops e) Log SESSION_TYPE_DTS (be_routes e Log)
       (RegisterSubRoutes (be_ops e) Data SESSION_TYPE_DTS (be_routes e Data)
         (RegisterSubRoutes (be_ops e) Task SESSION_TYPE_DTS (be_routes e Task) ([], c))))"

definition expected_subs :: "'t boot_env \<Rightarrow> Subscription list" where
  "expected_subs e =
     map (\<lambda>r. \<lparr>sb_ep = route_ep r, sb_thread = Some Task\<rparr>) (be_routes e Task) @
     map (\<lambda>r. \<lparr>sb_ep = route_ep r, sb_thread = Some Data\<rparr>) (be_routes e Data) @
     map (\<lambda>r. \<lparr>sb_ep = route_ep r, sb_thread = Some Log\<rparr>) (be_routes e Log) @
     map (\<lambda>r. \<lparr>sb_ep = route_ep r, sb_thread = None\<rparr>) (be_control_routes e)"

definition route_eps :: "'t boot_env \<Rightarrow> endpoint set" where
  "route_eps e = route_ep ` (set (be_routes e Task) \<union> set (be_routes e Data) \<union> set (be_routes e Log) \<union> set (be_control_routes e))"

lemma all_routes_match:
  assumes "\<forall>ep. c_localSubs c ep = []"
  shows "subs_match (fst (all_routes e c)) (snd (all_routes e c))"
proof -
  note M = register_routes_match
  have m0: "subs_match (fst ([], c)) (snd ([], c))" using assms by (simp add: subs_match_def)
  show ?thesis
    unfolding all_routes_def RegisterSubRoutes_def RegisterCtlRoutes_def
    by (rule M [OF M [OF M [OF M [OF m0]]]]) simp_all
qed

lemma all_routes_subs:
  assumes "transport_in keeps c" "opens_readers (be_ops e) keeps (route_eps e)"
  shows "fst (all_routes e c) = expected_subs e"
proof -
  have o: "opens_readers (be_ops e) keeps ((\<lambda>r. \<lparr>session_type = SESSION_TYPE_DTS, session_inst = rt_inst r, msg_id = rt_msgId r\<rparr>) ` set rs)"
    if "route_ep ` set rs \<subseteq> route_eps e" for rs
    using assms(2) that by (auto simp: opens_readers_def route_ep_def dts_endpoint_def subset_iff)
  have t0: "transport_in keeps (snd ([] :: Subscription list, c))" using assms(1) by simp
  note A = register_routes_all [OF _ o]
  note a1 = A [OF t0, of "be_routes e Task" 1 "Some Task"]
  note a2 = A [OF conjunct2 [OF a1], of "be_routes e Data" 1 "Some Data"]
  note a3 = A [OF conjunct2 [OF a2], of "be_routes e Log" 1 "Some Log"]
  note a4 = A [OF conjunct2 [OF a3], of "be_control_routes e" 2 None]
  have eps: "route_ep ` set (be_routes e Task) \<subseteq> route_eps e" "route_ep ` set (be_routes e Data) \<subseteq> route_eps e"
    "route_ep ` set (be_routes e Log) \<subseteq> route_eps e" "route_ep ` set (be_control_routes e) \<subseteq> route_eps e"
    by (auto simp: route_eps_def)
  show ?thesis
    using a1 a2 a3 a4 eps
    by (simp add: all_routes_def RegisterSubRoutes_def RegisterCtlRoutes_def expected_subs_def route_ep_def dts_endpoint_def)
qed

lemma publish_calls:
  assumes "subs_match subs c"
  shows "snd (snd (publish_internal ops dst data len c)) =
    map (\<lambda>i. ((Some (route_fn (subs ! i)), i), payload_copy data len)) (filter (\<lambda>i. sb_ep (subs ! i) = dst) [0..<length subs])"
proof -
  have l: "c_localSubs c dst = map (\<lambda>i. (Some (route_fn (subs ! i)), i)) (filter (\<lambda>i. sb_ep (subs ! i) = dst) [0..<length subs])"
    using assms by (simp add: subs_match_def)
  have k: "call_subs (map (\<lambda>i. (Some (route_fn (subs ! i)), i)) js) p = map (\<lambda>i. ((Some (route_fn (subs ! i)), i), p)) js" for js p
    by (induction js) simp_all
  show ?thesis
  proof (cases "c_localSubs c dst = []")
    case True
    then have "filter (\<lambda>i. sb_ep (subs ! i) = dst) [0..<length subs] = []" unfolding l by simp
    with True show ?thesis by (simp add: publish_internal_def split_beta Let_def split: option.split)
  next
    case False
    have "snd (snd (publish_internal ops dst data len c)) = call_subs (c_localSubs c dst) (payload_copy data len)"
      unfolding publish_internal_def if_P [OF False] by simp
    then show ?thesis unfolding l k .
  qed
qed

lemma count_sub:
  "length (filter P (filter (\<lambda>s. sb_ep s = dst) (map (\<lambda>r. \<lparr>sb_ep = route_ep r, sb_thread = th\<rparr>) rs))) =
   (if P \<lparr>sb_ep = dst, sb_thread = th\<rparr> then length (filter (\<lambda>r. route_ep r = dst) rs) else 0)"
  by (induction rs) auto

lemma count_expected:
  "length (filter (\<lambda>s. sb_thread s = Some w \<and> sb_ep s = dst) (expected_subs e)) = length (filter (\<lambda>r. route_ep r = dst) (be_routes e w))"
  "length (filter (\<lambda>s. sb_thread s = None \<and> sb_ep s = dst) (expected_subs e)) = length (filter (\<lambda>r. route_ep r = dst) (be_control_routes e))"
  unfolding filter_filter [symmetric] expected_subs_def filter_append length_append count_sub by (cases w) (simp_all add: comp_def)

text \<open>Delivery along the subscriptions that were made.\<close>

lemma subs_deliver:
  assumes "\<forall>ep. c_localSubs c ep = []" "S = fst (all_routes e c)"
    and "calls = snd (snd (publish_internal (be_ops e) dst data len (snd (all_routes e c))))"
  shows "fst (fold (route_callback S) calls s) w =
      fst s w @ replicate (length (filter (\<lambda>x. sb_thread x = Some w \<and> sb_ep x = dst) S)) (route_msg dst (payload_copy data len)) \<and>
    snd (fold (route_callback S) calls s) =
      (OnRouteCtl (Some (payload_copy data len)) ^^ length (filter (\<lambda>x. sb_thread x = None \<and> sb_ep x = dst) S)) (snd s)"
proof -
  let ?p = "payload_copy data len" and ?js = "filter (\<lambda>i. sb_ep (S ! i) = dst) [0..<length S]"
  have calls: "calls = map (\<lambda>i. ((Some (route_fn (S ! i)), i), ?p)) ?js"
    unfolding assms(3) by (rule publish_calls) (use all_routes_match [OF assms(1)] assms(2) in simp)
  have cnt: "length (filter (\<lambda>i. P (S ! i)) ?js) = length (filter (\<lambda>s. P s \<and> sb_ep s = dst) S)" for P
    using filter_nth [of "\<lambda>s. P s \<and> sb_ep s = dst" S] by (simp add: conj_commute)
  have "\<forall>i \<in> set ?js. sb_ep (S ! i) = dst" by simp
  from callbacks_deliver [OF this, of ?p s w] show ?thesis
    unfolding calls cnt [of "\<lambda>s. sb_thread s = Some w"] cnt [of "\<lambda>s. sb_thread s = None"] .
qed

definition demo_ops :: "unit transport_ops" where
  "demo_ops = \<lparr>tr_CreateReader = \<lambda>_ _ t. (0, t), tr_CreateWriter = \<lambda>_ t. (0, t), tr_Send = \<lambda>_ _ _ t. (0, t)\<rparr>"

definition demo_env :: "unit boot_env" where
  "demo_env = \<lparr>be_comm = \<lambda>_. empty_communicator\<lparr>c_transport := Some ()\<rparr>, be_ops = demo_ops, be_domain = True, be_thread = \<lambda>_. True,
     be_routes = (\<lambda>w. if w = Data then [\<lparr>rt_inst = SESSION_INST_DATA, rt_msgId = MSG_ID_AGENT_DATA\<rparr>] else []),
     be_control_routes = [], be_sock = all_well, be_fresh = \<lambda>_. []\<rparr>"

section \<open>Assembly and end\<close>

definition fresh_process :: "'t process \<Rightarrow> bool" where
  "fresh_process p \<longleftrightarrow> (\<forall>w. \<not> ps_handle p w \<and> \<not> ps_running p w) \<and> ps_subs p = [] \<and> ps_comm p = None \<and> \<not> ps_stop p \<and>
     \<not> ps_control p \<and> \<not> ck_thread (ps_sock p) \<and> ck_handles (ps_sock p) = [] \<and> ck_live (ps_sock p) = 0 \<and> \<not> ps_mw p"

text \<open>
  What \<open>Stop\<close> takes down: the business threads, the subscriptions, the middleware, the control and the
  console thread with its socket, and the logger. The sessions of the console are not among it.
\<close>

definition down :: "'t process \<Rightarrow> bool" where
  "down p \<longleftrightarrow> (\<forall>w. \<not> ps_running p w) \<and> ps_subs p = [] \<and> ps_comm p = None \<and> \<not> ps_mw p \<and> \<not> ps_control p \<and>
     \<not> ck_thread (ps_sock p) \<and> \<not> ck_listening (ps_sock p) \<and> \<not> lg_init (ps_log p)"

lemma console_stop_fields: "\<not> ck_thread (console_stop s)" "\<not> ck_listening (console_stop s)"
  by (simp_all add: console_stop_def join_sessions_def Let_def)

lemma Stop_down:
  assumes "\<forall>w. ps_running p w \<longrightarrow> ps_handle p w"
  shows "down ((Stop_process p)\<lparr>ps_log := Shutdown_log l\<rparr>)"
proof -
  have "\<not> ps_running (Stop_process p) w" for w
    using assms by (cases w) (auto simp: Stop_process_def StopWorker_def control_stop_p_def Let_def)
  moreover have "ps_sock (Stop_process p) = console_stop (ps_sock p)"
    by (simp add: Stop_process_def StopWorker_def control_stop_p_def Let_def)
  moreover have "\<not> ps_control (Stop_process p) \<and> \<not> ps_mw (Stop_process p) \<and> ps_comm (Stop_process p) = None \<and> ps_subs (Stop_process p) = []"
    by (simp add: Stop_process_def StopWorker_def control_stop_p_def Let_def)
  ultimately show ?thesis by (simp add: down_def console_stop_fields Shutdown_log_def)
qed

lemma register_command_fields:
  "ps_stop (fold register_command cs p) = ps_stop p" "ps_comm (fold register_command cs p) = ps_comm p"
  "ps_mw (fold register_command cs p) = ps_mw p" "ps_handle (fold register_command cs p) = ps_handle p"
  "ps_running (fold register_command cs p) = ps_running p" "ps_subs (fold register_command cs p) = ps_subs p"
  "ps_sock (fold register_command cs p) = ps_sock p" "ps_control (fold register_command cs p) = ps_control p"
  "ps_factory (fold register_command cs p) = ps_factory p" "ps_extractors (fold register_command cs p) = ps_extractors p"
  "ps_log (fold register_command cs p) = ps_log p"
  "ps_cmds (fold register_command cs p) = (fst (ps_cmds p), fold (\<lambda>c m. snd (Register_cmd c m)) cs (snd (ps_cmds p)))"
  by (induction cs arbitrary: p) (simp_all add: register_command_def)

lemma StartWorker_fields:
  "fst (StartWorker e w p) = be_thread e (worker_name w)"
  "ps_handle (snd (StartWorker e w p)) = (ps_handle p)(w := be_thread e (worker_name w))"
  "ps_running (snd (StartWorker e w p)) = (ps_running p)(w := be_thread e (worker_name w))"
  "ps_stop (snd (StartWorker e w p)) = ps_stop p"
  "ps_comm (snd (StartWorker e w p)) = ps_comm p"
  "ps_mw (snd (StartWorker e w p)) = ps_mw p"
  "ps_subs (snd (StartWorker e w p)) = ps_subs p"
  "ps_sock (snd (StartWorker e w p)) = ps_sock p"
  "ps_control (snd (StartWorker e w p)) = ps_control p"
  "ps_controlStop (snd (StartWorker e w p)) = ps_controlStop p"
  "ps_cmds (snd (StartWorker e w p)) = ps_cmds p"
  "ps_factory (snd (StartWorker e w p)) = ps_factory p"
  "ps_extractors (snd (StartWorker e w p)) = ps_extractors p"
  "ps_log (snd (StartWorker e w p)) = ps_log p"
  by (simp_all add: StartWorker_def Let_def)

lemma set_routes_fields:
  "ps_subs (set_routes r p) = fst r" "ps_comm (set_routes r p) = Some (snd r)"
  "ps_stop (set_routes r p) = ps_stop p"
  "ps_mw (set_routes r p) = ps_mw p"
  "ps_handle (set_routes r p) = ps_handle p"
  "ps_running (set_routes r p) = ps_running p"
  "ps_sock (set_routes r p) = ps_sock p"
  "ps_control (set_routes r p) = ps_control p"
  "ps_controlStop (set_routes r p) = ps_controlStop p"
  "ps_cmds (set_routes r p) = ps_cmds p"
  "ps_factory (set_routes r p) = ps_factory p"
  "ps_extractors (set_routes r p) = ps_extractors p"
  "ps_log (set_routes r p) = ps_log p"
  by (simp_all add: set_routes_def)

lemma control_start_fields:
  "fst (control_start e p) = (if be_thread e ''control'' then 0 else - 1)"
  "ps_control (snd (control_start e p)) = be_thread e ''control''"
  "ps_cmds (snd (control_start e p)) = RegisterBuiltins (ps_cmds p)"
  "ps_stop (snd (control_start e p)) = ps_stop p"
  "ps_comm (snd (control_start e p)) = ps_comm p"
  "ps_mw (snd (control_start e p)) = ps_mw p"
  "ps_handle (snd (control_start e p)) = ps_handle p"
  "ps_running (snd (control_start e p)) = ps_running p"
  "ps_subs (snd (control_start e p)) = ps_subs p"
  "ps_sock (snd (control_start e p)) = ps_sock p"
  "ps_factory (snd (control_start e p)) = ps_factory p"
  "ps_extractors (snd (control_start e p)) = ps_extractors p"
  "ps_log (snd (control_start e p)) = ps_log p"
  by (simp_all add: control_start_def Let_def)

lemma Start_facts:
  "fst (Start e path p) = (be_thread e ''log'' \<and> be_thread e ''data'' \<and> be_thread e ''task'' \<and> be_domain e)"
  "ps_handle (snd (Start e path p)) = (\<lambda>w. be_thread e (worker_name w))"
  "ps_running (snd (Start e path p)) = (\<lambda>w. be_thread e (worker_name w))"
  "ps_mw (snd (Start e path p)) = ps_mw p" "ps_stop (snd (Start e path p)) = ps_stop p"
  "ps_control (snd (Start e path p)) = be_thread e ''control''"
  "ps_sock (snd (Start e path p)) = snd (console_start (be_sock e) (Some path) (ps_sock p))"
  "ps_factory (snd (Start e path p)) = ps_factory p" "ps_log (snd (Start e path p)) = ps_log p"
  "ps_cmds (snd (Start e path p)) = (fst (RegisterBuiltins (ps_cmds p)),
     fold (\<lambda>c m. snd (Register_cmd c m)) bootstrap_commands (snd (RegisterBuiltins (ps_cmds p))))"
  "be_thread e ''control'' \<Longrightarrow> ps_subs p = [] \<Longrightarrow> ps_comm p = Some c \<Longrightarrow>
     ps_subs (snd (Start e path p)) = fst (all_routes e c) \<and> ps_comm (snd (Start e path p)) = Some (snd (all_routes e c))"
proof -
  have u: "((f(Task := a))(Data := b))(Log := d) = (\<lambda>w. case w of Task \<Rightarrow> a | Data \<Rightarrow> b | Log \<Rightarrow> d)" for f :: "worker \<Rightarrow> bool" and a b d
    by (auto simp: fun_eq_iff split: worker.split)
  have n: "(\<lambda>w. be_thread e (worker_name w)) =
      (\<lambda>w. case w of Task \<Rightarrow> be_thread e ''task'' | Data \<Rightarrow> be_thread e ''data'' | Log \<Rightarrow> be_thread e ''log'')"
    by (auto simp: fun_eq_iff split: worker.split)
  note fields = StartWorker_fields set_routes_fields control_start_fields register_command_fields
  note defs = Start_def Let_def split_beta fields
  show "fst (Start e path p) = (be_thread e ''log'' \<and> be_thread e ''data'' \<and> be_thread e ''task'' \<and> be_domain e)"
    by (simp add: defs)
  show "ps_handle (snd (Start e path p)) = (\<lambda>w. be_thread e (worker_name w))" unfolding n by (simp add: defs u)
  show "ps_running (snd (Start e path p)) = (\<lambda>w. be_thread e (worker_name w))" unfolding n by (simp add: defs u)
  show "ps_mw (snd (Start e path p)) = ps_mw p" "ps_stop (snd (Start e path p)) = ps_stop p"
    "ps_control (snd (Start e path p)) = be_thread e ''control''"
    "ps_sock (snd (Start e path p)) = snd (console_start (be_sock e) (Some path) (ps_sock p))"
    "ps_factory (snd (Start e path p)) = ps_factory p" "ps_log (snd (Start e path p)) = ps_log p"
    "ps_cmds (snd (Start e path p)) = (fst (RegisterBuiltins (ps_cmds p)),
     fold (\<lambda>c m. snd (Register_cmd c m)) bootstrap_commands (snd (RegisterBuiltins (ps_cmds p))))"
    by (simp_all add: defs)
  assume c: "be_thread e ''control''" "ps_subs p = []" "ps_comm p = Some c"
  show "ps_subs (snd (Start e path p)) = fst (all_routes e c) \<and> ps_comm (snd (Start e path p)) = Some (snd (all_routes e c))"
    by (simp add: all_routes_def defs c)
qed

definition assembled :: "'t boot_env \<Rightarrow> bool" where
  "assembled e \<longleftrightarrow> be_domain e \<and> be_thread e ''task'' \<and> be_thread e ''data'' \<and> be_thread e ''log''"

lemma Init_done: "init_done (Init fresh m)"
  by (simp add: Init_def split: option.split)

lemma Stop_sock: "ps_sock (Stop_process p) = console_stop (ps_sock p)"
  by (simp add: Stop_process_def StopWorker_def control_stop_p_def Let_def)

lemma Run_down_down:
  assumes "\<forall>w. ps_running p w \<longrightarrow> ps_handle p w"
  shows "\<exists>r. Run_down (StopSignal_Request p) = Some (0, r) \<and> down r \<and> ps_sock r = console_stop (ps_sock p)"
proof -
  let ?p = "StopSignal_Request p"
  have d: "down ((Stop_process ?p)\<lparr>ps_log := Shutdown_log (ps_log (Stop_process ?p))\<rparr>)"
    by (rule Stop_down) (use assms in \<open>simp add: StopSignal_Request_def\<close>)
  have "ps_stop ?p" "ps_sock ?p = ps_sock p" by (simp_all add: StopSignal_Request_def)
  with d show ?thesis by (simp add: Run_down_def Let_def Stop_sock)
qed

text \<open>The process after its console has accepted connections, of which some have ended.\<close>

definition with_conns :: "conn_event list \<Rightarrow> 't process \<Rightarrow> 't process" where
  "with_conns cs p = p\<lparr>ps_sock := console_conns cs (ps_sock p)\<rparr>"

text \<open>The process that \<open>Run\<close> assembles, before the threads.\<close>

definition prepared :: "'t boot_env \<Rightarrow> string \<Rightarrow> 't process \<Rightarrow> 't process" where
  "prepared e path p = p\<lparr>ps_log := snd (Init_log default_config (ps_log p)), ps_comm := Some (be_comm e path), ps_mw := True,
     ps_factory := SetReportSink True ((ps_factory p)\<lparr>f_mem := Init (be_fresh e) (Some (f_mem (ps_factory p)))\<rparr>),
     ps_extractors := InitExtractors (ps_extractors p)\<rparr>"

lemma Run_up_good:
  assumes "good (be_comm e path)"
  shows "Run_up e (Some path) p = (let q = snd (Start e (MakeConsoleSockPath (c_str path)) (prepared e path p)) in
    if assembled e then Inr q else Inl (3, (Stop_process q)\<lparr>ps_log := Shutdown_log (ps_log (Stop_process q))\<rparr>))"
  using assms Start_facts(1) [of e "MakeConsoleSockPath (c_str path)" "prepared e path p"]
  by (auto simp: Run_up_def prepared_def assembled_def split_beta Let_def)

lemma Run_down_sessions:
  assumes "\<forall>w. ps_running q w \<longrightarrow> ps_handle q w" "ck_handles (ps_sock q) = []"
  shows "\<exists>r. Run_down (StopSignal_Request (with_conns cs q)) = Some (0, r) \<and> down r \<and>
    ck_handles (ps_sock r) = [] \<and> ck_live (ps_sock r) = ck_live (ps_sock (with_conns cs q))"
proof -
  have "True \<notin> set (ck_handles (ps_sock (with_conns cs q)))" using assms(2) by (simp add: with_conns_def conns_detached)
  moreover have "\<forall>w. ps_running (with_conns cs q) w \<longrightarrow> ps_handle (with_conns cs q) w" using assms(1) by (simp add: with_conns_def)
  note Run_down_down [OF this]
  ultimately show ?thesis by (auto simp: console_stop_live)
qed

text \<open>C28: The life of the process. Without a configuration \<open>Run\<close> returns 1 and leaves the logger running; if
  the middleware does not come up it returns 2; if the domain or one of the three business
  threads fails it returns 3, having taken down whatever had come up. Otherwise it runs, whatever
  becomes of the console and the control thread: all three threads run, the pools are initialised,
  reports have their sink, and with the control thread all routes are subscribed. It then waits
  until the stop is requested and returns 0, and the business, console and control threads, the
  subscriptions, the middleware and the logger are gone. The console's sessions need not be: whatever
  connections it has accepted, \<open>console_stop\<close> joins none of their threads, because the handles are
  detached, and those that have not ended by themselves are still there when \<open>Run\<close> returns.\<close>

theorem Run_exit_codes:
  assumes "fresh_process p"
  shows "(\<exists>q. Run_up e None p = Inl (1, q) \<and> lg_init (ps_log q)) \<and>
    (\<not> good (be_comm e path) \<longrightarrow> (\<exists>q. Run_up e (Some path) p = Inl (2, q) \<and> down q \<and> ck_live (ps_sock q) = 0)) \<and>
    (good (be_comm e path) \<and> \<not> assembled e \<longrightarrow> (\<exists>q. Run_up e (Some path) p = Inl (3, q) \<and> down q)) \<and>
    (good (be_comm e path) \<and> assembled e \<longrightarrow> (\<exists>q. Run_up e (Some path) p = Inr q \<and>
       (\<forall>w. ps_running q w) \<and> ps_mw q \<and> init_done (f_mem (ps_factory q)) \<and> f_sink (ps_factory q) \<and>
       (be_thread e ''control'' \<longrightarrow> ps_subs q = fst (all_routes e (be_comm e path))) \<and>
       Run_down q = None \<and>
       (\<forall>cs. \<exists>r. Run_down (StopSignal_Request (with_conns cs q)) = Some (0, r) \<and> down r \<and>
          ck_handles (ps_sock r) = [] \<and> ck_live (ps_sock r) = ck_live (ps_sock (with_conns cs q)))))"
proof (intro conjI impI)
  show "\<exists>q. Run_up e None p = Inl (1, q) \<and> lg_init (ps_log q)"
    by (simp add: Run_up_def Init_log_def Let_def)
next
  assume "\<not> good (be_comm e path)"
  then show "\<exists>q. Run_up e (Some path) p = Inl (2, q) \<and> down q \<and> ck_live (ps_sock q) = 0"
    using Stop_down [of "p\<lparr>ps_log := snd (Init_log default_config (ps_log p)), ps_comm := Some (be_comm e path)\<rparr>"] assms
    by (simp add: Run_up_def fresh_process_def Let_def Stop_sock console_stop_live)
next
  let ?q = "snd (Start e (MakeConsoleSockPath (c_str path)) (prepared e path p))"
  assume "good (be_comm e path) \<and> \<not> assembled e"
  then have "Run_up e (Some path) p = Inl (3, (Stop_process ?q)\<lparr>ps_log := Shutdown_log (ps_log (Stop_process ?q))\<rparr>)"
    by (simp add: Run_up_good Let_def)
  moreover have "down ((Stop_process ?q)\<lparr>ps_log := Shutdown_log (ps_log (Stop_process ?q))\<rparr>)"
    by (rule Stop_down) (simp add: Start_facts)
  ultimately show "\<exists>q. Run_up e (Some path) p = Inl (3, q) \<and> down q" by blast
next
  let ?q = "snd (Start e (MakeConsoleSockPath (c_str path)) (prepared e path p))"
  assume a: "good (be_comm e path) \<and> assembled e"
  have r: "Run_up e (Some path) p = Inr ?q" using a by (simp add: Run_up_good Let_def)
  have th: "be_thread e (worker_name w)" for w using a by (cases w) (simp_all add: assembled_def)
  have pr: "ps_subs (prepared e path p) = []" "ps_comm (prepared e path p) = Some (be_comm e path)"
    "\<not> ps_stop (prepared e path p)" "ps_mw (prepared e path p)" "init_done (f_mem (ps_factory (prepared e path p)))"
    "f_sink (ps_factory (prepared e path p))"
    using assms by (simp_all add: prepared_def fresh_process_def SetReportSink_def Init_done)
  have "be_thread e ''control'' \<longrightarrow> ps_subs ?q = fst (all_routes e (be_comm e path))"
    using Start_facts(11) [OF _ pr(1,2)] by blast
  moreover have "\<exists>r. Run_down (StopSignal_Request (with_conns cs ?q)) = Some (0, r) \<and> down r \<and>
      ck_handles (ps_sock r) = [] \<and> ck_live (ps_sock r) = ck_live (ps_sock (with_conns cs ?q))" for cs
    by (rule Run_down_sessions) (use assms in \<open>simp_all add: Start_facts prepared_def fresh_process_def console_start_handles\<close>)
  moreover have "Run_down ?q = None" using pr(3) by (simp add: Run_down_def Start_facts)
  ultimately show "\<exists>q. Run_up e (Some path) p = Inr q \<and> (\<forall>w. ps_running q w) \<and> ps_mw q \<and> init_done (f_mem (ps_factory q)) \<and>
      f_sink (ps_factory q) \<and> (be_thread e ''control'' \<longrightarrow> ps_subs q = fst (all_routes e (be_comm e path))) \<and>
       Run_down q = None \<and>
       (\<forall>cs. \<exists>r. Run_down (StopSignal_Request (with_conns cs q)) = Some (0, r) \<and> down r \<and>
          ck_handles (ps_sock r) = [] \<and> ck_live (ps_sock r) = ck_live (ps_sock (with_conns cs q)))"
    using r th pr(4-6) by (intro exI [of _ ?q]) (simp add: Start_facts)
qed

definition demo_process :: "unit process" where
  "demo_process = \<lparr>ps_stop = False, ps_comm = None, ps_mw = False, ps_handle = \<lambda>_. False, ps_running = \<lambda>_. False, ps_subs = [],
     ps_sock = new_sock, ps_control = False, ps_controlStop = False, ps_cmds = (False, []),
     ps_factory = new_factory None None \<lparr>regions = [], fixedSlots = Map.empty, init_done = False\<rparr>, ps_extractors = Map.empty,
     ps_log = \<lparr>lg_init = False, lg_pool = None, lg_sinks = None, lg_level = spd_info\<rparr>\<rparr>"

theorem Run_exit_codes_witness:
  "(\<exists>q. Run_up demo_env (Some ''cpf-dts.json'') demo_process = Inr q \<and> ps_running q Data \<and>
     (\<exists>r. Run_down (StopSignal_Request (with_conns [Accepted, Accepted, Ended] q)) = Some (0, r) \<and> down r \<and> ck_live (ps_sock r) = 1)) \<and>
   (\<exists>q. Run_up (demo_env\<lparr>be_thread := \<lambda>n. n \<noteq> ''log''\<rparr>) (Some ''cpf-dts.json'') demo_process = Inl (3, q) \<and> down q)"
proof -
  let ?q = "snd (Start demo_env (MakeConsoleSockPath (c_str ''cpf-dts.json'')) (prepared demo_env ''cpf-dts.json'' demo_process))"
  have f: "fresh_process demo_process" by (simp add: fresh_process_def demo_process_def new_sock_def)
  have g: "good (be_comm demo_env ''cpf-dts.json'')" "assembled demo_env"
    by (simp_all add: demo_env_def good_def assembled_def)
  have g2: "good (be_comm (demo_env\<lparr>be_thread := \<lambda>n. n \<noteq> ''log''\<rparr>) ''cpf-dts.json'')" "\<not> assembled (demo_env\<lparr>be_thread := \<lambda>n. n \<noteq> ''log''\<rparr>)"
    by (simp_all add: demo_env_def good_def assembled_def)
  have u: "Run_up demo_env (Some ''cpf-dts.json'') demo_process = Inr ?q" using g by (simp add: Run_up_good Let_def)
  have "c_str (MakeConsoleSockPath (c_str ''cpf-dts.json'')) = ''/tmp/dts-cpf-dts.sock''" by code_simp
  then have "ps_sock ?q = \<lparr>ck_fs = {''/tmp/dts-cpf-dts.sock''}, ck_path = ''/tmp/dts-cpf-dts.sock'', ck_listening = True, ck_thread = True,
      ck_stop = False, ck_handles = [], ck_live = 0\<rparr>"
    using start_short [of "MakeConsoleSockPath (c_str ''cpf-dts.json'')" new_sock]
    by (simp add: Start_facts prepared_def demo_process_def demo_env_def new_sock_def)
  then have l: "ck_live (ps_sock (with_conns [Accepted, Accepted, Ended] ?q)) = 1"
    by (simp add: with_conns_def accept_conn_def session_gone_def Let_def)
  have "ps_running ?q Data \<and> (\<exists>r. Run_down (StopSignal_Request (with_conns [Accepted, Accepted, Ended] ?q)) = Some (0, r) \<and> down r \<and> ck_live (ps_sock r) = 1)"
    using Run_exit_codes [OF f, of demo_env "''cpf-dts.json''"] g unfolding u l [symmetric] by blast
  then show ?thesis
    using u Run_exit_codes [OF f, of "demo_env\<lparr>be_thread := \<lambda>n. n \<noteq> ''log''\<rparr>" "''cpf-dts.json''"] g2 by blast
qed

section \<open>The six commands\<close>

definition command_entries :: "command_entry list" where
  "command_entries = map entry_of (builtin_commands @ bootstrap_commands)"

lemma mk_commands: "builtin_commands @ bootstrap_commands = map mk_command command_entries"
  by (simp add: command_entries_def builtin_commands_def bootstrap_commands_def mk_command_def entry_of_def)

lemma command_names:
  "map (\<lambda>e. c_str (fst e)) command_entries =
     [''help'', ''get_threads'', ''set_log_level'', ''get_handlers'', ''get_data_stats'', ''set_data_budget'']"
  by (simp add: command_entries_def builtin_commands_def bootstrap_commands_def entry_of_def c_str_def)

lemma add_all_distinct:
  "distinct (map (\<lambda>e. c_str (fst e)) (fs @ es)) \<Longrightarrow> add_all add_cmd es (map mk_command fs) = map mk_command (fs @ es)"
proof (induction es arbitrary: fs)
  case (Cons e es)
  then have "c_str (fst e) \<notin> (\<lambda>f. c_str (fst f)) ` set fs" by auto
  then have "\<not> (\<exists>c \<in> set (map mk_command fs). same_name (cd_name c) (fst e))"
    by (auto simp: same_name_def mk_command_def image_iff)
  then have "add_cmd e (map mk_command fs) = Some (map mk_command (fs @ [e]))" by (auto simp: add_cmd_def Register_mk)
  with Cons.IH [of "fs @ [e]"] Cons.prems show ?case by simp
qed simp

lemma registered:
  assumes "Run_up e (Some path) p = Inr q" "ps_cmds p = (False, [])"
  shows "snd (ps_cmds q) = add_all add_cmd command_entries []" "snd (ps_cmds q) = map mk_command command_entries"
proof -
  have g: "good (be_comm e path)" using assms(1) by (auto simp: Run_up_def Let_def split: if_splits prod.splits)
  have q: "q = snd (Start e (MakeConsoleSockPath (c_str path)) (prepared e path p))"
    using assms(1) unfolding Run_up_good [OF g] by (auto simp: Let_def split: if_splits)
  have c: "ps_cmds (prepared e path p) = (False, [])" using assms(2) by (simp add: prepared_def)
  have "snd (ps_cmds q) = fold (\<lambda>c m. snd (Register_cmd c m)) (builtin_commands @ bootstrap_commands) []"
    by (simp add: q Start_facts c RegisterBuiltins_def)
  also have "\<dots> = add_all add_cmd command_entries []" unfolding mk_commands by (rule Register_all)
  finally show a: "snd (ps_cmds q) = add_all add_cmd command_entries []" .
  have "add_all add_cmd command_entries (map mk_command []) = map mk_command ([] @ command_entries)"
    by (rule add_all_distinct) (simp only: append_Nil command_names, simp)
  with a show "snd (ps_cmds q) = map mk_command command_entries" by simp
qed

lemma Find_mk: "Find_cmd k (map mk_command es) = map_option mk_command (find (\<lambda>v. c_str (fst v) = c_str k) es)"
  by (induction es) (simp_all add: Find_cmd_def same_name_def mk_command_def)

lemma find_commands:
  "find (\<lambda>v. c_str (fst v) = ''set_data_budget'') command_entries = Some (entry_of (bootstrap_commands ! 2))"
  "find (\<lambda>v. c_str (fst v) = ''get_data_stats'') command_entries = Some (entry_of (bootstrap_commands ! Suc 0))"
  "find (\<lambda>v. c_str (fst v) = ''get_handlers'') command_entries = Some (entry_of (bootstrap_commands ! 0))"
  by (simp_all add: command_entries_def builtin_commands_def bootstrap_commands_def entry_of_def c_str_def)

lemma c_str_names [simp]:
  "c_str ''set_data_budget'' = ''set_data_budget''" "c_str ''get_data_stats'' = ''get_data_stats''" "c_str ''get_handlers'' = ''get_handlers''"
  by (simp_all add: c_str_def)

lemma found_fn:
  "cd_fn (mk_command (entry_of (bootstrap_commands ! 0))) = Some CmdGetHandlers_fn"
  "cd_fn (mk_command (entry_of (bootstrap_commands ! Suc 0))) = Some CmdGetDataStats_fn"
  "cd_fn (mk_command (entry_of (bootstrap_commands ! 2))) = Some CmdSetDataBudget_fn"
  by (simp_all add: bootstrap_commands_def mk_command_def entry_of_def)

lemma dec_word:
  "dec_string n \<noteq> []" "\<forall>c \<in> set (dec_string n). \<not> is_space c" "c_str (dec_string n) = dec_string n"
proof -
  have d: "is_digit c" if "c \<in> set (dec_string n)" for c
    using is_digit_dec_string [of n] that by (auto simp: list_all_iff)
  then show "\<forall>c \<in> set (dec_string n). \<not> is_space c" using is_space_not_digit by blast
  have "\<not> is_digit (CHR 0x00)" by (simp add: is_digit_def)
  then have "\<forall>c \<in> set (dec_string n). c \<noteq> CHR 0x00" using d by blast
  then show "c_str (dec_string n) = dec_string n" unfolding c_str_def by (simp only: takeWhile_eq_all_conv)
qed simp

lemma budget_tokens:
  "tokens (''set_data_budget '' @ dec_string a @ '' '' @ dec_string b) = [''set_data_budget'', dec_string a, dec_string b]"
proof -
  have "tokens (join [''set_data_budget'', dec_string a, dec_string b]) = [''set_data_budget'', dec_string a, dec_string b]"
    by (rule tokens_join) (use dec_word(2) in \<open>auto simp: is_space_def\<close>)
  then show ?thesis by (simp add: tokens_blank)
qed

lemma one_token:
  "tokens ''get_data_stats'' = [''get_data_stats'']" "tokens ''get_handlers'' = [''get_handlers'']"
  using tokens_word [of "''get_data_stats''" "[]"] tokens_word [of "''get_handlers''" "[]"] by (simp_all add: is_space_def)

lemma strtoull_dec_word: "n < 2 ^ 64 \<Longrightarrow> fst (strtoull10 (dec_string n)) = of_nat n"
  using strtoull10_dec [of n "[]"] by simp

lemma data_stats_fits: "snprintf_text 512 (data_stats_text s) = data_stats_text s"
proof -
  have "length (data_stats_text s) < 512"
    using length_dec64 [of "s_frames s"] length_dec64 [of "s_frameMaxUs s"] length_dec64 [of "s_frameBudgetWarn s"]
      length_dec64 [of "s_frameBudgetAlarm s"] length_dec32 [of "s_ticks s"] length_dec64 [of "s_dropPoolFull s"]
      length_dec64 [of "s_dropSliceOverCap s"] length_dec64 [of "s_keyFail s"] length_dec64 [of "s_budgetWarnUs s"]
      length_dec64 [of "s_budgetAlarmUs s"]
    by (simp add: data_stats_text_def newline_def del: One_nat_def)
  then show ?thesis by (simp add: snprintf_text_def)
qed

lemma handlers_text:
  "CmdGetHandlers pe [] [] = (0, ''DTS.task (2 msgs)'' @ newline @ ''  0x0001  task_active'' @ newline @ ''  0x0007  task_config'' @ newline @
     ''DTS.data (2 msgs)'' @ newline @ ''  0x0002  data_task_active'' @ newline @ ''  0x0003  agent_data'' @ newline @
     ''DTS.oam (1 msgs)'' @ newline @ ''  0x000A  oam_stats_req'' @ newline @
     ''DTS.log (1 msgs)'' @ newline @ ''  0x0005  log_collect'' @ newline)"
proof -
  have d: "dec_string 1 = ''1''" "dec_string (Suc 0) = ''1''" "dec_string 2 = ''2''" "dec_string (Suc (Suc 0)) = ''2''"
    by code_simp+
  have h: "hex4 1 = ''0001''" "hex4 2 = ''0002''" "hex4 3 = ''0003''" "hex4 5 = ''0005''" "hex4 7 = ''0007''" "hex4 10 = ''000A''"
    by code_simp+
  have n: "cstr_text (Some ''task_active'') = ''task_active''" "cstr_text (Some ''task_config'') = ''task_config''"
    "cstr_text (Some ''data_task_active'') = ''data_task_active''" "cstr_text (Some ''agent_data'') = ''agent_data''"
    "cstr_text (Some ''oam_stats_req'') = ''oam_stats_req''" "cstr_text (Some ''log_collect'') = ''log_collect''"
    "cstr_text (Some ''DTS'') = ''DTS''"
    by (simp_all add: cstr_text_def c_str_def)
  show ?thesis
    by (simp add: CmdGetHandlers_def kGroupFns_def group_info_def kTaskGroups_def kDataGroups_def kLogGroups_def
        kTaskHandlers_def kDataHandlers_def kOamHandlers_def kLogHandlers_def group_text_def handler_line_def
        msg_id_defs session_defs d h n snprintf_text_def newline_def)
qed

lemma lookup_Nil: "lookup_cmd [] k = None"
  by (simp add: lookup_cmd_def)

text \<open>C30: The control plane after the start, even without a control thread: exactly the six commands are
  registered, each under its own name. A \<open>set_data_budget\<close> line with two decimal numbers sets the
  thresholds exactly if the first is positive and not above the second, and otherwise changes
  nothing; \<open>get_data_stats\<close> answers with the whole text of the factory's statistics; \<open>get_handlers\<close>
  lists exactly the six handlers of the three threads under their groups.\<close>

theorem Commands_run:
  assumes "Run_up e (Some path) p = Inr q" "ps_cmds p = (False, [])" "a < 2 ^ 64" "b < 2 ^ 64"
  shows "lookup_cmd (snd (ps_cmds q)) k = find (\<lambda>v. c_str (fst v) = k) command_entries \<and>
    Execute (run_cmd pe) (snd (ps_cmds q)) (''set_data_budget '' @ dec_string a @ '' '' @ dec_string b) out w = Some
      (if 0 < a \<and> a \<le> b
       then (0, ''data budget -> warn='' @ dec_string a @ ''us alarm='' @ dec_string b @ ''us'',
             w\<lparr>dw_factory := (dw_factory w)\<lparr>f_budgetWarnUs := of_nat a, f_budgetAlarmUs := of_nat b\<rparr>\<rparr>)
       else (1, ''invalid budget (warn must be <= alarm and both > 0)'', w)) \<and>
    Execute (run_cmd pe) (snd (ps_cmds q)) ''get_data_stats'' out w = Some (0, out @ data_stats_text (Stats (dw_factory w)), w) \<and>
    Execute (run_cmd pe) (snd (ps_cmds q)) ''get_handlers'' [] w = Some (0,
      ''DTS.task (2 msgs)'' @ newline @ ''  0x0001  task_active'' @ newline @ ''  0x0007  task_config'' @ newline @
      ''DTS.data (2 msgs)'' @ newline @ ''  0x0002  data_task_active'' @ newline @ ''  0x0003  agent_data'' @ newline @
      ''DTS.oam (1 msgs)'' @ newline @ ''  0x000A  oam_stats_req'' @ newline @
      ''DTS.log (1 msgs)'' @ newline @ ''  0x0005  log_collect'' @ newline, w)"
proof (intro conjI)
  note m = registered [OF assms(1,2)]
  show "lookup_cmd (snd (ps_cmds q)) k = find (\<lambda>v. c_str (fst v) = k) command_entries"
    unfolding m(1) by (simp add: command_registry.lookup_add_all lookup_Nil)
  have ua: "unat (of_nat a :: u64) = a" "unat (of_nat b :: u64) = b" using assms(3,4) by (simp_all add: unat_of_nat)
  have cmp: "(of_nat a :: u64) = 0 \<longleftrightarrow> a = 0" "(of_nat b :: u64) = 0 \<longleftrightarrow> b = 0" "(of_nat a :: u64) > of_nat b \<longleftrightarrow> a > b"
    using ua by (auto simp: word_less_nat_alt unat_eq_0 dest: arg_cong [of _ _ unat])
  have ex: "Execute (run_cmd pe) (snd (ps_cmds q)) l o1 w = (case tokens l of [] \<Rightarrow> if \<forall>c \<in> set l. trim_char c then Some (0, o1, w) else None
      | t # args \<Rightarrow> (case find (\<lambda>v. c_str (fst v) = c_str (c_str t)) command_entries of
          None \<Rightarrow> Some (1, ''not found: '' @ t, w)
        | Some v \<Rightarrow> map_option (\<lambda>fn. run_cmd pe fn args o1 w) (cd_fn (mk_command v))))" for l o1
    unfolding Execute_tokens m(2) Find_mk by (auto split: list.split option.split)
  show "Execute (run_cmd pe) (snd (ps_cmds q)) (''set_data_budget '' @ dec_string a @ '' '' @ dec_string b) out w = Some
      (if 0 < a \<and> a \<le> b
       then (0, ''data budget -> warn='' @ dec_string a @ ''us alarm='' @ dec_string b @ ''us'',
             w\<lparr>dw_factory := (dw_factory w)\<lparr>f_budgetWarnUs := of_nat a, f_budgetAlarmUs := of_nat b\<rparr>\<rparr>)
       else (1, ''invalid budget (warn must be <= alarm and both > 0)'', w))"
    unfolding ex budget_tokens
    by (auto simp: find_commands found_fn run_cmd_def CmdSetDataBudget_def dec_word(3) strtoull_dec_word [OF assms(3)]
        strtoull_dec_word [OF assms(4)] SetBudget_def cmp dec64_def ua Let_def not_le not_less)
  show "Execute (run_cmd pe) (snd (ps_cmds q)) ''get_data_stats'' out w = Some (0, out @ data_stats_text (Stats (dw_factory w)), w)"
    unfolding ex one_token by (simp add: find_commands found_fn run_cmd_def CmdGetDataStats_def data_stats_fits)
  show "Execute (run_cmd pe) (snd (ps_cmds q)) ''get_handlers'' [] w = Some (0,
      ''DTS.task (2 msgs)'' @ newline @ ''  0x0001  task_active'' @ newline @ ''  0x0007  task_config'' @ newline @
      ''DTS.data (2 msgs)'' @ newline @ ''  0x0002  data_task_active'' @ newline @ ''  0x0003  agent_data'' @ newline @
      ''DTS.oam (1 msgs)'' @ newline @ ''  0x000A  oam_stats_req'' @ newline @
      ''DTS.log (1 msgs)'' @ newline @ ''  0x0005  log_collect'' @ newline, w)"
    unfolding ex one_token by (simp add: find_commands found_fn run_cmd_def handlers_text)
qed

theorem Commands_run_witness:
  "\<exists>q. Run_up demo_env (Some ''cpf-dts.json'') demo_process = Inr q \<and>
     (\<forall>pe w. \<exists>txt. Execute (run_cmd pe) (snd (ps_cmds q)) (''set_data_budget '' @ dec_string 100 @ '' '' @ dec_string 200) [] w =
       Some (0, txt, w\<lparr>dw_factory := (dw_factory w)\<lparr>f_budgetWarnUs := 100, f_budgetAlarmUs := 200\<rparr>\<rparr>))"
proof -
  have "Run_up demo_env (Some ''cpf-dts.json'') demo_process =
      Inr (snd (Start demo_env (MakeConsoleSockPath (c_str ''cpf-dts.json'')) (prepared demo_env ''cpf-dts.json'' demo_process)))"
    by (subst Run_up_good) (simp_all add: Let_def demo_env_def good_def assembled_def)
  moreover have "ps_cmds demo_process = (False, [])" by (simp add: demo_process_def)
  ultimately show ?thesis
    using Commands_run [of demo_env "''cpf-dts.json''" demo_process _ 100 200] by (intro exI conjI allI) (assumption, simp)
qed

end
