(* ===== verification/System.thy ===== *)
theory System
  imports Bootstrap Web_Server Pipeline
begin

text \<open>
  The parts put together: the entry functions that connect a thread's loop with its dispatcher
  (\<open>contexts/*/interface\<close>), and the way of one frame through the whole
  system, from the middleware's callback in the one process to the event in the other.
\<close>

section \<open>Entry functions\<close>

definition TaskEntry :: "entry_call \<Rightarrow> task_ctx \<Rightarrow> task_ctx" where
  "TaskEntry c s = TaskMsgHandlerDispatch (ec_sessionInst c) (ec_msgId c) (ec_data c) (ec_len c) s"

definition DataEntry :: "process_env \<Rightarrow> entry_call \<Rightarrow> data_ctx \<Rightarrow> data_ctx" where
  "DataEntry pe c s = DataMsgHandlerDispatch pe (ec_sessionInst c) (ec_msgId c) (ec_data c) (ec_len c) s"

definition LogEntry :: "entry_call \<Rightarrow> log_ctx \<Rightarrow> log_ctx" where
  "LogEntry c s = LogMsgHandlerDispatch (ec_sessionInst c) (ec_msgId c) (ec_data c) (ec_len c) s"

text \<open>What a thread's calls, oldest first, make of its context.\<close>

definition after_calls :: "(entry_call \<Rightarrow> 's \<Rightarrow> 's) \<Rightarrow> (nat \<times> entry_call) list \<Rightarrow> 's \<Rightarrow> 's" where
  "after_calls entry calls s = fold (\<lambda>c. entry (snd c)) calls s"

section \<open>A frame's way\<close>

lemma parse_frameLen: "ParseReport (Some bs) len out = (True, v) \<Longrightarrow> v_frameLen v = len"
  by (auto simp: ParseReport_def Let_def split_beta split: if_splits)

lemma handle_route_msg:
  assumes "t_entry t" "raw \<noteq> []" "mid \<noteq> MSG_ID_STATUS"
  shows "t_calls (handle_part (route_msg (dts_endpoint inst mid) raw) t) = t_calls t @
    [(t_now t, \<lparr>ec_status = t_status t, ec_sessionInst = Some (c_str inst), ec_msgId = mid, ec_data = Some raw, ec_len = of_nat (length raw)\<rparr>)]"
  using assms by (simp add: handle_part_def call_entry_def route_msg_def dts_endpoint_def Let_def)

lemma data_call:
  assumes "length raw = unat kRawLen" "get16 raw 0 = 0" "pe_bypass pe = FULL" "pe_reg pe = InitExtractors Map.empty"
  shows "DataEntry pe \<lparr>ec_status = st, ec_sessionInst = Some ''data'', ec_msgId = MSG_ID_AGENT_DATA, ec_data = Some raw,
      ec_len = of_nat (length raw)\<rparr> d =
    d\<lparr>dc_factory := Process FULL (pe_us pe) (InitExtractors Map.empty) (pe_order pe) (Some raw) kRawLen 0 (dc_factory d)\<rparr>"
proof -
  have l: "(of_nat (length raw) :: u32) = kRawLen" using assms(1) by simp
  have "\<not> kRawLen < 2" by (simp add: kRawLen_def)
  moreover have "MSG_ID_AGENT_DATA \<noteq> MSG_ID_TIMER" "MSG_ID_AGENT_DATA \<noteq> MSG_ID_DATA_TASK_ACTIVE" by (simp_all add: msg_id_defs)
  ultimately show ?thesis
    using assms(2-4) by (simp add: DataEntry_def data_dispatch c_str_insts OnAgentData_def l)
qed

text \<open>The event that a full frame becomes.\<close>

definition full_frame_event :: "u32 \<Rightarrow> u32 \<Rightarrow> u64 \<Rightarrow> int \<Rightarrow> string" where
  "full_frame_event seq task ts off = ''{\"seq\":'' @ dec32 seq @ '',\"task\":'' @ dec32 task @ '',\"ts_ms\":'' @ dec_string (unat ts) @
     '',\"slices\":500,\"data_ids\":[1,500],\"len\":34782,\"offset\":'' @ int_string off @ ''}''"

lemma full_event:
  assumes "v_sliceCount v = 500" "v_dataIdMin v = 1" "v_dataIdMax v = 500" "v_frameLen v = 34782"
  shows "frame_event v off = full_frame_event (v_seq v) (v_taskId v) (v_timestampMs v) off"
proof -
  have c: "digit_char 0 = CHR ''0''" "digit_char 1 = CHR ''1''" "digit_char (Suc 0) = CHR ''1''" "digit_char 2 = CHR ''2''" "digit_char 3 = CHR ''3''"
    "digit_char 4 = CHR ''4''" "digit_char 5 = CHR ''5''" "digit_char 7 = CHR ''7''" "digit_char 8 = CHR ''8''"
    by code_simp+
  have d: "dec16 500 = ''500''" "dec16 1 = ''1''" "dec32 34782 = ''34782''"
    by (simp_all add: dec16_def dec32_def dec_string.simps c)
  show ?thesis unfolding frame_event_def full_frame_event_def assms d by simp
qed

text \<open>The web server on a report that parses.\<close>

lemma web_accepts:
  assumes "ParseReport (Some fr) 34782 zero_view = (True, v)" "length fr = 34782"
    and "wb_armed w" "wb_alive w" "kp_rk (wb_producer w)" "- (2 ^ 63) \<le> off" "off < 2 ^ 63"
  shows "OnDtsReport NO_ERROR (Some fr) w = Some (w\<lparr>wb_producer := (wb_producer w)
      \<lparr>kp_sent := kp_sent (wb_producer w) @ [\<lparr>km_value = fr, km_key = dec32 (v_taskId v),
           km_headers = [(''seq'', dec32 (v_seq v)), (''ts_ms'', dec_string (unat (v_timestampMs v)))]\<rparr>],
        kp_queued := kp_queued (wb_producer w) + 1\<rparr>\<rparr>)"
    "OnMessage \<lparr>wm_data = fr, wm_len = 34782, wm_offset = off, wm_now = now, wm_sec = sec, wm_ok = ok\<rparr> w =
      (let w1 = w\<lparr>wb_stats := OnReport v sec (wb_stats w)\<rparr> in
       if now - wb_last w \<ge> 100000000 then w1\<lparr>wb_last := now, wb_http := Broadcast ''frame'' (frame_event v off) ok (wb_http w)\<rparr> else w1)"
proof -
  have ne: "fr \<noteq> []" using assms(2) by auto
  have l: "(of_nat (length fr) :: u32) = 34782" unfolding assms(2) by simp
  have tk: "take 34782 fr = fr" using assms(2) by simp
  show "OnDtsReport NO_ERROR (Some fr) w = Some (w\<lparr>wb_producer := (wb_producer w)
      \<lparr>kp_sent := kp_sent (wb_producer w) @ [\<lparr>km_value = fr, km_key = dec32 (v_taskId v),
           km_headers = [(''seq'', dec32 (v_seq v)), (''ts_ms'', dec_string (unat (v_timestampMs v)))]\<rparr>],
        kp_queued := kp_queued (wb_producer w) + 1\<rparr>\<rparr>)"
    using ne assms(3-5)
    by (simp add: OnDtsReport_def l assms(1) tk snprintf_dec32 snprintf_dec64 Produce_def c_str_literals Let_def)
  have "parsed_of \<lparr>wm_data = fr, wm_len = 34782, wm_offset = off, wm_now = now, wm_sec = sec, wm_ok = ok\<rparr> = Some v"
    by (simp add: parsed_of_def assms(1))
  then show "OnMessage \<lparr>wm_data = fr, wm_len = 34782, wm_offset = off, wm_now = now, wm_sec = sec, wm_ok = ok\<rparr> w =
      (let w1 = w\<lparr>wb_stats := OnReport v sec (wb_stats w)\<rparr> in
       if now - wb_last w \<ge> 100000000 then w1\<lparr>wb_last := now, wb_http := Broadcast ''frame'' (frame_event v off) ok (wb_http w)\<rparr> else w1)"
    by (simp add: OnMessage_alt frame_event_fits [OF assms(6,7)] Let_def)
qed

text \<open>C1: One frame through the whole system. A full cell frame that the middleware delivers to the data
  thread's mailbox becomes one call of its entry function and there exactly one report of 34782
  bytes, counted without a drop; the report sink sends these bytes to the report endpoint of the
  middleware; in the web server they are handed to Kafka unchanged under the current task; and when
  they come back they are counted once with the next sequence number and, if an event is due, shown
  as 500 slices with the ids 1 to 500.\<close>

theorem Frame_to_browser:
  assumes "distinct (pe_order pe)" "set (pe_order pe) = dom (InitExtractors Map.empty)" "pe_bypass pe = FULL"
    and "pe_reg pe = InitExtractors Map.empty" "length raw = unat kRawLen" "get16 raw 0 = 0"
    and "factory_ready (dc_factory d) j r"
    and "AcquireBlock 0 10 (ExtractRawKey 0 (Some raw) kRawLen) (f_tick (dc_factory d)) (f_mem (dc_factory d)) = (Some blk, im')"
    and "t_entry t" "t_calls t = []"
    and "ps_comm p = Some c" "c_transport c = Some tr" "ps_mw p"
    and "wb_armed w" "wb_alive w" "kp_rk (wb_producer w)" "- (2 ^ 63) \<le> off" "off < 2 ^ 63"
  defines "d' \<equiv> after_calls (DataEntry pe) (t_calls (handle_part (route_msg (dts_endpoint SESSION_INST_DATA MSG_ID_AGENT_DATA) raw) t)) d"
    and "f \<equiv> dc_factory d"
  shows "\<exists>fr. f_published (dc_factory d') = f_published f @ [fr] \<and> length fr = 34782 \<and>
    s_frames (f_stats (dc_factory d')) = s_frames (f_stats f) + 1 \<and> m_drops (f_agg (dc_factory d')) = m_drops (f_agg f) \<and>
    ps_comm (Publish_report ops (Some fr) 34782 p) =
      Some (c\<lparr>c_transport := Some (snd (tr_Send ops (dts_endpoint SESSION_INST_DATA MSG_ID_REPORT) (Some fr) 34782 tr))\<rparr>) \<and>
    OnDtsReport NO_ERROR (Some fr) w = Some (w\<lparr>wb_producer := (wb_producer w)
      \<lparr>kp_sent := kp_sent (wb_producer w) @ [\<lparr>km_value = fr, km_key = dec32 (f_currentTask f),
           km_headers = [(''seq'', dec32 (f_seq f + 1)), (''ts_ms'', dec_string (unat (ucast (f_tick f) * 100 :: u64)))]\<rparr>],
        kp_queued := kp_queued (wb_producer w) + 1\<rparr>\<rparr>) \<and>
    (let w1 = OnMessage \<lparr>wm_data = fr, wm_len = 34782, wm_offset = off, wm_now = now, wm_sec = sec, wm_ok = ok\<rparr> w in
      w_totalFrames (wb_stats w1) = w_totalFrames (wb_stats w) + 1 \<and> w_lastSeq (wb_stats w1) = f_seq f + 1 \<and>
      hs_events (wb_http w1) = hs_events (wb_http w) @ (if now - wb_last w \<ge> 100000000
        then [sse_text ''frame'' (full_frame_event (f_seq f + 1) (f_currentTask f) (ucast (f_tick f) * 100) off)] else []))"
proof -
  have "unat kRawLen = 32768" by (simp add: kRawLen_def)
  then have ne: "raw \<noteq> []" using assms(5) by auto
  have mid: "MSG_ID_AGENT_DATA \<noteq> MSG_ID_STATUS" by (simp add: msg_id_defs)
  have inst: "c_str SESSION_INST_DATA = ''data''" by (simp add: session_defs)
  have d': "d' = d\<lparr>dc_factory := Process FULL (pe_us pe) (InitExtractors Map.empty) (pe_order pe) (Some raw) kRawLen 0 f\<rparr>"
    unfolding d'_def f_def handle_route_msg [OF assms(9) ne mid] assms(10) inst after_calls_def
    by (simp add: data_call [OF assms(5,6,3,4)])
  obtain fr v where fr: "f_published (dc_factory d') = f_published f @ [fr]" "length fr = 34782"
    "ParseReport (Some fr) 34782 zero_view = (True, v)" "v_taskId v = f_currentTask f" "v_seq v = f_seq f + 1"
    "v_timestampMs v = ucast (f_tick f) * 100" "v_sliceCount v = 500" "v_dataIdMin v = 1" "v_dataIdMax v = 500"
    "s_frames (f_stats (dc_factory d')) = s_frames (f_stats f) + 1" "m_drops (f_agg (dc_factory d')) = m_drops (f_agg f)"
    using full_frame_report [OF assms(1,2,5,7,8), of "pe_us pe"] unfolding d' f_def by auto
  note web = web_accepts [OF fr(3,2) assms(14-18)]
  have send: "ps_comm (Publish_report ops (Some fr) 34782 p) =
      Some (c\<lparr>c_transport := Some (snd (tr_Send ops (dts_endpoint SESSION_INST_DATA MSG_ID_REPORT) (Some fr) 34782 tr))\<rparr>)"
    using assms(11-13) by (simp add: Publish_report_def publish_external_def split_beta Let_def)
  have cnt: "w_totalFrames (OnReport v sec s) = w_totalFrames s + 1" "w_lastSeq (OnReport v sec s) = f_seq f + 1" for s
    by (simp_all add: OnReport_def AddBucket_def RollTo_def Let_def fr(5))
  have ev: "frame_event v off = full_frame_event (f_seq f + 1) (f_currentTask f) (ucast (f_tick f) * 100) off"
    using full_event [OF fr(7-9) parse_frameLen [OF fr(3)]] unfolding fr(4-6) .
  have kp: "OnDtsReport NO_ERROR (Some fr) w = Some (w\<lparr>wb_producer := (wb_producer w)
      \<lparr>kp_sent := kp_sent (wb_producer w) @ [\<lparr>km_value = fr, km_key = dec32 (f_currentTask f),
           km_headers = [(''seq'', dec32 (f_seq f + 1)), (''ts_ms'', dec_string (unat (ucast (f_tick f) * 100 :: u64)))]\<rparr>],
        kp_queued := kp_queued (wb_producer w) + 1\<rparr>\<rparr>)"
    using web(1) unfolding fr(4-6) .
  show ?thesis
    by (rule exI [of _ fr], intro conjI fr(1,2,10,11) send kp) (simp add: web(2) ev cnt Broadcast_events Let_def)
qed

definition demo_pe :: process_env where
  "demo_pe = \<lparr>pe_bypass = FULL, pe_us = 5, pe_reg = InitExtractors Map.empty, pe_order = start_order\<rparr>"

definition demo_web :: web where
  "demo_web = (new_web ''b'' ''t'')\<lparr>wb_armed := True, wb_producer := (new_producer ''b'' ''t'')\<lparr>kp_rk := True\<rparr>\<rparr>"

definition demo_data :: data_ctx where
  "demo_data = \<lparr>dc_factory = start_factory 9, dc_mw = True, dc_pubs = []\<rparr>"

definition zero_frame :: bytes where
  "zero_frame = replicate 32768 0"

lemma zero_frame: "length zero_frame = unat kRawLen" "get16 zero_frame 0 = 0" "zero_frame \<noteq> []"
proof -
  show "length zero_frame = unat kRawLen" by (simp only: zero_frame_def length_replicate kRawLen_def) simp
  have "zero_frame = le16 0 @ replicate 32766 0"
    unfolding zero_frame_def using replicate_add [of 2 32766 "0 :: u8"] by (simp add: le16_def le_bytes_def numeral_2_eq_2)
  then show "get16 zero_frame 0 = 0" using get16_append [of "[]" 0 0 "replicate 32766 0"] by simp
  show "zero_frame \<noteq> []" by (simp add: zero_frame_def)
qed

theorem Frame_to_browser_witness:
  "\<exists>fr. f_published (dc_factory (after_calls (DataEntry demo_pe)
      (t_calls (handle_part (route_msg (dts_endpoint SESSION_INST_DATA MSG_ID_AGENT_DATA) zero_frame) (start_thread True 0))) demo_data)) = [fr] \<and>
    hs_events (wb_http (OnMessage \<lparr>wm_data = fr, wm_len = 34782, wm_offset = 0, wm_now = 200000000, wm_sec = 1, wm_ok = \<lambda>_. True\<rparr> demo_web)) =
      [sse_text ''frame'' (full_frame_event 1 9 0 0)]"
proof -
  obtain blk im' where a: "AcquireBlock 0 10 (ExtractRawKey 0 (Some zero_frame) kRawLen) (f_tick (dc_factory demo_data))
      (f_mem (dc_factory demo_data)) = (Some blk, im')"
    unfolding demo_data_def data_ctx.simps using start_factory_acquire by blast
  have r: "factory_ready (dc_factory demo_data) 0 (region0 (\<lambda>n. replicate n 0))"
    unfolding demo_data_def by (simp add: start_factory_ready)
  have f: "f_published (start_factory 9) = []" "f_currentTask (start_factory 9) = 9" "f_tick (start_factory 9) = 0" "f_seq (start_factory 9) = 0"
    by (simp_all add: start_factory_def OnTask_def SetReportSink_def new_factory_def)
  have o1: "distinct (pe_order demo_pe)" "set (pe_order demo_pe) = dom (InitExtractors Map.empty)" "pe_bypass demo_pe = FULL"
    "pe_reg demo_pe = InitExtractors Map.empty"
    using start_order_ok by (simp_all add: demo_pe_def)
  let ?p = "demo_process\<lparr>ps_comm := Some (empty_communicator\<lparr>c_transport := Some ()\<rparr>), ps_mw := True\<rparr>"
  note th = Frame_to_browser [OF o1 zero_frame(1,2) r a, of "start_thread True 0" ?p "empty_communicator\<lparr>c_transport := Some ()\<rparr>" "()"
      demo_web 0 demo_ops 200000000 1 "\<lambda>_. True"]
  have w: "wb_last demo_web = 0" "hs_events (wb_http demo_web) = []" "wb_armed demo_web" "wb_alive demo_web" "kp_rk (wb_producer demo_web)"
    by (simp_all add: demo_web_def new_web_def new_server_def)
  have d: "dc_factory demo_data = start_factory 9" by (simp add: demo_data_def)
  show ?thesis
    using th w unfolding d f by (force simp: start_thread_def Let_def)
qed

end
