(* ===== verification/Run_Threads.thy ===== *)
theory Run_Threads
  imports Bootstrap
begin

text \<open>
  The threads of the process with the scheduler's model in place of its answers: the calls of
  \<open>DeclareDomain\<close>, \<open>CreateThread\<close> and \<open>DestroyThread\<close> that \<open>Start\<close> and \<open>Stop\<close> of \<open>bootstrap/src/run.cpp\<close>,
  \<open>console_start\<close>/\<open>console_stop\<close> and \<open>control_start\<close>/\<open>control_stop\<close> of \<open>infrastructure/src/console.cpp\<close>
  make, in their order, and what \<open>Run\<close> makes of the operating system's grants.
\<close>

section \<open>Creation and destruction\<close>

definition kConsoleBkgPrio :: int where "kConsoleBkgPrio = 20"

fun worker_prio :: "worker \<Rightarrow> int" where
  "worker_prio Task = TASK_PRIO" | "worker_prio Data = DATA_PRIO" | "worker_prio Log = LOG_PRIO"

record handles =
  hs_worker :: "worker \<Rightarrow> nat option"
  hs_console :: "nat option"
  hs_control :: "nat option"

definition no_handles :: handles where
  "no_handles = \<lparr>hs_worker = \<lambda>_. None, hs_console = None, hs_control = None\<rparr>"

text \<open>\<open>StartWorker\<close>, the part of \<open>console_start\<close> behind \<open>listen\<close>, and \<open>control_start\<close>.\<close>

definition create_worker :: "pthread_create \<Rightarrow> bool \<Rightarrow> worker \<Rightarrow> handles \<times> entry_fn ThreadFactory \<Rightarrow> handles \<times> entry_fn ThreadFactory" where
  "create_worker os strict w s = (case s of (h, f) \<Rightarrow>
     (let (r, f') = CreateThread_fn os strict (worker_name w) (worker_prio w) (Some (ThreadEntry_fn w)) f
      in (h\<lparr>hs_worker := (hs_worker h)(w := r)\<rparr>, f')))"

definition create_console :: "pthread_create \<Rightarrow> bool \<Rightarrow> bool \<Rightarrow> handles \<times> entry_fn ThreadFactory \<Rightarrow> handles \<times> entry_fn ThreadFactory" where
  "create_console os strict listening s = (case s of (h, f) \<Rightarrow>
     if \<not> listening then (h, f)
     else let (r, f') = CreateThread_fn os strict ''console'' kConsoleBkgPrio (Some ConsoleLoop_fn) (snd (DeclareDomain kConsoleBkgPrio f))
       in (h\<lparr>hs_console := r\<rparr>, f'))"

definition create_control :: "pthread_create \<Rightarrow> bool \<Rightarrow> handles \<times> entry_fn ThreadFactory \<Rightarrow> handles \<times> entry_fn ThreadFactory" where
  "create_control os strict s = (case s of (h, f) \<Rightarrow>
     (let (r, f') = CreateThread_fn os strict ''control'' kConsoleBkgPrio (Some ControlLoop_fn) (snd (DeclareDomain kConsoleBkgPrio f))
      in (h\<lparr>hs_control := r\<rparr>, f')))"

text \<open>The threads of \<open>Start\<close>; \<open>listening\<close> says whether the console's socket listens.\<close>

definition start_threads :: "pthread_create \<Rightarrow> bool \<Rightarrow> bool \<Rightarrow> entry_fn ThreadFactory \<Rightarrow> bool \<times> handles \<times> entry_fn ThreadFactory" where
  "start_threads os strict listening f = (let (ok, f0) = DeclareDomain DATA_PRIO f in
     (ok, create_control os strict (create_console os strict listening
        (create_worker os strict Log (create_worker os strict Data (create_worker os strict Task (no_handles, f0)))))))"

text \<open>The destructions of \<open>Stop\<close>: a null handle is skipped (\<open>DestroyThread\<close> returns at once).\<close>

fun destroy_all :: "nat option list \<Rightarrow> 'f ThreadFactory \<Rightarrow> 'f ThreadFactory option" where
  "destroy_all [] f = Some f"
| "destroy_all (h # hs) f = (case DestroyThread h f of None \<Rightarrow> None | Some f' \<Rightarrow> destroy_all hs f')"

definition stop_threads :: "handles \<Rightarrow> 'f ThreadFactory \<Rightarrow> 'f ThreadFactory option" where
  "stop_threads h f = destroy_all [hs_control h, hs_console h, hs_worker h Task, hs_worker h Data, hs_worker h Log] f"

text \<open>The environment of \<open>Run\<close> with the scheduler's answers filled in.\<close>

definition with_threads :: "bool \<times> handles \<times> entry_fn ThreadFactory \<Rightarrow> 't boot_env \<Rightarrow> 't boot_env" where
  "with_threads s e = e\<lparr>be_domain := fst s, be_thread := \<lambda>n.
     (if n = ''task'' then hs_worker (fst (snd s)) Task else if n = ''data'' then hs_worker (fst (snd s)) Data
      else if n = ''log'' then hs_worker (fst (snd s)) Log else if n = ''console'' then hs_console (fst (snd s))
      else if n = ''control'' then hs_control (fst (snd s)) else None) \<noteq> None\<rparr>"

section \<open>What the operating system grants\<close>

text \<open>Three machines: one that grants real-time scheduling, one that refuses it for lack of permission,
  both with enough resources for a thread without it.\<close>

definition grants :: "bool \<Rightarrow> pthread_create \<Rightarrow> bool" where
  "grants rt os \<longleftrightarrow> (\<forall>n a. fst (os n a) = (if rt \<or> at_sched a = None then 0 else EPERM))"

type_synonym grade = "string \<times> int \<times> int \<times> int"

definition grade :: "ThreadInfo \<Rightarrow> grade" where
  "grade i = (ti_name i, ti_segIndex i, ti_prio i, ti_schedPolicy i)"

definition live :: "'f ThreadFactory \<Rightarrow> grade list" where
  "live f = map (\<lambda>a. grade (thread_info (the (tf_heap f a)))) (tf_registry f)"

lemma live_query: "length (tf_registry f) \<le> cap \<Longrightarrow> map grade (QueryThreads cap f) = live f"
  by (simp add: live_def QueryThreads_def)

lemma live_calls [simp]: "live (f\<lparr>tf_calls := n\<rparr>) = live f" "factory_ok (f\<lparr>tf_calls := n\<rparr>) = factory_ok f"
  by (simp_all add: live_def factory_ok_def)

lemma live_domains [simp]: "live (f\<lparr>tf_domains := d\<rparr>) = live f"
  by (simp add: live_def)

lemma enter_live:
  assumes "factory_ok f" "fst r = 0"
  shows "fst (enter_thread r h f) = Some (tf_next f)" "live (snd (enter_thread r h f)) =
      live f @ [(thr_name h, thr_segIndex h, thr_prio h, thr_schedPolicy h)]"
    "tf_domains (snd (enter_thread r h f)) = tf_domains f"
    "tf_registry (snd (enter_thread r h f)) = tf_registry f @ [tf_next f]"
proof -
  have "\<forall>a \<in> set (tf_registry f). a \<noteq> tf_next f" using assms(1) by (auto simp: factory_ok_def)
  then show "live (snd (enter_thread r h f)) = live f @ [(thr_name h, thr_segIndex h, thr_prio h, thr_schedPolicy h)]"
    using assms(2) by (simp add: live_def enter_thread_def thread_info_def grade_def)
qed (simp_all add: enter_thread_def assms(2))

text \<open>What a thread of priority \<open>p\<close> gets.\<close>

definition seat :: "bool \<Rightarrow> bool \<Rightarrow> string \<Rightarrow> int \<Rightarrow> grade option" where
  "seat rt strict nm p = (let i = SegmentIndex p; pol = seg_schedPolicy (KSCHED_SEGMENTS ! nat i) in
     if pol = SCHED_OTHER \<or> rt then Some (nm, i, p, pol) else if strict then None else Some (nm, i, 0, SCHED_OTHER))"

definition opt_list :: "'a option \<Rightarrow> 'a list" where
  "opt_list x = (case x of Some a \<Rightarrow> [a] | None \<Rightarrow> [])"

lemma opt_list_simps [simp]: "opt_list None = []" "opt_list (Some a) = [a]"
  by (simp_all add: opt_list_def)

lemma CreateThread_fn_launch:
  assumes "\<not> SegmentIndex p < 0" "tf_domains f ! nat (SegmentIndex p)"
  shows "CreateThread_fn os strict nm p fn f = launch_thread os strict 0 None
    \<lparr>thr_name = nm, thr_segIndex = SegmentIndex p, thr_prio = p, thr_schedPolicy = seg_schedPolicy (KSCHED_SEGMENTS ! nat (SegmentIndex p)),
     thr_cpuAffinity = - 1, thr_detached = False, thr_fn = fn, thr_tid = 0, thr_stop = False, thr_state = THREAD_STATE_IDLE\<rparr> f"
  using assms SegmentIndex_bounds(2,3) [OF assms(1)]
  by (simp add: CreateThread_fn_def CreateThread_def req_prio_def req_policy_def Let_def)

lemma launch_seat:
  assumes "grants rt os"
  shows "thr_schedPolicy h = SCHED_OTHER \<or> rt \<Longrightarrow>
      \<exists>r. fst r = 0 \<and> launch_thread os strict st ps h f = enter_thread r h (f\<lparr>tf_calls := Suc (tf_calls f)\<rparr>)"
    "thr_schedPolicy h \<noteq> SCHED_OTHER \<Longrightarrow> \<not> rt \<Longrightarrow> strict \<Longrightarrow>
      launch_thread os strict st ps h f = (None, f\<lparr>tf_calls := Suc (tf_calls f)\<rparr>)"
    "thr_schedPolicy h \<noteq> SCHED_OTHER \<Longrightarrow> \<not> rt \<Longrightarrow> \<not> strict \<Longrightarrow>
      \<exists>r. fst r = 0 \<and> launch_thread os strict st ps h f =
        enter_thread r (h\<lparr>thr_schedPolicy := SCHED_OTHER, thr_prio := 0\<rparr>) (f\<lparr>tf_calls := Suc (Suc (tf_calls f))\<rparr>)"
proof -
  have a: "at_sched (thread_attr st d ps s) = None \<longleftrightarrow> s = None" for d s
    by (simp add: thread_attr_def split: option.splits prod.split)
  have e: "EPERM \<noteq> 0" by (simp add: EPERM_def)
  show "thr_schedPolicy h = SCHED_OTHER \<or> rt \<Longrightarrow>
      \<exists>r. fst r = 0 \<and> launch_thread os strict st ps h f = enter_thread r h (f\<lparr>tf_calls := Suc (tf_calls f)\<rparr>)"
    using assms a e by (intro exI [of _ "os (tf_calls f) (thread_attr st (thr_detached h) ps
        (if thr_schedPolicy h \<noteq> SCHED_OTHER then Some (thr_schedPolicy h, thr_prio h) else None))"])
      (cases "thr_schedPolicy h = SCHED_OTHER", simp_all add: launch_thread_def grants_def Let_def)
  show "thr_schedPolicy h \<noteq> SCHED_OTHER \<Longrightarrow> \<not> rt \<Longrightarrow> strict \<Longrightarrow>
      launch_thread os strict st ps h f = (None, f\<lparr>tf_calls := Suc (tf_calls f)\<rparr>)"
    using assms a by (simp add: launch_thread_def grants_def Let_def)
  show "thr_schedPolicy h \<noteq> SCHED_OTHER \<Longrightarrow> \<not> rt \<Longrightarrow> \<not> strict \<Longrightarrow>
      \<exists>r. fst r = 0 \<and> launch_thread os strict st ps h f =
        enter_thread r (h\<lparr>thr_schedPolicy := SCHED_OTHER, thr_prio := 0\<rparr>) (f\<lparr>tf_calls := Suc (Suc (tf_calls f))\<rparr>)"
    using assms a by (intro exI [of _ "os (Suc (tf_calls f)) (thread_attr st (thr_detached h) ps None)"])
      (simp add: launch_thread_def grants_def Let_def)
qed

text \<open>One creation on such a machine: what is returned, and how the registry grows.\<close>

definition grown :: "entry_fn ThreadFactory \<Rightarrow> grade option \<Rightarrow> nat option \<times> entry_fn ThreadFactory \<Rightarrow> bool" where
  "grown f g res \<longleftrightarrow> factory_ok (snd res) \<and> tf_domains (snd res) = tf_domains f \<and> live (snd res) = live f @ opt_list g \<and>
     tf_registry (snd res) = tf_registry f @ opt_list (fst res) \<and> (fst res = None \<longleftrightarrow> g = None)"

lemma grown_enter:
  assumes "factory_ok f" "fst r = 0" "res = enter_thread r h (f\<lparr>tf_calls := n\<rparr>)" "factory_ok (snd res)"
  shows "grown f (Some (thr_name h, thr_segIndex h, thr_prio h, thr_schedPolicy h)) res"
proof -
  have "factory_ok (f\<lparr>tf_calls := n\<rparr>)" using assms(1) by simp
  from enter_live [OF this assms(2), of h] show ?thesis using assms(4) unfolding grown_def assms(3) by simp
qed

lemma create_grown:
  assumes "factory_ok f" "\<not> SegmentIndex p < 0" "tf_domains f ! nat (SegmentIndex p)" "grants rt os"
  shows "grown f (seat rt strict nm p) (CreateThread_fn os strict nm p fn f)"
proof -
  let ?pol = "seg_schedPolicy (KSCHED_SEGMENTS ! nat (SegmentIndex p))" and ?res = "CreateThread_fn os strict nm p fn f"
  define h where "h = \<lparr>thr_name = nm, thr_segIndex = SegmentIndex p, thr_prio = p, thr_schedPolicy = ?pol,
     thr_cpuAffinity = - 1, thr_detached = False, thr_fn = fn, thr_tid = 0, thr_stop = False, thr_state = THREAD_STATE_IDLE\<rparr>"
  have h: "thr_name h = nm" "thr_segIndex h = SegmentIndex p" "thr_prio h = p" "thr_schedPolicy h = ?pol" by (simp_all add: h_def)
  have ok: "factory_ok (snd ?res)" unfolding CreateThread_fn_def by (rule CreateThread_ok [OF assms(1)])
  have l: "?res = launch_thread os strict 0 None h f" unfolding h_def by (rule CreateThread_fn_launch [OF assms(2,3)])
  note L = launch_seat [OF assms(4), of h strict 0 None f, folded l] and G = grown_enter [OF assms(1) _ _ ok]
  consider "?pol = SCHED_OTHER \<or> rt" | "?pol \<noteq> SCHED_OTHER" "\<not> rt" "strict" | "?pol \<noteq> SCHED_OTHER" "\<not> rt" "\<not> strict" by blast
  then show ?thesis
  proof cases
    case 1
    with L(1) h(4) obtain r where "fst r = 0" "?res = enter_thread r h (f\<lparr>tf_calls := Suc (tf_calls f)\<rparr>)" by auto
    from G [OF this] 1 show ?thesis by (simp add: h seat_def Let_def)
  next
    case 2
    with L(2) h(4) have "?res = (None, f\<lparr>tf_calls := Suc (tf_calls f)\<rparr>)" by simp
    with 2 assms(1) show ?thesis by (simp add: grown_def seat_def Let_def)
  next
    case 3
    with L(3) h(4) obtain r where "fst r = 0" "?res = enter_thread r (h\<lparr>thr_schedPolicy := SCHED_OTHER, thr_prio := 0\<rparr>)
      (f\<lparr>tf_calls := Suc (Suc (tf_calls f))\<rparr>)" by auto
    from G [OF this] 3 show ?thesis by (simp add: h seat_def Let_def)
  qed
qed

lemma segment_of_prios: "SegmentIndex DATA_PRIO = 3" "SegmentIndex (worker_prio w) = 3" "SegmentIndex kConsoleBkgPrio = 4"
  by (cases w; simp add: SegmentIndex_def KSCHED_SEGMENTS_def mk_segment_def DATA_PRIO_def TASK_PRIO_def LOG_PRIO_def kConsoleBkgPrio_def)+

text \<open>The seats of the process.\<close>

definition business_seat :: "bool \<Rightarrow> bool \<Rightarrow> worker \<Rightarrow> grade option" where
  "business_seat rt strict w = (if rt then Some (worker_name w, 3, worker_prio w, SCHED_RR)
     else if strict then None else Some (worker_name w, 3, 0, SCHED_OTHER))"

lemma seat_business: "seat rt strict (worker_name w) (worker_prio w) = business_seat rt strict w"
  by (simp add: seat_def segment_of_prios business_seat_def KSCHED_SEGMENTS_def mk_segment_def sched_defs Let_def)

lemma seat_control: "seat rt strict nm kConsoleBkgPrio = Some (nm, 4, 20, SCHED_OTHER)"
  by (simp add: seat_def segment_of_prios KSCHED_SEGMENTS_def mk_segment_def sched_defs Let_def) (simp add: kConsoleBkgPrio_def)

section \<open>Start and stop\<close>

definition business :: "bool \<Rightarrow> bool \<Rightarrow> grade list" where
  "business rt strict = concat (map (\<lambda>w. opt_list (business_seat rt strict w)) [Task, Data, Log])"

definition all_handles :: "handles \<Rightarrow> nat option list" where
  "all_handles h = map (hs_worker h) [Task, Data, Log] @ [hs_console h, hs_control h]"

lemma worker_grown:
  assumes "factory_ok f" "tf_domains f ! 3" "grants rt os"
  shows "grown f (business_seat rt strict w) (CreateThread_fn os strict (worker_name w) (worker_prio w) fn f)"
  using create_grown [OF assms(1) _ _ assms(3), of "worker_prio w" strict "worker_name w" fn] assms(2)
  by (simp add: segment_of_prios seat_business)

lemma background_grown:
  assumes "factory_ok f" "grants rt os"
  shows "grown (snd (DeclareDomain kConsoleBkgPrio f)) (Some (nm, 4, 20, SCHED_OTHER))
      (CreateThread_fn os strict nm kConsoleBkgPrio fn (snd (DeclareDomain kConsoleBkgPrio f)))"
proof -
  have "tf_domains (snd (DeclareDomain kConsoleBkgPrio f)) ! 4"
    using assms(1) by (simp add: DeclareDomain_def segment_of_prios factory_ok_def SCHED_DOMAIN_COUNT_def)
  then show ?thesis
    using create_grown [OF DeclareDomain_ok [OF assms(1)] _ _ assms(2), of kConsoleBkgPrio kConsoleBkgPrio strict nm fn]
    by (simp add: segment_of_prios seat_control)
qed

lemma declare_keeps: "live (snd (DeclareDomain p f)) = live f" "tf_registry (snd (DeclareDomain p f)) = tf_registry f"
  by (simp_all add: DeclareDomain_def Let_def)

lemma start_workers:
  assumes "factory_ok f0" "tf_domains f0 ! 3" "tf_registry f0 = []" "grants rt os"
  shows "\<exists>h f. create_worker os strict Log (create_worker os strict Data (create_worker os strict Task (no_handles, f0))) = (h, f) \<and>
      factory_ok f \<and> live f = business rt strict \<and> tf_registry f = concat (map opt_list (all_handles h)) \<and>
      (\<forall>w. hs_worker h w = None \<longleftrightarrow> business_seat rt strict w = None) \<and> hs_console h = None \<and> hs_control h = None"
proof -
  obtain t f1 where 1: "CreateThread_fn os strict (worker_name Task) (worker_prio Task) (Some (ThreadEntry_fn Task)) f0 = (t, f1)" by fastforce
  obtain d f2 where 2: "CreateThread_fn os strict (worker_name Data) (worker_prio Data) (Some (ThreadEntry_fn Data)) f1 = (d, f2)" by fastforce
  obtain l f3 where 3: "CreateThread_fn os strict (worker_name Log) (worker_prio Log) (Some (ThreadEntry_fn Log)) f2 = (l, f3)" by fastforce
  note G = worker_grown [OF _ _ assms(4), where strict = strict]
  note g1 = G [OF assms(1,2), of Task "Some (ThreadEntry_fn Task)", unfolded 1 grown_def fst_conv snd_conv]
  have d1: "factory_ok f1" "tf_domains f1 ! 3" using g1 assms(2) by simp_all
  note g2 = G [OF d1, of Data "Some (ThreadEntry_fn Data)", unfolded 2 grown_def fst_conv snd_conv]
  have d2: "factory_ok f2" "tf_domains f2 ! 3" using g2 d1 by simp_all
  note g3 = G [OF d2, of Log "Some (ThreadEntry_fn Log)", unfolded 3 grown_def fst_conv snd_conv]
  define h3 where "h3 = \<lparr>hs_worker = (\<lambda>_. None)(Task := t, Data := d, Log := l), hs_console = None, hs_control = None\<rparr>"
  have s3: "create_worker os strict Log (create_worker os strict Data (create_worker os strict Task (no_handles, f0))) = (h3, f3)"
    by (simp add: create_worker_def no_handles_def h3_def 1 2 3 del: worker_name.simps worker_prio.simps)
  have "live f0 = []" using assms(3) by (simp add: live_def)
  then have "live f3 = business rt strict" using g1 g2 g3 by (simp add: business_def)
  moreover have "tf_registry f3 = concat (map opt_list (all_handles h3))"
    using g1 g2 g3 assms(3) by (simp add: all_handles_def h3_def)
  moreover have "hs_worker h3 w = None \<longleftrightarrow> business_seat rt strict w = None" for w
    using g1 g2 g3 by (cases w) (simp_all add: h3_def)
  ultimately show ?thesis using g3 s3 by (simp add: h3_def)
qed

lemma start_control_plane:
  assumes "factory_ok f" "tf_registry f = concat (map opt_list (all_handles h))" "hs_console h = None" "hs_control h = None" "grants rt os"
  shows "\<exists>h' f'. create_control os strict (create_console os strict listening (h, f)) = (h', f') \<and> factory_ok f' \<and>
      live f' = live f @ (if listening then [(''console'', 4, 20, SCHED_OTHER)] else []) @ [(''control'', 4, 20, SCHED_OTHER)] \<and>
      tf_registry f' = concat (map opt_list (all_handles h')) \<and> hs_worker h' = hs_worker h \<and>
      (hs_console h' \<noteq> None \<longleftrightarrow> listening) \<and> hs_control h' \<noteq> None"
proof -
  obtain h1 f1 where 1: "create_console os strict listening (h, f) = (h1, f1)" by fastforce
  have c1: "factory_ok f1 \<and> live f1 = live f @ (if listening then [(''console'', 4, 20, SCHED_OTHER)] else []) \<and>
      tf_registry f1 = concat (map opt_list (all_handles h1)) \<and> hs_worker h1 = hs_worker h \<and>
      (hs_console h1 \<noteq> None \<longleftrightarrow> listening) \<and> hs_control h1 = None"
    using background_grown [OF assms(1,5), of "''console''" strict "Some ConsoleLoop_fn"] assms(1-4) 1
    by (auto simp: create_console_def grown_def all_handles_def declare_keeps split: prod.splits if_splits)
  show ?thesis
    using background_grown [OF _ assms(5), of f1 "''control''" strict "Some ControlLoop_fn"] c1
    unfolding 1 by (auto simp: create_control_def grown_def all_handles_def declare_keeps split: prod.splits)
qed

text \<open>The threads that \<open>Start\<close> makes, and their handles.\<close>

lemma start_threads_seated:
  assumes "grants rt os"
  shows "\<exists>h f. start_threads os strict listening new_factory_t = (True, h, f) \<and> factory_ok f \<and>
      live f = business rt strict @ (if listening then [(''console'', 4, 20, SCHED_OTHER)] else []) @ [(''control'', 4, 20, SCHED_OTHER)] \<and>
      tf_registry f = concat (map opt_list (all_handles h)) \<and>
      (\<forall>w. hs_worker h w = None \<longleftrightarrow> business_seat rt strict w = None) \<and> (hs_console h \<noteq> None \<longleftrightarrow> listening) \<and> hs_control h \<noteq> None"
proof -
  define f0 where "f0 = snd (DeclareDomain DATA_PRIO new_factory_t :: bool \<times> entry_fn ThreadFactory)"
  have ok: "factory_ok f0" by (simp add: f0_def DeclareDomain_ok new_factory_ok)
  have f0: "tf_domains f0 ! 3" "tf_registry f0 = []" "DeclareDomain DATA_PRIO new_factory_t = (True, f0)"
    by (simp_all add: f0_def DeclareDomain_def segment_of_prios new_factory_t_def SCHED_DOMAIN_COUNT_def)
  from start_workers [OF ok f0(1,2) assms] obtain h1 f1
    where w: "create_worker os strict Log (create_worker os strict Data (create_worker os strict Task (no_handles, f0))) = (h1, f1)"
      "factory_ok f1" "live f1 = business rt strict" "tf_registry f1 = concat (map opt_list (all_handles h1))"
      "\<forall>w. hs_worker h1 w = None \<longleftrightarrow> business_seat rt strict w = None" "hs_console h1 = None" "hs_control h1 = None" by blast
  from start_control_plane [OF w(2,4,6,7) assms] obtain h f
    where c: "create_control os strict (create_console os strict listening (h1, f1)) = (h, f)" "factory_ok f"
      "live f = live f1 @ (if listening then [(''console'', 4, 20, SCHED_OTHER)] else []) @ [(''control'', 4, 20, SCHED_OTHER)]"
      "tf_registry f = concat (map opt_list (all_handles h))" "hs_worker h = hs_worker h1"
      "hs_console h \<noteq> None \<longleftrightarrow> listening" "hs_control h \<noteq> None" by blast
  have "start_threads os strict listening new_factory_t = (True, h, f)" by (simp add: start_threads_def f0(3) w(1) c(1))
  with c(2-4) c(6-7) w(5) show ?thesis unfolding w(3) c(5) [symmetric] by blast
qed

text \<open>Threads that are in the registry can be destroyed one after the other.\<close>

lemma destroy_all_live:
  assumes "factory_ok f" "distinct (concat (map opt_list hs))" "set (concat (map opt_list hs)) \<subseteq> set (tf_registry f)"
  shows "\<exists>f'. destroy_all hs f = Some f' \<and> set (tf_registry f') = set (tf_registry f) - set (concat (map opt_list hs))"
  using assms
proof (induction hs arbitrary: f)
  case (Cons h hs)
  show ?case
  proof (cases h)
    case None
    with Cons show ?thesis by (simp add: DestroyThread_def)
  next
    case (Some a)
    with Cons.prems obtain i where "tf_heap f a = Some i" by (auto simp: factory_ok_def)
    note d = DestroyThread_live [OF this]
    let ?f = "f\<lparr>tf_registry := remove1 a (tf_registry f), tf_heap := (tf_heap f)(a := None)\<rparr>"
    have "set (remove1 a (tf_registry f)) = set (tf_registry f) - {a}" using Cons.prems(1) by (simp add: factory_ok_def)
    moreover have "set (concat (map opt_list hs)) \<subseteq> set (tf_registry f) - {a}" "distinct (concat (map opt_list hs))"
      using Cons.prems(2,3) Some by auto
    ultimately obtain f' where "destroy_all hs ?f = Some f'" "set (tf_registry f') = set (tf_registry f) - {a} - set (concat (map opt_list hs))"
      using Cons.IH [OF DestroyThread_ok [OF Cons.prems(1) d]] by auto
    then show ?thesis using Some d by auto
  qed
qed simp

lemma stop_threads_all:
  assumes "factory_ok f" "tf_registry f = concat (map opt_list (all_handles h))"
  shows "\<exists>f'. stop_threads h f = Some f' \<and> tf_registry f' = []"
proof -
  let ?hs = "[hs_control h, hs_console h, hs_worker h Task, hs_worker h Data, hs_worker h Log]"
  have "distinct (concat (map opt_list (all_handles h)))" using assms by (simp add: factory_ok_def)
  then have "distinct (concat (map opt_list ?hs))" by (auto simp: all_handles_def)
  moreover have "set (concat (map opt_list ?hs)) = set (tf_registry f)" unfolding assms(2) by (auto simp: all_handles_def)
  ultimately show ?thesis using destroy_all_live [OF assms(1), of ?hs] unfolding stop_threads_def by auto
qed

lemma with_threads_assembled:
  assumes "\<forall>w. hs_worker h w = None \<longleftrightarrow> business_seat rt strict w = None"
  shows "assembled (with_threads (True, h, f) e) \<longleftrightarrow> rt \<or> \<not> strict" "be_comm (with_threads (True, h, f) e) = be_comm e"
proof -
  have "business_seat rt strict w = None \<longleftrightarrow> \<not> (rt \<or> \<not> strict)" for w by (simp add: business_seat_def)
  then have "hs_worker h w = None \<longleftrightarrow> \<not> (rt \<or> \<not> strict)" for w using assms by simp
  then have "hs_worker h w \<noteq> None \<longleftrightarrow> rt \<or> \<not> strict" for w by (simp del: not_None_eq)
  then show "assembled (with_threads (True, h, f) e) \<longleftrightarrow> rt \<or> \<not> strict" by (simp add: assembled_def with_threads_def del: not_None_eq)
qed (simp add: with_threads_def)

lemma business_grades:
  "business True strict = [(''task'', 3, 33, SCHED_RR), (''data'', 3, 34, SCHED_RR), (''log'', 3, 32, SCHED_RR)]"
  "business False False = [(''task'', 3, 0, SCHED_OTHER), (''data'', 3, 0, SCHED_OTHER), (''log'', 3, 0, SCHED_OTHER)]"
  by (simp_all add: business_def business_seat_def TASK_PRIO_def DATA_PRIO_def LOG_PRIO_def)

text \<open>C29: Real-time scheduling or a refusal. On a machine that grants real-time scheduling the three business
  threads run round-robin at the priorities 33, 34 and 32 of their segment. On one that does not, the
  process runs them as ordinary threads of priority 0, unless \<open>DTS_STRICT_SCHED\<close> is set: then \<open>Run\<close> returns 3
  and nothing is left. The console and the control thread are ordinary threads in either case.
  \<open>get_threads\<close> lists these threads in this order, and the calls that \<open>Stop\<close> makes destroy each of them
  once, whatever had come up, leaving none.\<close>

theorem Real_time_or_refusal:
  assumes "fresh_process p" "good (be_comm e path)" "grants rt os" "s = start_threads os strict listening new_factory_t"
  shows "(strict \<and> \<not> rt \<longrightarrow> (\<exists>q. Run_up (with_threads s e) (Some path) p = Inl (3, q) \<and> down q)) \<and>
    (rt \<or> \<not> strict \<longrightarrow> (\<exists>q. Run_up (with_threads s e) (Some path) p = Inr q \<and> (\<forall>w. ps_running q w)) \<and>
       map grade (QueryThreads 64 (snd (snd s))) =
         (if rt then [(''task'', 3, 33, SCHED_RR), (''data'', 3, 34, SCHED_RR), (''log'', 3, 32, SCHED_RR)]
          else [(''task'', 3, 0, SCHED_OTHER), (''data'', 3, 0, SCHED_OTHER), (''log'', 3, 0, SCHED_OTHER)]) @
         (if listening then [(''console'', 4, 20, SCHED_OTHER)] else []) @ [(''control'', 4, 20, SCHED_OTHER)]) \<and>
    (\<exists>f'. stop_threads (fst (snd s)) (snd (snd s)) = Some f' \<and> QueryThreads 64 f' = [])"
proof -
  from start_threads_seated [OF assms(3), of strict listening] obtain h f
    where s: "s = (True, h, f)" and ok: "factory_ok f" and reg: "tf_registry f = concat (map opt_list (all_handles h))"
      and live: "live f = business rt strict @ (if listening then [(''console'', 4, 20, SCHED_OTHER)] else []) @ [(''control'', 4, 20, SCHED_OTHER)]"
      and w: "\<forall>w. hs_worker h w = None \<longleftrightarrow> business_seat rt strict w = None" unfolding assms(4) by blast
  let ?e = "with_threads s e"
  let ?q = "snd (Start ?e (MakeConsoleSockPath (c_str path)) (prepared ?e path p))"
  have a: "assembled ?e \<longleftrightarrow> rt \<or> \<not> strict" and g: "good (be_comm ?e path)"
    unfolding s with_threads_assembled [OF w] using assms(2) by simp_all
  have down: "down ((Stop_process ?q)\<lparr>ps_log := Shutdown_log (ps_log (Stop_process ?q))\<rparr>)"
    by (rule Stop_down) (simp add: Start_facts)
  have up: "\<forall>w. ps_running ?q w" if "assembled ?e"
  proof
    fix w
    have "be_thread ?e (worker_name w)" using that by (cases w) (simp_all add: assembled_def)
    then show "ps_running ?q w" by (simp add: Start_facts)
  qed
  have one: "length (opt_list x) \<le> 1" for x :: "nat option" by (cases x) simp_all
  have "length (tf_registry f) \<le> 64"
    using one [of "hs_worker h Task"] one [of "hs_worker h Data"] one [of "hs_worker h Log"] one [of "hs_console h"] one [of "hs_control h"]
    unfolding reg all_handles_def by simp
  then have "map grade (QueryThreads 64 f) = live f" by (rule live_query)
  moreover have "\<exists>f'. stop_threads h f = Some f' \<and> QueryThreads 64 f' = []"
    using stop_threads_all [OF ok reg] by (auto simp: QueryThreads_def)
  moreover have "Run_up ?e (Some path) p = (if rt \<or> \<not> strict then Inr ?q else
      Inl (3, (Stop_process ?q)\<lparr>ps_log := Shutdown_log (ps_log (Stop_process ?q))\<rparr>))"
    using Run_up_good [OF g, of p] a by (simp add: Let_def)
  ultimately show ?thesis using down up a live business_grades by (auto simp: s)
qed

theorem Real_time_or_refusal_witness:
  "(\<exists>q. Run_up (with_threads (start_threads plain_os False True new_factory_t) demo_env) (Some ''cpf-dts.json'') demo_process = Inr q \<and>
      ps_running q Data) \<and>
   (\<exists>q. Run_up (with_threads (start_threads plain_os True True new_factory_t) demo_env) (Some ''cpf-dts.json'') demo_process = Inl (3, q) \<and>
      down q) \<and>
   map grade (QueryThreads 64 (snd (snd (start_threads root_os True True new_factory_t)))) =
     [(''task'', 3, 33, SCHED_RR), (''data'', 3, 34, SCHED_RR), (''log'', 3, 32, SCHED_RR), (''console'', 4, 20, SCHED_OTHER),
      (''control'', 4, 20, SCHED_OTHER)]"
proof -
  have f: "fresh_process demo_process" by (simp add: fresh_process_def demo_process_def new_sock_def)
  have g: "good (be_comm demo_env ''cpf-dts.json'')" by (simp add: demo_env_def good_def)
  have os: "grants False plain_os" "grants True root_os" by (simp_all add: grants_def plain_os_def root_os_def)
  note R = Real_time_or_refusal [OF f g]
  show ?thesis
    using R [OF os(1) refl, of False True] R [OF os(1) refl, of True True] R [OF os(2) refl, of True True] by auto
qed

end
