(* ===== verification/Bucket_Transport.thy ===== *)
theory Bucket_Transport
  imports Bucket_Queue
begin

text \<open>
  The transport that FastDDS uses in place of its shared memory
  (\<open>thirdparty/bucket/src/BucketTransport.cpp\<close>): locators, the input channels with their receiving
  threads, the cache of opened buckets on the writing side, and \<open>send\<close>. A host is the shared memory
  of all processes: names, and the segments behind them. A removed name leaves its segment to the
  processes that have it open, so a segment has an identity of its own. The FastDDS types are taken as
  far as the code reads them: a locator is its kind, its port and its address, compared field by field;
  buffers are byte lists; the iterator over the destinations is a list; a receiver is a number, and
  what it is given is recorded.
\<close>

section \<open>Locators\<close>

record locator =
  lo_kind :: int
  lo_port :: u32
  lo_address :: bytes

definition kBucketLocatorKind :: int where "kBucketLocatorKind = 32"

definition bucket_name :: "u32 \<Rightarrow> string" where
  "bucket_name port = ''/bucket_'' @ dec_string (unat port)"

definition make_locator :: "u32 \<Rightarrow> u8 \<Rightarrow> locator" where
  "make_locator port ty = \<lparr>lo_kind = kBucketLocatorKind, lo_port = port, lo_address = ty # replicate 15 0\<rparr>"

definition IsLocatorSupported :: "locator \<Rightarrow> bool" where
  "IsLocatorSupported l \<longleftrightarrow> lo_kind l = kBucketLocatorKind"

definition is_locator_allowed :: "locator \<Rightarrow> bool" where
  "is_locator_allowed l = IsLocatorSupported l"

text \<open>The library's empty locator and its setter of the invalid address are arguments.\<close>

definition RemoteToMainLocal :: "locator \<Rightarrow> (locator \<Rightarrow> locator) \<Rightarrow> locator \<Rightarrow> locator" where
  "RemoteToMainLocal none set_Invalid_Address remote =
     (if \<not> IsLocatorSupported remote then none else set_Invalid_Address remote)"

definition transform_remote_locator :: "locator \<Rightarrow> locator \<Rightarrow> bool \<times> locator" where
  "transform_remote_locator remote result = (if IsLocatorSupported remote then (True, remote) else (False, result))"

definition NormalizeLocator :: "locator \<Rightarrow> locator list" where "NormalizeLocator l = [l]"

definition DoInputLocatorsMatch :: "locator \<Rightarrow> locator \<Rightarrow> bool" where
  "DoInputLocatorsMatch l r \<longleftrightarrow> lo_kind l = lo_kind r \<and> lo_port l = lo_port r"

definition fill_port :: "locator \<Rightarrow> u32 \<Rightarrow> locator" where
  "fill_port l p = (if lo_port l = 0 then l\<lparr>lo_port := p\<rparr> else l)"

definition getDefaultMetatrafficMulticastLocators :: "locator list \<Rightarrow> u32 \<Rightarrow> locator list" where
  "getDefaultMetatrafficMulticastLocators ls p = ls @ [make_locator p 77]"

definition getDefaultMetatrafficUnicastLocators :: "locator list \<Rightarrow> u32 \<Rightarrow> locator list" where
  "getDefaultMetatrafficUnicastLocators ls p = ls @ [make_locator p 85]"

definition getDefaultUnicastLocators :: "locator list \<Rightarrow> u32 \<Rightarrow> locator list" where
  "getDefaultUnicastLocators ls p = ls @ [fill_port (make_locator p 85) p]"

section \<open>Host, transport, channels\<close>

record host =
  ho_names :: "string \<Rightarrow> nat option"
  ho_objs :: "nat \<Rightarrow> segment option"
  ho_next :: nat

definition empty_host :: host where
  "empty_host = \<lparr>ho_names = Map.empty, ho_objs = Map.empty, ho_next = 0\<rparr>"

text \<open>The table of names as the operations of a segment see it.\<close>

definition names_view :: "host \<Rightarrow> shm" where
  "names_view h n = (case ho_names h n of None \<Rightarrow> None | Some i \<Rightarrow> ho_objs h i)"

text \<open>What a process meets: whether the calls on shared memory succeed, which processes live, its own id,
  and the mutex and the loads of a write to a port.\<close>

record proc_env =
  pv_create :: bool
  pv_open :: bool
  pv_alive :: "u32 \<Rightarrow> bool"
  pv_me :: u32
  pv_lock :: "u32 \<Rightarrow> lock_result"
  pv_seen :: "u32 \<Rightarrow> u64 list"

record channel =
  ch_locator :: locator
  ch_max :: u32
  ch_receiver :: nat
  ch_seg :: nat
  ch_cursor :: u64
  ch_running :: bool

record transport =
  bt_segment_size :: u32
  bt_maxMessageSize :: u32
  bt_max_initial_peers_range :: u32
  bt_inputs :: "channel list"
  bt_buckets :: "u32 \<Rightarrow> nat option"

definition default_segment_size :: u32 where "default_segment_size = 64 * 1024 * 1024"
definition default_max_message_size :: u32 where "default_max_message_size = 8 * 1024 * 1024"

definition new_transport :: "u32 \<Rightarrow> u32 \<Rightarrow> u32 \<Rightarrow> transport" where
  "new_transport seg mx peers = \<lparr>bt_segment_size = seg, bt_maxMessageSize = mx, bt_max_initial_peers_range = peers,
     bt_inputs = [], bt_buckets = Map.empty\<rparr>"

definition init_transport :: "transport \<Rightarrow> bool" where
  "init_transport t = (\<not> bt_segment_size t < bt_maxMessageSize t)"

definition configureInitialPeerLocator :: "(u32 \<Rightarrow> u32) \<Rightarrow> transport \<Rightarrow> locator \<Rightarrow> locator list \<Rightarrow> locator list" where
  "configureInitialPeerLocator getUnicastPort t l ls =
     (if lo_port l = 0 then ls @ map (\<lambda>i. l\<lparr>lo_port := getUnicastPort (of_nat i)\<rparr>) [0..<unat (bt_max_initial_peers_range t)]
      else ls @ [l])"

text \<open>The constructor of a channel: create the segment, or open it and claim it; \<open>None\<close> is the exception.\<close>

definition create_channel :: "proc_env \<Rightarrow> u32 \<Rightarrow> locator \<Rightarrow> u32 \<Rightarrow> nat \<Rightarrow> host \<Rightarrow> channel option \<times> host" where
  "create_channel e segment_size l mx rcv h =
    (let nm = bucket_name (lo_port l); ch = (\<lambda>i cur. \<lparr>ch_locator = l, ch_max = mx, ch_receiver = rcv, ch_seg = i, ch_cursor = cur, ch_running = True\<rparr>) in
     case fst (Create (pv_create e) (Some nm) (ucast segment_size) (names_view h)) of
       Some s \<Rightarrow> (Some (ch (ho_next h) (read_pos s)),
         h\<lparr>ho_names := (ho_names h)(nm \<mapsto> ho_next h), ho_objs := (ho_objs h)(ho_next h \<mapsto> s), ho_next := Suc (ho_next h)\<rparr>)
     | None \<Rightarrow>
         (case Open (pv_open e) nm (names_view h) of
            None \<Rightarrow> (None, h)
          | Some s \<Rightarrow>
              (let i = the (ho_names h nm);
                   (ok, s', cur) = ClaimOwnership (pv_alive e) (pv_lock e (lo_port l)) (pv_me e) (read_pos s) s;
                   h' = h\<lparr>ho_objs := (ho_objs h)(i \<mapsto> s')\<rparr>
               in (if ok then Some (ch i cur) else None, h'))))"

text \<open>One pass of the receiving thread; a read that waits and then finds data is a later pass. A delivery is
  the receiver, the bytes, and the two locators.\<close>

type_synonym delivery = "nat \<times> bytes \<times> locator \<times> locator"

definition run_pass :: "channel \<Rightarrow> host \<Rightarrow> delivery list \<times> channel \<times> host" where
  "run_pass c h =
    (if \<not> ch_running c then ([], c, h)
     else case ho_objs h (ch_seg c) of
       None \<Rightarrow> ([], c, h)
     | Some s \<Rightarrow> (case Read (ch_cursor c) (ch_max c) [s] of
         None \<Rightarrow> ([], c, h)
       | Some (data, len, cur, s') \<Rightarrow>
           (if ch_max c < len then [] else [(ch_receiver c, data, ch_locator c, ch_locator c)],
            c\<lparr>ch_cursor := cur\<rparr>, h\<lparr>ho_objs := (ho_objs h)(ch_seg c \<mapsto> s')\<rparr>)))"

text \<open>\<open>stop\<close>: the thread ends and the name goes; the segment stays with whoever has it open.\<close>

definition stop_channel :: "channel \<Rightarrow> host \<Rightarrow> host" where
  "stop_channel c h = h\<lparr>ho_names := (ho_names h)(bucket_name (lo_port (ch_locator c)) := None)\<rparr>"

definition IsInputChannelOpen :: "locator \<Rightarrow> transport \<Rightarrow> bool" where
  "IsInputChannelOpen l t \<longleftrightarrow> (\<exists>c \<in> set (bt_inputs t). ch_locator c = l)"

definition OpenInputChannel :: "proc_env \<Rightarrow> locator \<Rightarrow> nat \<Rightarrow> u32 \<Rightarrow> transport \<Rightarrow> host \<Rightarrow> bool \<times> transport \<times> host" where
  "OpenInputChannel e l rcv max_msg_size t h =
    (if \<not> IsLocatorSupported l then (False, t, h)
     else if IsInputChannelOpen l t then (True, t, h)
     else let effective_max = (if max_msg_size < bt_maxMessageSize t then max_msg_size else bt_maxMessageSize t)
       in case create_channel e (bt_segment_size t) l effective_max rcv h of
            (None, h') \<Rightarrow> (False, t, h')
          | (Some c, h') \<Rightarrow> (True, t\<lparr>bt_inputs := bt_inputs t @ [c]\<rparr>, h'))"

fun close_first :: "locator \<Rightarrow> channel list \<Rightarrow> host \<Rightarrow> bool \<times> channel list \<times> host" where
  "close_first l [] h = (False, [], h)"
| "close_first l (c # cs) h = (if ch_locator c = l then (True, cs, stop_channel c h)
     else let (ok, cs', h') = close_first l cs h in (ok, c # cs', h'))"

definition CloseInputChannel :: "locator \<Rightarrow> transport \<Rightarrow> host \<Rightarrow> bool \<times> transport \<times> host" where
  "CloseInputChannel l t h = (let (ok, cs, h') = close_first l (bt_inputs t) h in (ok, t\<lparr>bt_inputs := cs\<rparr>, h'))"

definition destroy_transport :: "transport \<Rightarrow> host \<Rightarrow> host" where
  "destroy_transport t h = fold stop_channel (bt_inputs t) h"

section \<open>Sending\<close>

definition open_bucket :: "proc_env \<Rightarrow> u32 \<Rightarrow> transport \<Rightarrow> host \<Rightarrow> nat option \<times> transport" where
  "open_bucket e port t h =
    (case bt_buckets t port of
       Some i \<Rightarrow> (Some i, t)
     | None \<Rightarrow> (case Open (pv_open e) (bucket_name port) (names_view h) of
         None \<Rightarrow> (None, t)
       | Some s \<Rightarrow> (let i = the (ho_names h (bucket_name port)) in (Some i, t\<lparr>bt_buckets := (bt_buckets t)(port \<mapsto> i)\<rparr>))))"

definition is_locator_reachable :: "proc_env \<Rightarrow> locator \<Rightarrow> transport \<Rightarrow> host \<Rightarrow> bool \<times> transport" where
  "is_locator_reachable e l t h = (if \<not> IsLocatorSupported l then (False, t)
     else let (b, t') = open_bucket e (lo_port l) t h in (b \<noteq> None, t'))"

text \<open>The buffers one behind the other in a payload of \<open>total_bytes\<close> bytes; \<open>None\<close> is a copy past its end.\<close>

definition gather :: "bytes list \<Rightarrow> u32 \<Rightarrow> bytes option" where
  "gather buffers total_bytes = (let d = concat buffers in
     if unat total_bytes < length d then None else Some (d @ replicate (unat total_bytes - length d) 0))"

definition send_one :: "proc_env \<Rightarrow> bytes \<Rightarrow> locator \<Rightarrow> bool \<times> transport \<times> host \<Rightarrow> bool \<times> transport \<times> host" where
  "send_one e payload l s = (case s of (ret, t, h) \<Rightarrow>
     if \<not> IsLocatorSupported l then (ret, t, h)
     else (case open_bucket e (lo_port l) t h of
       (None, t') \<Rightarrow> (False, t', h)
     | (Some i, t') \<Rightarrow> (case ho_objs h i of
           None \<Rightarrow> (False, t', h)
         | Some g \<Rightarrow> (case Write (pv_lock e (lo_port l)) (pv_seen e (lo_port l)) payload g of
             (ok, g') \<Rightarrow> (ret \<and> ok, t', h\<lparr>ho_objs := (ho_objs h)(i \<mapsto> g')\<rparr>)))))"

definition send :: "proc_env \<Rightarrow> bytes list \<Rightarrow> u32 \<Rightarrow> locator list \<Rightarrow> transport \<Rightarrow> host \<Rightarrow> (bool \<times> transport \<times> host) option" where
  "send e buffers total_bytes dests t h =
    (case gather buffers total_bytes of None \<Rightarrow> None | Some p \<Rightarrow> Some (fold (send_one e p) dests (True, t, h)))"

section \<open>Output channels and selection\<close>

text \<open>A list of sender resources, as the kinds of its members.\<close>

definition OpenOutputChannel :: "int list \<Rightarrow> locator \<Rightarrow> bool \<times> int list" where
  "OpenOutputChannel rs l = (if \<not> IsLocatorSupported l then (False, rs)
     else if kBucketLocatorKind \<in> set rs then (True, rs) else (True, rs @ [kBucketLocatorKind]))"

record selector_entry =
  en_process :: bool
  en_unicast :: "locator list"
  en_state :: "nat list"

definition OpenOutputChannels :: "int list \<Rightarrow> selector_entry \<Rightarrow> bool \<times> int list" where
  "OpenOutputChannels rs en = fold (\<lambda>i (ok, rs). case OpenOutputChannel rs (en_unicast en ! i) of (b, rs') \<Rightarrow> (ok \<or> b, rs'))
     (en_state en) (False, rs)"

text \<open>\<open>select_locators\<close>; the selector's \<open>is_selected\<close> depends on the entries that were selected before.\<close>

definition pick_unicast :: "(locator \<Rightarrow> bool) \<Rightarrow> selector_entry \<Rightarrow> nat list" where
  "pick_unicast is_selected en = filter (\<lambda>j. IsLocatorSupported (en_unicast en ! j) \<and> \<not> is_selected (en_unicast en ! j)) [0..<length (en_unicast en)]"

fun select_loop :: "(nat list \<Rightarrow> selector_entry list \<Rightarrow> locator \<Rightarrow> bool) \<Rightarrow> nat \<Rightarrow> nat list \<times> selector_entry list \<Rightarrow> nat list \<times> selector_entry list" where
  "select_loop is_selected 0 s = s"
| "select_loop is_selected (Suc k) (sel, ens) =
    (let i = length ens - Suc k; en = ens ! i;
         js = (if en_process en then pick_unicast (is_selected sel ens) en else []);
         ens' = (if en_process en then ens[i := en\<lparr>en_state := en_state en @ js\<rparr>] else ens)
     in select_loop is_selected k (if js \<noteq> [] then (sel @ [i], ens') else (sel, ens')))"

definition select_locators :: "(nat list \<Rightarrow> selector_entry list \<Rightarrow> locator \<Rightarrow> bool) \<Rightarrow> nat list \<times> selector_entry list \<Rightarrow> nat list \<times> selector_entry list" where
  "select_locators is_selected s = select_loop is_selected (length (snd s)) s"

text \<open>The segment size that \<open>DETMW_BUCKET_CAP_MB\<close> gives, in 32 bits: exactly the capacities of at least 8 MB modulo
  4096 MB pass the transport's initialisation, and no other.\<close>

lemma capacity_mb:
  "unat (mb * 1024 * 1024 :: u32) = unat mb mod 4096 * 1048576"
  "init_transport (new_transport (mb * 1024 * 1024) default_max_message_size peers) \<longleftrightarrow> 8 \<le> unat mb mod 4096"
proof -
  have "unat (mb * 1024 * 1024 :: u32) = unat mb * 1048576 mod 4294967296" by (simp add: unat_word_ariths mult.commute)
  also have "\<dots> = unat mb mod 4096 * 1048576" using mult_mod_left [of "unat mb" 4096 1048576] by simp
  finally show u: "unat (mb * 1024 * 1024 :: u32) = unat mb mod 4096 * 1048576" .
  have "unat default_max_message_size = 8388608" by (simp add: default_max_message_size_def)
  then show "init_transport (new_transport (mb * 1024 * 1024) default_max_message_size peers) \<longleftrightarrow> 8 \<le> unat mb mod 4096"
    using u by (simp add: init_transport_def new_transport_def word_less_nat_alt not_less)
qed

section \<open>A link: one writer's view, one channel\<close>

type_synonym link = "transport \<times> channel \<times> host"

definition link_seg :: "link \<Rightarrow> segment" where
  "link_seg k = (case k of (t, c, h) \<Rightarrow> the (ho_objs h (ch_seg c)))"

definition delivery_of :: "channel \<Rightarrow> bytes \<Rightarrow> delivery" where
  "delivery_of c m = (ch_receiver c, m, ch_locator c, ch_locator c)"

text \<open>The writer has the channel's segment in its cache, or will find it under the name.\<close>

definition linked :: "proc_env \<Rightarrow> link \<Rightarrow> bool" where
  "linked e k \<longleftrightarrow> (case k of (t, c, h) \<Rightarrow>
     let p = lo_port (ch_locator c) in
     pv_open e \<and> pv_lock e p \<noteq> LockFailed \<and> IsLocatorSupported (ch_locator c) \<and> ch_running c \<and>
     (bt_buckets t p = Some (ch_seg c) \<or> bt_buckets t p = None \<and> ho_names h (bucket_name p) = Some (ch_seg c)) \<and>
     ho_objs h (ch_seg c) \<noteq> None \<and> seg_inv_max (ch_max c) (link_seg k) \<and> ch_cursor c = read_pos (link_seg k))"

definition link_content :: "link \<Rightarrow> delivery list" where
  "link_content k = map (delivery_of (fst (snd k))) (contents (link_seg k))"

definition link_room :: "delivery \<Rightarrow> link \<Rightarrow> bool" where
  "link_room d k \<longleftrightarrow> d = delivery_of (fst (snd k)) (fst (snd d)) \<and> room_max (ch_max (fst (snd k))) (fst (snd d)) (link_seg k)"

definition link_put :: "proc_env \<Rightarrow> delivery \<Rightarrow> link \<Rightarrow> link option" where
  "link_put e d k = (case k of (t, c, h) \<Rightarrow>
     (case send e [fst (snd d)] (of_nat (length (fst (snd d)))) [ch_locator c] t h of
        None \<Rightarrow> None | Some (ok, t', h') \<Rightarrow> if ok then Some (t', c, h') else None))"

definition link_get :: "link \<Rightarrow> (delivery \<times> link) option" where
  "link_get k = (case k of (t, c, h) \<Rightarrow> (case run_pass c h of (ds, c', h') \<Rightarrow> if ds = [] then None else Some (hd ds, (t, c', h'))))"

lemma gather_whole:
  assumes "length (concat bs) < 2 ^ 32"
  shows "gather bs (of_nat (length (concat bs))) = Some (concat bs)"
  using unat_of_nat_len [OF assms] by (simp add: gather_def)

lemma link_open:
  assumes "linked e (t, c, h)"
  shows "\<exists>t'. open_bucket e (lo_port (ch_locator c)) t h = (Some (ch_seg c), t') \<and> bt_buckets t' (lo_port (ch_locator c)) = Some (ch_seg c)"
proof (cases "bt_buckets t (lo_port (ch_locator c))")
  case None
  then have n: "ho_names h (bucket_name (lo_port (ch_locator c))) = Some (ch_seg c)" "pv_open e"
    "ho_objs h (ch_seg c) \<noteq> None" "seg_inv_max (ch_max c) (link_seg (t, c, h))"
    using assms by (auto simp: linked_def Let_def)
  then obtain s where s: "ho_objs h (ch_seg c) = Some s" "seg_inv s" by (auto simp: seg_inv_max_def link_seg_def)
  then have "capacity s \<noteq> 0" "magic s = kMagic" "length (ring s) = unat (capacity s)" by (auto simp: seg_inv_def)
  then have "Open (pv_open e) (bucket_name (lo_port (ch_locator c))) (names_view h) = Some s"
    using n s by (simp add: Open_def names_view_def)
  with None n(1) show ?thesis by (simp add: open_bucket_def Let_def)
next
  case (Some i)
  with assms show ?thesis by (auto simp: linked_def open_bucket_def Let_def)
qed

text \<open>One message sent on a link with room for it.\<close>

lemma send_link:
  assumes "linked e (t, c, h)" "room_max (ch_max c) (concat bs) (link_seg (t, c, h))"
  shows "\<exists>t'. send e bs (of_nat (length (concat bs))) [ch_locator c] t h =
      Some (True, t', h\<lparr>ho_objs := (ho_objs h)(ch_seg c \<mapsto> publish (concat bs) (link_seg (t, c, h)))\<rparr>) \<and>
    linked e (t', c, h\<lparr>ho_objs := (ho_objs h)(ch_seg c \<mapsto> publish (concat bs) (link_seg (t, c, h)))\<rparr>)"
proof -
  let ?p = "lo_port (ch_locator c)" and ?g = "link_seg (t, c, h)"
  have o: "ho_objs h (ch_seg c) = Some ?g" "IsLocatorSupported (ch_locator c)" "pv_lock e ?p \<noteq> LockFailed" "seg_inv_max (ch_max c) ?g"
    using assms(1) by (auto simp: linked_def link_seg_def Let_def)
  obtain t' where t': "open_bucket e ?p t h = (Some (ch_seg c), t')" "bt_buckets t' ?p = Some (ch_seg c)"
    using link_open [OF assms(1)] by blast
  have r: "seg_inv ?g" "room (concat bs) ?g" "length (concat bs) < 2 ^ 32"
    using o(4) assms(2) by (auto simp: seg_inv_max_def room_max_def room_def)
  have "send e bs (of_nat (length (concat bs))) [ch_locator c] t h =
      Some (True, t', h\<lparr>ho_objs := (ho_objs h)(ch_seg c \<mapsto> publish (concat bs) ?g)\<rparr>)"
    unfolding send_def gather_whole [OF r(3)] by (simp add: send_one_def o t' room_Write [OF r(1,2) o(3)])
  moreover have "seg_inv_max (ch_max c) (publish (concat bs) ?g)"
    using publish_inv [OF r(1,2)] o(4) assms(2) by (auto simp: seg_inv_max_def room_max_def)
  ultimately show ?thesis using assms(1) t'(2)
    by (intro exI [of _ t'] conjI) (simp_all add: linked_def link_seg_def Let_def)
qed

lemma run_pass_link:
  assumes "linked e (t, c, h)"
  shows "link_content (t, c, h) = [] \<Longrightarrow> run_pass c h = ([], c, h)"
    "link_content (t, c, h) = d # ds \<Longrightarrow> \<exists>c' h'. run_pass c h = ([d], c', h') \<and> linked e (t, c', h') \<and> link_content (t, c', h') = ds"
proof -
  let ?g = "link_seg (t, c, h)"
  have o: "ho_objs h (ch_seg c) = Some ?g" "ch_running c" "seg_inv_max (ch_max c) ?g" "ch_cursor c = read_pos ?g"
    using assms by (auto simp: linked_def link_seg_def Let_def)
  have inv: "seg_inv ?g" "magic ?g = kMagic" using o(3) by (simp_all add: seg_inv_max_def seg_inv_def)
  show "run_pass c h = ([], c, h)" if "link_content (t, c, h) = []"
    using that by (simp add: link_content_def run_pass_def o Read_def inv read_entry_empty)
  show "\<exists>c' h'. run_pass c h = ([d], c', h') \<and> linked e (t, c', h') \<and> link_content (t, c', h') = ds"
    if k: "link_content (t, c, h) = d # ds"
  proof -
    obtain m ms where m: "contents ?g = m # ms" "d = delivery_of c m" "ds = map (delivery_of c) ms"
      using k by (auto simp: link_content_def)
    obtain s' where s': "read_entry (read_pos ?g) (ch_max c) ?g = Entry (take (unat (ch_max c)) m) (of_nat (length m)) (read_pos s') s'"
      "seg_inv s'" "contents s' = ms" "length m < 2 ^ 32" using read_entry_first [OF inv(1) m(1)] by blast
    have le: "length m \<le> unat (ch_max c)" "\<forall>x \<in> set ms. length x \<le> unat (ch_max c)" using o(3) m(1) by (auto simp: seg_inv_max_def)
    then have "\<not> ch_max c < of_nat (length m)" using unat_of_nat_len [OF s'(4)] by (simp add: word_less_nat_alt)
    then have "run_pass c h = ([d], c\<lparr>ch_cursor := read_pos s'\<rparr>, h\<lparr>ho_objs := (ho_objs h)(ch_seg c \<mapsto> s')\<rparr>)"
      using le by (simp add: run_pass_def o inv Read_def s'(1) m(2) delivery_of_def)
    moreover have "linked e (t, c\<lparr>ch_cursor := read_pos s'\<rparr>, h\<lparr>ho_objs := (ho_objs h)(ch_seg c \<mapsto> s')\<rparr>)"
      using assms s'(2,3) le by (simp add: linked_def link_seg_def seg_inv_max_def Let_def)
    moreover have "link_content (t, c\<lparr>ch_cursor := read_pos s'\<rparr>, h\<lparr>ho_objs := (ho_objs h)(ch_seg c \<mapsto> s')\<rparr>) = ds"
      using m(3) s'(3) by (simp add: link_content_def link_seg_def delivery_of_def)
    ultimately show ?thesis by blast
  qed
qed

text \<open>A link is an ordered channel of deliveries.\<close>

interpretation bucket_link: fifo "linked e" link_content link_room "link_put e" link_get for e
proof
  fix k d assume a: "linked e k" "link_room d k"
  obtain t c h where k: "k = (t, c, h)" by (cases k)
  let ?m = "fst (snd d)"
  have r: "room_max (ch_max c) (concat [?m]) (link_seg (t, c, h))" and d: "d = delivery_of c ?m"
    using a(2) by (simp_all add: link_room_def k)
  obtain t' where t': "send e [?m] (of_nat (length (concat [?m]))) [ch_locator c] t h =
      Some (True, t', h\<lparr>ho_objs := (ho_objs h)(ch_seg c \<mapsto> publish (concat [?m]) (link_seg (t, c, h)))\<rparr>)"
    "linked e (t', c, h\<lparr>ho_objs := (ho_objs h)(ch_seg c \<mapsto> publish (concat [?m]) (link_seg (t, c, h)))\<rparr>)"
    using send_link [OF a(1) [unfolded k] r] by blast
  have "seg_inv (link_seg (t, c, h))" "room ?m (link_seg (t, c, h))"
    using a(1) r by (auto simp: k linked_def seg_inv_max_def room_max_def Let_def)
  from publish_inv [OF this] d t' show "\<exists>k'. link_put e d k = Some k' \<and> linked e k' \<and> link_content k' = link_content k @ [d]"
    by (simp add: link_put_def k link_content_def link_seg_def)
next
  fix k assume "linked e k" "link_content k = []"
  then show "link_get k = None" by (cases k) (simp add: link_get_def run_pass_link(1))
next
  fix k d ds assume a: "linked e k" "link_content k = d # ds"
  obtain t c h where k: "k = (t, c, h)" by (cases k)
  from run_pass_link(2) [OF a [unfolded k]] show "\<exists>k'. link_get k = Some (d, k') \<and> linked e k' \<and> link_content k' = ds"
    by (auto simp: link_get_def k)
qed

text \<open>Messages sent one after the other, each as its buffers.\<close>

fun sends :: "proc_env \<Rightarrow> locator \<Rightarrow> bytes list list \<Rightarrow> transport \<times> host \<Rightarrow> (transport \<times> host) option" where
  "sends e l [] s = Some s"
| "sends e l (bs # bss) (t, h) = (case send e bs (of_nat (length (concat bs))) [l] t h of
     None \<Rightarrow> None | Some (ok, t', h') \<Rightarrow> if ok then sends e l bss (t', h') else None)"

lemma sends_link:
  assumes "linked e (t, c, h)" "\<forall>bs \<in> set bss. length (concat bs) \<le> unat (ch_max c)"
    and "used (link_seg (t, c, h)) + (\<Sum>bs\<leftarrow>bss. esz (length (concat bs))) \<le> unat (capacity (link_seg (t, c, h)))"
    and "unat (write_pos (link_seg (t, c, h))) + (\<Sum>bs\<leftarrow>bss. esz (length (concat bs))) < 2 ^ 64"
  shows "\<exists>t' h'. sends e (ch_locator c) bss (t, h) = Some (t', h') \<and> linked e (t', c, h') \<and>
    link_content (t', c, h') = link_content (t, c, h) @ map (\<lambda>bs. delivery_of c (concat bs)) bss"
  using assms
proof (induction bss arbitrary: t h)
  case (Cons bs bss)
  let ?g = "link_seg (t, c, h)"
  have inv: "seg_inv ?g" using Cons.prems(1) by (auto simp: linked_def seg_inv_max_def Let_def)
  have r: "room_max (ch_max c) (concat bs) ?g"
    using Cons.prems unat_lt_u32 [of "ch_max c"] by (auto simp: room_max_def room_def)
  then have rm: "room (concat bs) ?g" by (simp add: room_max_def)
  obtain t' where t': "send e bs (of_nat (length (concat bs))) [ch_locator c] t h =
      Some (True, t', h\<lparr>ho_objs := (ho_objs h)(ch_seg c \<mapsto> publish (concat bs) ?g)\<rparr>)"
    "linked e (t', c, h\<lparr>ho_objs := (ho_objs h)(ch_seg c \<mapsto> publish (concat bs) ?g)\<rparr>)"
    using send_link [OF Cons.prems(1) r] by blast
  let ?h = "h\<lparr>ho_objs := (ho_objs h)(ch_seg c \<mapsto> publish (concat bs) ?g)\<rparr>"
  have g: "link_seg (t', c, ?h) = publish (concat bs) ?g" by (simp add: link_seg_def)
  have lc: "link_content (t', c, ?h) = link_content (t, c, h) @ [delivery_of c (concat bs)]"
    using publish_inv [OF inv rm] by (simp add: link_content_def g)
  obtain t2 h2 where "sends e (ch_locator c) bss (t', ?h) = Some (t2, h2)" "linked e (t2, c, h2)"
    "link_content (t2, c, h2) = link_content (t', c, ?h) @ map (\<lambda>bs. delivery_of c (concat bs)) bss"
    using Cons.IH [OF t'(2)] Cons.prems(2-4) used_publish [OF inv rm] unfolding g by auto
  with t'(1) lc show ?case by auto
qed simp

section \<open>Opening a channel\<close>

definition host_ok :: "host \<Rightarrow> bool" where
  "host_ok h \<longleftrightarrow> (\<forall>n i. ho_names h n = Some i \<longrightarrow> i < ho_next h \<and> ho_objs h i \<noteq> None)"

text \<open>A configuration that \<open>Create\<close> accepts.\<close>

definition size_ok :: "u32 \<Rightarrow> bool" where
  "size_ok sz \<longleftrightarrow> 1024 \<le> unat sz \<and> 8 dvd unat sz"

lemma Create_bucket:
  assumes "names_view h (bucket_name p) = None" "size_ok sz" "pv_create e"
  shows "fst (Create (pv_create e) (Some (bucket_name p)) (ucast sz) (names_view h)) = Some (fresh_segment (ucast sz))"
proof -
  have "unat (ucast sz mod kEntryAlign :: u64) = unat sz mod 8" by (simp add: unat_mod kEntryAlign_def)
  then have "(ucast sz :: u64) mod kEntryAlign = 0" using assms(2) by (simp add: size_ok_def unat_eq_zero)
  moreover have "\<not> (ucast sz :: u64) < 1024" using assms(2) by (simp add: size_ok_def word_less_nat_alt)
  moreover have "take 1 (bucket_name p) = ''/''" by (simp add: bucket_name_def)
  ultimately show ?thesis using assms(1,3) by (simp add: Create_def)
qed

definition effective_max :: "u32 \<Rightarrow> transport \<Rightarrow> u32" where
  "effective_max mx t = (if mx < bt_maxMessageSize t then mx else bt_maxMessageSize t)"

lemma open_fresh:
  assumes "ho_names h (bucket_name (lo_port l)) = None" "size_ok (bt_segment_size rt)" "pv_create er"
    and "IsLocatorSupported l" "\<not> IsInputChannelOpen l rt"
  shows "OpenInputChannel er l rcv mx rt h =
    (True, rt\<lparr>bt_inputs := bt_inputs rt @ [\<lparr>ch_locator = l, ch_max = effective_max mx rt, ch_receiver = rcv, ch_seg = ho_next h, ch_cursor = 0, ch_running = True\<rparr>]\<rparr>,
     h\<lparr>ho_names := (ho_names h)(bucket_name (lo_port l) \<mapsto> ho_next h),
       ho_objs := (ho_objs h)(ho_next h \<mapsto> fresh_segment (ucast (bt_segment_size rt))), ho_next := Suc (ho_next h)\<rparr>)"
proof -
  have "names_view h (bucket_name (lo_port l)) = None" using assms(1) by (simp add: names_view_def)
  from Create_bucket [OF this assms(2,3)] assms(4,5) show ?thesis
    by (simp add: OpenInputChannel_def create_channel_def effective_max_def fresh_segment_def Let_def)
qed

lemma fresh_link:
  assumes "size_ok sz" "IsLocatorSupported l" "pv_open e" "pv_lock e (lo_port l) \<noteq> LockFailed" "bt_buckets t (lo_port l) = None"
    and "ho_names h (bucket_name (lo_port l)) = Some i" "ho_objs h i = Some (fresh_segment (ucast sz))"
    and "c = \<lparr>ch_locator = l, ch_max = m, ch_receiver = rcv, ch_seg = i, ch_cursor = 0, ch_running = True\<rparr>"
  shows "linked e (t, c, h)" "link_content (t, c, h) = []" "used (link_seg (t, c, h)) = 0" "unat (write_pos (link_seg (t, c, h))) = 0"
    "unat (capacity (link_seg (t, c, h))) = unat sz"
proof -
  have g: "link_seg (t, c, h) = fresh_segment (ucast sz)" using assms(7,8) by (simp add: link_seg_def)
  have f: "seg_inv (fresh_segment (ucast sz))" "contents (fresh_segment (ucast sz)) = []"
    using seg_inv_fresh [of "ucast sz"] assms(1) by (simp_all add: size_ok_def)
  have c: "ch_locator c = l" "ch_seg c = i" "ch_running c" "ch_cursor c = 0" by (simp_all add: assms(8))
  have "read_pos (fresh_segment (ucast sz)) = 0" by (simp add: fresh_segment_def)
  then show "linked e (t, c, h)" using assms(2-7) f unfolding linked_def prod.case Let_def g c by (simp add: seg_inv_max_def c)
  show "link_content (t, c, h) = []" by (simp add: link_content_def g f)
  show "used (link_seg (t, c, h)) = 0" "unat (write_pos (link_seg (t, c, h))) = 0" "unat (capacity (link_seg (t, c, h))) = unat sz"
    by (simp_all add: g fresh_segment_def used_def)
qed

text \<open>C4: The transport carries messages. Once a reader has opened its input channel on a free name, any writer
  that has not opened a bucket of that port yet can send to the locator: as long as the messages are no
  longer than the channel's maximum and their entries fit into the segment, every send succeeds, and
  the receiving thread hands exactly these messages to the receiver, each as the concatenation of its
  buffers, in the order in which they were sent.\<close>

theorem Bucket_carries_messages:
  assumes "ho_names h (bucket_name (lo_port l)) = None" "size_ok (bt_segment_size rt)" "pv_create er"
    and "IsLocatorSupported l" "\<not> IsInputChannelOpen l rt"
    and "pv_open e" "pv_lock e (lo_port l) \<noteq> LockFailed" "bt_buckets t (lo_port l) = None"
    and "\<forall>bs \<in> set bss. length (concat bs) \<le> unat (effective_max mx rt)"
    and "(\<Sum>bs\<leftarrow>bss. esz (length (concat bs))) \<le> unat (bt_segment_size rt)"
    and "OpenInputChannel er l rcv mx rt h = (ok, rt', h')" "c = last (bt_inputs rt')"
  shows "ok \<and> (\<exists>t' h2. sends e l bss (t, h') = Some (t', h2) \<and>
    fst (get_upto link_get (length bss) (t', c, h2)) = map (\<lambda>bs. (rcv, concat bs, l, l)) bss)"
proof -
  note o = open_fresh [OF assms(1-5), of rcv mx, unfolded assms(11), simplified prod.inject]
  have h': "ho_names h' (bucket_name (lo_port l)) = Some (ho_next h)" "ho_objs h' (ho_next h) = Some (fresh_segment (ucast (bt_segment_size rt)))"
    and c: "c = \<lparr>ch_locator = l, ch_max = effective_max mx rt, ch_receiver = rcv, ch_seg = ho_next h, ch_cursor = 0, ch_running = True\<rparr>"
    using o assms(12) by simp_all
  note f = fresh_link [OF assms(2,4,6,7,8) h' c]
  have l: "ch_locator c = l" "ch_max c = effective_max mx rt" "ch_receiver c = rcv" by (simp_all add: c)
  have "(\<Sum>bs\<leftarrow>bss. esz (length (concat bs))) < 2 ^ 64" using assms(10) unat_lt_u32 [of "bt_segment_size rt"] by simp
  then obtain t' h2 where s: "sends e l bss (t, h') = Some (t', h2)" "linked e (t', c, h2)"
    "link_content (t', c, h2) = map (\<lambda>bs. (rcv, concat bs, l, l)) bss"
    using sends_link [OF f(1), of bss] f(2-5) assms(9,10) unfolding l delivery_of_def by auto
  have "fst (get_upto link_get (length bss) (t', c, h2)) = map (\<lambda>bs. (rcv, concat bs, l, l)) bss"
    using bucket_link.get_upto_content [OF s(2), of "length bss"] by (simp add: s(3))
  with s(1) o show ?thesis by blast
qed

text \<open>Sends change nothing but the segments that the cache of the writer names.\<close>

lemma send_cached:
  assumes "bt_buckets t (lo_port l) = Some i" "send e bs n [l] t h = Some (ok, t', h')"
  shows "t' = t \<and> ho_names h' = ho_names h \<and> (\<forall>j. j \<noteq> i \<longrightarrow> ho_objs h' j = ho_objs h j)"
  using assms by (auto simp: send_def send_one_def open_bucket_def split: option.splits prod.splits if_splits)

lemma sends_cached:
  assumes "bt_buckets t (lo_port l) = Some i" "sends e l bss (t, h) = Some (t', h')"
  shows "t' = t \<and> (\<forall>j. j \<noteq> i \<longrightarrow> ho_objs h' j = ho_objs h j)"
  using assms(2)
proof (induction bss arbitrary: h)
  case (Cons bs bss)
  then obtain t1 h1 where s: "send e bs (of_nat (length (concat bs))) [l] t h = Some (True, t1, h1)" "sends e l bss (t1, h1) = Some (t', h')"
    by (auto split: option.splits prod.splits if_splits)
  from send_cached [OF assms(1) s(1)] s(2) Cons.IH [of h1] show ?case by auto
qed simp

lemma close_first_effect:
  "close_first l cs h = (True, cs', h') \<Longrightarrow> ho_names h' (bucket_name (lo_port l)) = None \<and> ho_objs h' = ho_objs h \<and> ho_next h' = ho_next h"
proof (induction l cs h arbitrary: cs' rule: close_first.induct)
  case (2 l c cs h)
  then show ?case by (auto simp: stop_channel_def split: if_splits prod.splits)
qed simp

lemma CloseInputChannel_effect:
  assumes "CloseInputChannel l t h = (True, t', h')"
  shows "ho_names h' (bucket_name (lo_port l)) = None" "ho_objs h' = ho_objs h" "ho_next h' = ho_next h" "bt_segment_size t' = bt_segment_size t"
  using assms close_first_effect [of l "bt_inputs t" h] by (auto simp: CloseInputChannel_def split: prod.splits)

text \<open>C7: A reader that comes back is not found. When a reader closes its input channel and opens it again, it has a
  new segment under the old name. A writer that sent to it before keeps the removed segment in its
  cache, which is never cleared: it goes on writing there, its sends report success while that segment
  has room, and the reader's thread never finds anything, whatever is sent.\<close>

theorem Returning_reader_gets_nothing:
  assumes "linked e (t, c, h)" "ch_locator c = l" "bt_buckets t (lo_port l) = Some (ch_seg c)"
    and "host_ok h" "ho_names h (bucket_name (lo_port l)) = Some (ch_seg c)"
    and "CloseInputChannel l rt h = (True, rt1, h1)" "\<not> IsInputChannelOpen l rt1" "size_ok (bt_segment_size rt)" "pv_create er"
    and "OpenInputChannel er l rcv mx rt1 h1 = (ok, rt2, h2)" "c2 = last (bt_inputs rt2)"
  shows "ok \<and> (\<forall>bss t' h'. sends e l bss (t, h2) = Some (t', h') \<longrightarrow> run_pass c2 h' = ([], c2, h')) \<and>
    (\<forall>bss. (\<forall>bs \<in> set bss. length (concat bs) \<le> unat (ch_max c)) \<and>
        used (link_seg (t, c, h)) + (\<Sum>bs\<leftarrow>bss. esz (length (concat bs))) \<le> unat (capacity (link_seg (t, c, h))) \<and>
        unat (write_pos (link_seg (t, c, h))) + (\<Sum>bs\<leftarrow>bss. esz (length (concat bs))) < 2 ^ 64 \<longrightarrow>
      sends e l bss (t, h2) \<noteq> None)"
proof -
  note cl = CloseInputChannel_effect [OF assms(6)]
  have lt: "ch_seg c < ho_next h" using assms(4,5) by (simp add: host_ok_def)
  have sup: "IsLocatorSupported l" using assms(1,2) by (auto simp: linked_def Let_def)
  have sz: "size_ok (bt_segment_size rt1)" using assms(8) cl by simp
  note o = open_fresh [OF cl(1) sz assms(9) sup assms(7), of rcv mx, unfolded assms(10), simplified prod.inject]
  have c2: "ch_seg c2 = ho_next h" "ch_cursor c2 = 0" "ch_running c2" using o cl assms(11) by simp_all
  have h2: "ho_objs h2 = (ho_objs h)(ho_next h \<mapsto> fresh_segment (ucast (bt_segment_size rt1)))" using o cl by simp
  have empty: "run_pass c2 h' = ([], c2, h')" if "sends e l bss (t, h2) = Some (t', h')" for bss t' h'
  proof -
    have "ho_objs h' (ho_next h) = Some (fresh_segment (ucast (bt_segment_size rt1)))"
      using sends_cached [OF assms(3) that] lt h2 by auto
    moreover have "Read 0 m [fresh_segment cap] = None" for m cap
      by (simp add: Read_def read_entry_def fresh_segment_def)
    ultimately show ?thesis by (simp add: run_pass_def c2)
  qed
  have g: "link_seg (t, c, h2) = link_seg (t, c, h)" using lt by (simp add: link_seg_def h2)
  have "linked e (t, c, h2)" using assms(1-3) lt unfolding linked_def prod.case Let_def g by (simp add: h2)
  from sends_link [OF this] empty o show ?thesis unfolding g assms(2) by fastforce
qed

text \<open>C14: A second reader takes the segment from a living one. \<open>Create\<close> leaves a segment without an owner, and neither
  a channel's constructor nor its traffic ever claims it. So when another process opens an input channel
  on the same port, whether or not the first reader lives, the claim succeeds and resets the ring: both
  channels now read the same segment, every message that was not read is gone, and a first reader that
  had read anything now takes 2 to the 64 minus its cursor bytes for unread.\<close>

theorem Second_reader_takes_over:
  assumes "linked e (t, c, h)" "ch_locator c = l" "ho_names h (bucket_name (lo_port l)) = Some (ch_seg c)"
    and "owner_pid (link_seg (t, c, h)) = 0"
    and "\<not> IsInputChannelOpen l rt" "pv_open e2" "pv_lock e2 (lo_port l) \<noteq> LockFailed"
    and "OpenInputChannel e2 l rcv mx rt h = (ok, rt', h')" "c2 = last (bt_inputs rt')"
  shows "ok \<and> ch_seg c2 = ch_seg c \<and> link_content (t, c2, h') = [] \<and>
    (ch_cursor c \<noteq> 0 \<longrightarrow> unat (write_pos (link_seg (t, c, h')) - ch_cursor c) = 2 ^ 64 - unat (ch_cursor c) \<and>
       read_entry (ch_cursor c) (ch_max c) (link_seg (t, c, h')) \<noteq> NoEntry)"
proof -
  let ?g = "link_seg (t, c, h)" and ?nm = "bucket_name (lo_port l)"
  have o: "ho_objs h (ch_seg c) = Some ?g" "IsLocatorSupported l" "seg_inv ?g" "ch_cursor c = read_pos ?g"
    using assms(1,2) by (auto simp: linked_def link_seg_def seg_inv_max_def Let_def)
  then have g: "capacity ?g \<noteq> 0" "magic ?g = kMagic" "length (ring ?g) = unat (capacity ?g)" "8 dvd unat (read_pos ?g)"
    by (auto simp: seg_inv_def)
  have v: "names_view h ?nm = Some ?g" by (simp add: names_view_def assms(3) o(1))
  have cr: "fst (Create (pv_create e2) (Some ?nm) cap (names_view h)) = None" for cap by (simp add: Create_def v)
  have op: "Open (pv_open e2) ?nm (names_view h) = Some ?g" using assms(6) by (simp add: Open_def v g)
  let ?g' = "?g\<lparr>write_pos := 0, read_pos := 0, owner_pid := pv_me e2\<rparr>"
  have cl: "ClaimOwnership (pv_alive e2) (pv_lock e2 (lo_port l)) (pv_me e2) (read_pos ?g) ?g = (True, ?g', 0)"
    using assms(4,7) g(2) by (simp add: ClaimOwnership_def Let_def)
  have r: "ok" "h' = h\<lparr>ho_objs := (ho_objs h)(ch_seg c \<mapsto> ?g')\<rparr>" "ch_seg c2 = ch_seg c"
    using assms(5,8,9) o(2) by (auto simp: OpenInputChannel_def create_channel_def cr op cl assms(3) Let_def)
  have s: "link_seg (t, x, h') = ?g'" if "ch_seg x = ch_seg c" for x using that by (simp add: link_seg_def r(2))
  have "link_content (t, c2, h') = []"
    by (simp add: link_content_def s [OF r(3)] contents_def entries_done)
  moreover have "unat (0 - ch_cursor c) = 2 ^ 64 - unat (ch_cursor c) \<and> read_entry (ch_cursor c) (ch_max c) ?g' \<noteq> NoEntry"
    if n: "ch_cursor c \<noteq> 0"
  proof -
    have w: "unat (0 - ch_cursor c) = 2 ^ 64 - unat (ch_cursor c)"
      using unat_sub_wrap [of 0 "ch_cursor c"] n by (simp add: unat_gt_0)
    obtain k where "unat (ch_cursor c) = 8 * k" using g(4) o(4) by (auto elim: dvdE)
    then have "unat (ch_cursor c) \<le> 2 ^ 64 - 8" using unat_lt_u64 [of "ch_cursor c"] by simp
    then have "\<not> (0 - ch_cursor c) < 4" unfolding word_less_nat_alt w by simp
    with w show ?thesis by (simp add: read_entry_def Let_def)
  qed
  ultimately show ?thesis using r(1,3) s [OF refl] by simp
qed

section \<open>Witnesses\<close>

definition demo_proc :: proc_env where
  "demo_proc = \<lparr>pv_create = True, pv_open = True, pv_alive = \<lambda>_. True, pv_me = 7, pv_lock = \<lambda>_. Locked, pv_seen = \<lambda>_. []\<rparr>"

definition demo_locator :: locator where "demo_locator = make_locator 7410 85"

definition demo_transport :: transport where "demo_transport = new_transport 1024 512 10"

lemma demo_locator_simps: "IsLocatorSupported demo_locator" "lo_port demo_locator = 7410"
  by (simp_all add: demo_locator_def make_locator_def IsLocatorSupported_def)

lemma demo_transport_simps: "bt_segment_size demo_transport = 1024" "bt_maxMessageSize demo_transport = 512" "bt_buckets demo_transport = Map.empty"
  "bt_inputs demo_transport = []" "\<not> IsInputChannelOpen l demo_transport"
  by (simp_all add: demo_transport_def new_transport_def IsInputChannelOpen_def)

lemma demo_proc_simps: "pv_create demo_proc" "pv_open demo_proc" "pv_lock demo_proc p = Locked"
  by (simp_all add: demo_proc_def)

theorem Bucket_carries_messages_witness:
  "\<exists>rt' h' t' h2. OpenInputChannel demo_proc demo_locator 1 512 demo_transport empty_host = (True, rt', h') \<and>
     sends demo_proc demo_locator [[[1, 2], [3]], [[], [4]]] (demo_transport, h') = Some (t', h2) \<and>
     fst (get_upto link_get 2 (t', last (bt_inputs rt'), h2)) = [(1, [1, 2, 3], demo_locator, demo_locator), (1, [4], demo_locator, demo_locator)]"
proof -
  obtain ok rt' h' where o: "OpenInputChannel demo_proc demo_locator 1 512 demo_transport empty_host = (ok, rt', h')" by (metis prod_cases3)
  have "ok \<and> (\<exists>t' h2. sends demo_proc demo_locator [[[1, 2], [3]], [[], [4]]] (demo_transport, h') = Some (t', h2) \<and>
    fst (get_upto link_get (length [[[1, 2], [3]], [[], [4 :: u8]]]) (t', last (bt_inputs rt'), h2)) =
      map (\<lambda>bs. (1, concat bs, demo_locator, demo_locator)) [[[1, 2], [3]], [[], [4]]])"
    by (rule Bucket_carries_messages [OF _ _ _ _ _ _ _ _ _ _ o refl, where e = demo_proc])
      (simp_all add: demo_locator_simps demo_transport_simps demo_proc_simps empty_host_def size_ok_def effective_max_def esz_def)
  then show ?thesis using o by (simp add: numeral_2_eq_2 del: get_upto.simps sends.simps)
qed

text \<open>The host in which the reader of the first process has its channel, and the link from a writer that has
  its bucket in the cache.\<close>

definition demo_channel :: channel where
  "demo_channel = \<lparr>ch_locator = demo_locator, ch_max = 512, ch_receiver = 1, ch_seg = 0, ch_cursor = 0, ch_running = True\<rparr>"

definition demo_host :: host where
  "demo_host = \<lparr>ho_names = [bucket_name 7410 \<mapsto> 0], ho_objs = [0 \<mapsto> fresh_segment 1024], ho_next = 1\<rparr>"

definition demo_writer :: transport where
  "demo_writer = demo_transport\<lparr>bt_buckets := [7410 \<mapsto> 0]\<rparr>"

definition demo_reader :: transport where
  "demo_reader = demo_transport\<lparr>bt_inputs := [demo_channel]\<rparr>"

lemma demo_linked: "linked demo_proc (demo_transport, demo_channel, demo_host)" "linked demo_proc (demo_writer, demo_channel, demo_host)"
  "link_seg (demo_writer, demo_channel, demo_host) = fresh_segment 1024" "link_seg (demo_transport, demo_channel, demo_host) = fresh_segment 1024"
proof -
  show "linked demo_proc (demo_transport, demo_channel, demo_host)"
    by (rule fresh_link(1) [where sz = 1024 and l = demo_locator, OF _ _ _ _ _ _ _ demo_channel_def])
      (simp_all add: size_ok_def demo_locator_simps demo_proc_simps demo_transport_simps demo_host_def)
  then show "linked demo_proc (demo_writer, demo_channel, demo_host)"
    by (simp add: linked_def Let_def link_seg_def demo_writer_def demo_channel_def demo_locator_simps)
qed (simp_all add: link_seg_def demo_channel_def demo_host_def)

theorem Returning_reader_gets_nothing_witness:
  "\<exists>rt1 h1 rt2 h2 t' h'. CloseInputChannel demo_locator demo_reader demo_host = (True, rt1, h1) \<and>
     OpenInputChannel demo_proc demo_locator 1 512 rt1 h1 = (True, rt2, h2) \<and>
     sends demo_proc demo_locator [[[1, 2, 3]]] (demo_writer, h2) = Some (t', h') \<and>
     run_pass (last (bt_inputs rt2)) h' = ([], last (bt_inputs rt2), h')"
proof -
  obtain rt1 h1 where cl: "CloseInputChannel demo_locator demo_reader demo_host = (True, rt1, h1)" "bt_inputs rt1 = []"
    by (simp add: CloseInputChannel_def demo_reader_def demo_channel_def)
  obtain ok rt2 h2 where op: "OpenInputChannel demo_proc demo_locator 1 512 rt1 h1 = (ok, rt2, h2)" by (metis prod_cases3)
  have l: "ch_locator demo_channel = demo_locator" by (simp add: demo_channel_def)
  have p: "bt_buckets demo_writer (lo_port demo_locator) = Some (ch_seg demo_channel)" "host_ok demo_host"
    "ho_names demo_host (bucket_name (lo_port demo_locator)) = Some (ch_seg demo_channel)" "\<not> IsInputChannelOpen demo_locator rt1"
    "size_ok (bt_segment_size demo_reader)" "pv_create demo_proc"
    using cl(2) by (simp_all add: demo_writer_def demo_locator_simps demo_channel_def host_ok_def demo_host_def
        IsInputChannelOpen_def size_ok_def demo_reader_def demo_transport_simps demo_proc_simps)
  note R = Returning_reader_gets_nothing [OF demo_linked(2) l p(1-3) cl(1) p(4-6) op refl]
  have "used (fresh_segment 1024) = 0" "unat (write_pos (fresh_segment 1024)) = 0" "unat (capacity (fresh_segment 1024)) = 1024" "unat (ch_max demo_channel) = 512"
    by (simp_all add: fresh_segment_def used_def demo_channel_def)
  then have "sends demo_proc demo_locator [[[1, 2, 3]]] (demo_writer, h2) \<noteq> None"
    using R [unfolded demo_linked(3), THEN conjunct2, THEN conjunct2, THEN spec, of "[[[1, 2, 3]]]"] by (simp add: esz_def del: sends.simps)
  then obtain t' h' where s: "sends demo_proc demo_locator [[[1, 2, 3]]] (demo_writer, h2) = Some (t', h')"
    by (metis not_None_eq prod.collapse)
  have k: ok "run_pass (last (bt_inputs rt2)) h' = ([], last (bt_inputs rt2), h')" using R s by blast+
  show ?thesis using cl(1) op [unfolded eqTrueI [OF k(1)]] s k(2) by blast
qed

theorem Second_reader_takes_over_witness:
  "\<exists>rt' h'. OpenInputChannel demo_proc demo_locator 2 512 demo_transport demo_host = (True, rt', h') \<and>
     ch_seg (last (bt_inputs rt')) = ch_seg demo_channel"
proof -
  obtain ok rt' h' where op: "OpenInputChannel demo_proc demo_locator 2 512 demo_transport demo_host = (ok, rt', h')" by (metis prod_cases3)
  have p: "ch_locator demo_channel = demo_locator" "ho_names demo_host (bucket_name (lo_port demo_locator)) = Some (ch_seg demo_channel)"
    "owner_pid (link_seg (demo_transport, demo_channel, demo_host)) = 0" "\<not> IsInputChannelOpen demo_locator demo_transport"
    "pv_open demo_proc" "pv_lock demo_proc (lo_port demo_locator) \<noteq> LockFailed"
    by (simp_all add: demo_locator_simps demo_transport_simps demo_proc_simps demo_linked(4))
      (simp_all add: demo_host_def demo_channel_def fresh_segment_def)
  have k: ok "ch_seg (last (bt_inputs rt')) = ch_seg demo_channel"
    using Second_reader_takes_over [OF demo_linked(1) p op refl] by blast+
  show ?thesis using op [unfolded eqTrueI [OF k(1)]] k(2) by blast
qed

end
