(* ===== verification/Agent_Life.thy ===== *)
theory Agent_Life
  imports Agent_Timer
begin

text \<open>
  The agent's life (\<open>agent/src/dts_agent_api.cpp\<close>) over the ping-pong buffer (\<open>agent/src/pingpong.cpp\<close>):
  \<open>dts_agent_create\<close> starts the reader thread, \<open>dts_agent_destroy\<close> asks it to stop and joins it. There is
  no lock, so the writer in the SPA process and the reader are modelled access by access: a write
  loads the face, tests the fill level, copies, and raises the fill level; a round of the reader
  flips, reads the fill level, copies out, clears it, and publishes. The steps of the two and of
  the caller of \<open>dts_agent_destroy\<close> come in any order. A run is calm if no flip falls inside a write.
\<close>

section \<open>The steps\<close>

datatype writer_phase = W_idle | Loaded bool bytes | Copying bool bytes | Bumping bool bytes

datatype reader_phase = Test | Sleep | Flipped bool | Taking bool u32 | Clearing bool bytes | Publishing bytes | Ended

text \<open>\<open>ag_accepted\<close> is what \<open>Write\<close> has accepted, \<open>ag_out\<close> what was published.\<close>

record agent =
  ag_pingpong :: PingPong
  ag_outKey :: u64
  ag_publish :: bool
  ag_stop :: bool
  ag_writer :: writer_phase
  ag_reader :: reader_phase
  ag_accepted :: bytes
  ag_out :: "(u64 \<times> bytes) list"


text \<open>\<open>dts_agent_destroy\<close>, whose join waits for the phase \<open>Ended\<close>.\<close>

definition dts_agent_destroy :: "agent \<Rightarrow> agent" where
  "dts_agent_destroy s = s\<lparr>ag_stop := True\<rparr>"

text \<open>\<open>Write\<close>: the load of the face, and the accesses after it.\<close>

definition write_call :: "bytes \<Rightarrow> agent \<Rightarrow> agent" where
  "write_call d s = s\<lparr>ag_writer := Loaded (pp_cur (ag_pingpong s)) d\<rparr>"

definition writer_step :: "agent \<Rightarrow> agent" where
  "writer_step s = (let p = ag_pingpong s in case ag_writer s of
     W_idle \<Rightarrow> s
   | Loaded idx d \<Rightarrow>
       if write_full (face_off idx p) (of_nat (length d)) then s\<lparr>ag_writer := W_idle\<rparr> else s\<lparr>ag_writer := Copying idx d\<rparr>
   | Copying idx d \<Rightarrow> s\<lparr>ag_pingpong := write_copy idx (face_off idx p) d p, ag_writer := Bumping idx d\<rparr>
   | Bumping idx d \<Rightarrow> s\<lparr>ag_pingpong := write_bump idx (of_nat (length d)) p, ag_writer := W_idle,
       ag_accepted := ag_accepted s @ d\<rparr>)"

text \<open>\<open>agentReaderLoop\<close> with \<open>ReadAndFlip\<close> in it.\<close>

definition reader_step :: "agent \<Rightarrow> agent" where
  "reader_step s = (let p = ag_pingpong s in case ag_reader s of
     Test \<Rightarrow> s\<lparr>ag_reader := (if ag_stop s then Ended else Sleep)\<rparr>
   | Sleep \<Rightarrow> s\<lparr>ag_pingpong := p\<lparr>pp_cur := \<not> pp_cur p\<rparr>, ag_reader := Flipped (pp_cur p)\<rparr>
   | Flipped old \<Rightarrow> (let n = min (face_off old p) kAgentBufSize in s\<lparr>ag_reader := (if n > 0 then Taking old n else Test)\<rparr>)
   | Taking old n \<Rightarrow> s\<lparr>ag_reader := Clearing old (take (unat n) (face_buf old p))\<rparr>
   | Clearing old bs \<Rightarrow> s\<lparr>ag_pingpong := set_off old 0 p, ag_reader := Publishing bs\<rparr>
   | Publishing bs \<Rightarrow> s\<lparr>ag_out := ag_out s @ (if ag_publish s then [(ag_outKey s, bs)] else []), ag_reader := Test\<rparr>
   | Ended \<Rightarrow> s)"

inductive agent_step :: "agent \<Rightarrow> agent \<Rightarrow> bool" where
  call: "ag_writer s = W_idle \<Longrightarrow> length d < 2147483648 \<Longrightarrow> agent_step s (write_call d s)"
| writer: "ag_writer s \<noteq> W_idle \<Longrightarrow> agent_step s (writer_step s)"
| reader: "ag_reader s \<noteq> Ended \<Longrightarrow> agent_step s (reader_step s)"
| destroy: "agent_step s (dts_agent_destroy s)"

inductive_cases agent_stepE: "agent_step s s'"

text \<open>Runs all of whose steps satisfy \<open>I\<close>; \<open>anyhow\<close> admits every step, \<open>calm\<close> a flip only between two writes.\<close>

inductive agent_reaches :: "(agent \<Rightarrow> agent \<Rightarrow> bool) \<Rightarrow> agent \<Rightarrow> agent \<Rightarrow> bool" for I s0 where
  created: "agent_reaches I s0 s0"
| stepped: "agent_reaches I s0 s \<Longrightarrow> agent_step s s' \<Longrightarrow> I s s' \<Longrightarrow> agent_reaches I s0 s'"


definition calm :: "agent \<Rightarrow> agent \<Rightarrow> bool" where
  "calm s s' \<longleftrightarrow> (ag_reader s = Sleep \<and> ag_reader s' \<noteq> Sleep \<longrightarrow> ag_writer s = W_idle)"

lemma agent_reaches_trans: "agent_reaches I s1 s2 \<Longrightarrow> agent_reaches I s0 s1 \<Longrightarrow> agent_reaches I s0 s2"
  by (induction rule: agent_reaches.induct) (auto intro: stepped)

lemma writer_step_frame:
  "ag_reader (writer_step s) = ag_reader s" "ag_stop (writer_step s) = ag_stop s" "ag_out (writer_step s) = ag_out s"
  "ag_outKey (writer_step s) = ag_outKey s" "ag_publish (writer_step s) = ag_publish s"
  by (simp_all add: writer_step_def Let_def split: writer_phase.split)


section \<open>No copy leaves its face\<close>

text \<open>In every run the fill levels stay in bounds, and so does the copy of a write that has passed its test.\<close>

definition in_bounds :: "agent \<Rightarrow> bool" where
  "in_bounds s \<longleftrightarrow> (\<forall>i. length (face_buf i (ag_pingpong s)) = 32768 \<and> unat (face_off i (ag_pingpong s)) \<le> 32768) \<and>
     (case ag_writer s of W_idle \<Rightarrow> True | Loaded idx d \<Rightarrow> length d < 2147483648
      | Copying idx d \<Rightarrow> d \<noteq> [] \<and> unat (face_off idx (ag_pingpong s)) + length d \<le> 32768
      | Bumping idx d \<Rightarrow> d \<noteq> [] \<and> unat (face_off idx (ag_pingpong s)) + length d \<le> 32768)"

lemma face_off_set: "face_off i (set_off j v p) = (if i = j then v else face_off i p)"
  by (auto simp: face_defs)

lemma unat_bumped: "unat off + length d \<le> 32768 \<Longrightarrow> unat (off + of_nat (length d) :: u32) = unat off + length d"
proof -
  assume a: "unat off + length d \<le> 32768"
  then have l: "unat (of_nat (length d) :: u32) = length d" by (simp add: unat_of_nat take_bit_nat_eq_self)
  show ?thesis using unat_add_u32 [of off "of_nat (length d)"] a l by simp
qed

lemma writer_step_bounds:
  assumes "in_bounds s"
  shows "in_bounds (writer_step s)"
proof (cases "ag_writer s")
  case (Loaded idx d)
  have d: "unat (of_nat (length d) :: u32) = length d" "length d < 2147483648"
    using assms Loaded by (simp_all add: in_bounds_def unat_of_nat take_bit_nat_eq_self)
  have "unat (face_off idx (ag_pingpong s)) \<le> 32768" using assms by (simp add: in_bounds_def)
  from write_full_iff [OF this, of "of_nat (length d)"] d
  have "write_full (face_off idx (ag_pingpong s)) (of_nat (length d)) \<longleftrightarrow> d = [] \<or> unat (face_off idx (ag_pingpong s)) + length d > 32768"
    by (metis length_0_conv unat_0 unat_eq_zero)
  then show ?thesis using assms Loaded by (auto simp: writer_step_def in_bounds_def Let_def)
next
  case (Copying idx d)
  then show ?thesis using assms by (auto simp: writer_step_def in_bounds_def Let_def write_copy_def face_buf_set_buf length_mem_write)
next
  case (Bumping idx d)
  then show ?thesis using assms unat_bumped [of "face_off idx (ag_pingpong s)" d]
    by (auto simp: writer_step_def in_bounds_def Let_def write_bump_def face_off_set)
qed (use assms in \<open>simp add: writer_step_def Let_def\<close>)

lemma reader_step_bounds:
  assumes "in_bounds s"
  shows "in_bounds (reader_step s)"
proof (cases "ag_reader s")
  case (Clearing old bs)
  then show ?thesis using assms
    by (auto simp: reader_step_def in_bounds_def Let_def face_off_set split: writer_phase.splits)
qed (use assms in \<open>simp_all add: reader_step_def in_bounds_def Let_def cong: writer_phase.case_cong\<close>)

lemma agent_step_bounds:
  assumes "agent_step s s'" "in_bounds s"
  shows "in_bounds s'"
  using assms(1)
proof cases
  case (call d)
  with assms(2) show ?thesis by (simp add: in_bounds_def write_call_def)
next
  case destroy
  with assms(2) show ?thesis by (simp add: in_bounds_def dts_agent_destroy_def cong: writer_phase.case_cong)
qed (use assms(2) writer_step_bounds reader_step_bounds in auto)


lemma agent_reaches_bounds: "agent_reaches I s0 s \<Longrightarrow> in_bounds s0 \<Longrightarrow> in_bounds s"
  by (induction rule: agent_reaches.induct) (auto intro: agent_step_bounds)

section \<open>Calm runs\<close>











section \<open>Undisturbed\<close>

text \<open>Without interruption the steps of a write are \<open>Write\<close>, and those of a round \<open>ReadAndFlip\<close> with the publication.\<close>

lemma undisturbed_write:
  assumes "ag_writer s = W_idle" "in_bounds s" "length d < 2147483648"
  shows "\<exists>s'. agent_reaches calm s s' \<and> ag_writer s' = W_idle \<and> ag_reader s' = ag_reader s \<and>
    Write_pp d (of_nat (length d)) (ag_pingpong s) = (True, ag_accepted s' \<noteq> ag_accepted s, ag_pingpong s') \<and>
    ag_accepted s' = (if ag_accepted s' \<noteq> ag_accepted s then ag_accepted s @ d else ag_accepted s)"
proof -
  let ?p = "ag_pingpong s" and ?len = "of_nat (length d) :: u32"
  let ?idx = "pp_cur ?p"
  let ?full = "write_full (face_off ?idx ?p) ?len"
  define s1 where "s1 = write_call d s"
  have c: "agent_reaches calm s s1" unfolding s1_def
    by (rule stepped [OF created call]) (use assms in \<open>simp_all add: calm_def write_call_def\<close>)
  have calm_w: "calm x (writer_step x)" for x by (simp add: calm_def writer_step_frame)
  have w1: "ag_writer s1 = Loaded ?idx d" "ag_pingpong s1 = ?p" "ag_reader s1 = ag_reader s" "ag_accepted s1 = ag_accepted s"
    by (simp_all add: s1_def write_call_def)
  define s2 where "s2 = writer_step s1"
  have r2: "agent_reaches calm s s2" unfolding s2_def by (rule stepped [OF c writer]) (simp_all add: w1 calm_w)
  show ?thesis
  proof (cases ?full)
    case True
    then have "s2 = s1\<lparr>ag_writer := W_idle\<rparr>" "Write_pp d ?len ?p = (True, False, ?p)"
      using w1 by (simp_all add: s2_def writer_step_def Write_pp_def Let_def)
    with r2 w1 show ?thesis by (intro exI [of _ s2]) simp
  next
    case False
    have s2: "s2 = s1\<lparr>ag_writer := Copying ?idx d\<rparr>"
      using w1 False by (simp add: s2_def writer_step_def Let_def)
    have b2: "in_bounds s2"
      using agent_reaches_bounds [OF r2 assms(2)] .
    then have fits: "d \<noteq> []" "unat (face_off ?idx ?p) + length d \<le> 32768" by (simp_all add: s2 w1 in_bounds_def)
    have len: "unat ?len = length d" using assms(3) by (simp add: unat_of_nat take_bit_nat_eq_self)
    define s3 where "s3 = writer_step s2"
    define s4 where "s4 = writer_step s3"
    have s3: "s3 = s2\<lparr>ag_pingpong := write_copy ?idx (face_off ?idx ?p) d ?p, ag_writer := Bumping ?idx d\<rparr>"
      by (simp add: s3_def s2 writer_step_def w1 Let_def)
    have s4: "s4 = s3\<lparr>ag_pingpong := write_bump ?idx ?len (write_copy ?idx (face_off ?idx ?p) d ?p), ag_writer := W_idle,
        ag_accepted := ag_accepted s @ d\<rparr>"
      by (simp add: s4_def s3 s2 writer_step_def w1 Let_def)
    have "agent_reaches calm s s3" unfolding s3_def by (rule stepped [OF r2 writer]) (simp_all add: s2 calm_w)
    then have r4: "agent_reaches calm s s4" unfolding s4_def by (rule stepped [OF _ writer]) (simp_all add: s3 calm_w)
    have "Write_pp d ?len ?p = (True, True, ag_pingpong s4)"
      using False fits len by (simp add: Write_pp_def Let_def s4)
    with r4 fits(1) show ?thesis by (intro exI [of _ s4]) (simp add: s4 s3 s2 w1)
  qed
qed


section \<open>The end of the reader\<close>







section \<open>A flip inside a write\<close>




section \<open>The agent\<close>



end
