(* ===== verification/Route_Delivery.thy ===== *)
theory Route_Delivery
  imports Bootstrap Detmw_Fastdds "HOL-Library.Sublist"
begin

text \<open>
  The routes of the process over its own transport: the subscriptions that \<open>Start\<close>
  (\<open>bootstrap/src/run.cpp\<close>) makes on the \<open>Communicator\<close> whose transport is the FastDDS one
  (\<open>detmw_fastdds.cpp\<close>), and where an internally published message then lands.
\<close>

text \<open>FastDDS creates the topic and the reader of an endpoint when it is asked to.\<close>

definition willing_reader :: "dds \<Rightarrow> endpoint \<Rightarrow> bool" where
  "willing_reader d ep \<longleftrightarrow> dds_reader d (MakeTopic_ep ep) \<and> dds_topic d (MakeTopic_ep ep) ''detmw::Bytes'' \<and>
     (\<forall>n. dds_topic d (MakeTopic_ep ep) (type_name (Fixed n)))"

lemma willing_topic: "willing_reader d ep \<Longrightarrow> dds_topic d (MakeTopic_ep ep) (type_name ty)"
  by (cases ty) (auto simp: willing_reader_def type_name_def)

lemma FindOrCreateTopic_willing:
  fixes t :: FastDdsState
  assumes "willing_reader d ep"
  shows "fst (FindOrCreateTopic d (MakeTopic_ep ep) t)"
    "fd_participant (snd (FindOrCreateTopic d (MakeTopic_ep ep) t)) = fd_participant t"
proof -
  have p: "fd_participant (snd (GetOrCreateType topic t)) = fd_participant t" for topic
    by (simp add: GetOrCreateType_def Let_def split: option.split)
  show "fst (FindOrCreateTopic d (MakeTopic_ep ep) t)"
    "fd_participant (snd (FindOrCreateTopic d (MakeTopic_ep ep) t)) = fd_participant t"
    using willing_topic [OF assms] p [of "MakeTopic_ep ep"]
    by (cases "GetOrCreateType (MakeTopic_ep ep) t"; simp add: FindOrCreateTopic_def)+
qed

lemma fastdds_opens:
  assumes "\<forall>ep \<in> eps. willing_reader d ep"
  shows "opens_readers (fastdds_ops d qos) fd_participant eps"
  unfolding opens_readers_def
proof (intro ballI allI impI)
  fix ep r and t :: FastDdsState
  assume ep: "ep \<in> eps" and p: "fd_participant t"
  have w: "willing_reader d ep" using assms ep by blast
  then have "dds_reader d (MakeTopic_ep ep)" by (simp add: willing_reader_def)
  with FindOrCreateTopic_willing [OF w, of t] p
  show "fst (tr_CreateReader (fastdds_ops d qos) ep r t) = 0 \<and> fd_participant (snd (tr_CreateReader (fastdds_ops d qos) ep r t))"
    by (cases "FindOrCreateTopic d (MakeTopic_ep ep) t") (simp add: fastdds_ops_def CreateReader_def Let_def)
qed

text \<open>Whatever fails, only routes of the tables are subscribed, each thread's in its order.\<close>

lemma register_routes_sub:
  "\<exists>rs'. subseq rs' rs \<and> fst (register_routes ops fn th st rs s) = fst s @
     map (\<lambda>r. \<lparr>sb_ep = \<lparr>session_type = st, session_inst = rt_inst r, msg_id = rt_msgId r\<rparr>, sb_thread = th\<rparr>) rs'"
proof (induction rs arbitrary: s)
  case (Cons r rs)
  let ?ep = "\<lparr>session_type = st, session_inst = rt_inst r, msg_id = rt_msgId r\<rparr>"
  obtain rc c where sc: "subscribe ops ?ep (Some fn, length (fst s)) (snd s) = (rc, c)"
    by (cases "subscribe ops ?ep (Some fn, length (fst s)) (snd s)")
  let ?s = "if rc = 0 then (fst s @ [\<lparr>sb_ep = ?ep, sb_thread = th\<rparr>], c) else (fst s, c)"
  have step: "register_routes ops fn th st (r # rs) s = register_routes ops fn th st rs ?s" by (simp add: sc Let_def)
  obtain rs' where rs': "subseq rs' rs" "fst (register_routes ops fn th st rs ?s) = fst ?s @
      map (\<lambda>r. \<lparr>sb_ep = \<lparr>session_type = st, session_inst = rt_inst r, msg_id = rt_msgId r\<rparr>, sb_thread = th\<rparr>) rs'"
    using Cons.IH [of ?s] by blast
  show ?case
  proof (cases "rc = 0")
    case True
    with rs' show ?thesis unfolding step by (intro exI [of _ "r # rs'"]) simp
  next
    case False
    with rs' show ?thesis unfolding step by (intro exI [of _ rs']) auto
  qed
qed simp

lemma all_routes_sub: "subseq (fst (all_routes e c)) (expected_subs e)"
proof -
  note R = register_routes_sub [where st = SESSION_TYPE_DTS and ops = "be_ops e"]
  let ?r1 = "register_routes (be_ops e) 1 (Some Task) SESSION_TYPE_DTS (be_routes e Task) ([], c)"
  let ?r2 = "register_routes (be_ops e) 1 (Some Data) SESSION_TYPE_DTS (be_routes e Data) ?r1"
  let ?r3 = "register_routes (be_ops e) 1 (Some Log) SESSION_TYPE_DTS (be_routes e Log) ?r2"
  let ?r4 = "register_routes (be_ops e) 2 None SESSION_TYPE_DTS (be_control_routes e) ?r3"
  let ?f = "\<lambda>th. map (\<lambda>r. \<lparr>sb_ep = \<lparr>session_type = SESSION_TYPE_DTS, session_inst = rt_inst r, msg_id = rt_msgId r\<rparr>, sb_thread = th\<rparr>)"
  obtain a where a: "subseq a (be_routes e Task)" "fst ?r1 = fst ([], c) @ ?f (Some Task) a"
    using R [of "be_routes e Task" 1 "Some Task" "([], c)"] by blast
  obtain b where b: "subseq b (be_routes e Data)" "fst ?r2 = fst ?r1 @ ?f (Some Data) b"
    using R [of "be_routes e Data" 1 "Some Data" ?r1] by blast
  obtain l where l: "subseq l (be_routes e Log)" "fst ?r3 = fst ?r2 @ ?f (Some Log) l"
    using R [of "be_routes e Log" 1 "Some Log" ?r2] by blast
  obtain k where k: "subseq k (be_control_routes e)" "fst ?r4 = fst ?r3 @ ?f None k"
    using R [of "be_control_routes e" 2 None ?r3] by blast
  have "fst (all_routes e c) = fst ?r4" unfolding all_routes_def RegisterSubRoutes_def RegisterCtlRoutes_def ..
  also have "\<dots> = ?f (Some Task) a @ ?f (Some Data) b @ ?f (Some Log) l @ ?f None k"
    unfolding k(2) l(2) b(2) a(2) fst_conv append_Nil append_assoc ..
  finally show ?thesis unfolding expected_subs_def route_ep_def dts_endpoint_def
    by (simp only:) (intro list_emb_append_mono subseq_map a(1) b(1) l(1) k(1))
qed

text \<open>C27: Messages reach the right thread, on the program's own transport. A message that any part of the
  process publishes internally lands in a thread's mailbox once for each subscription that was
  made for that thread on its endpoint, behind what is already there, with the payload, the
  message id and the session instance by which the thread picks its handler; the control channel
  gets it once for each control subscription; no other mailbox changes. The subscriptions made are
  always a selection of the route tables, in their order; and once there is a participant and
  FastDDS creates the readers of the routes, they are all of them, so the counts are those of the
  tables.\<close>

theorem Routes_deliver:
  assumes "be_ops e = fastdds_ops d qos" "\<forall>ep. c_localSubs c ep = []" "S = fst (all_routes e c)"
    and "calls = snd (snd (publish_internal (be_ops e) dst data len (snd (all_routes e c))))"
  shows "fst (fold (route_callback S) calls s) w =
      fst s w @ replicate (length (filter (\<lambda>x. sb_thread x = Some w \<and> sb_ep x = dst) S)) (route_msg dst (payload_copy data len)) \<and>
    snd (fold (route_callback S) calls s) =
      (OnRouteCtl (Some (payload_copy data len)) ^^ length (filter (\<lambda>x. sb_thread x = None \<and> sb_ep x = dst) S)) (snd s) \<and>
    subseq S (expected_subs e) \<and>
    (Ready (c_transport c) \<and> (\<forall>ep \<in> route_eps e. willing_reader d ep) \<longrightarrow>
      fst (fold (route_callback S) calls s) w =
        fst s w @ replicate (length (filter (\<lambda>r. route_ep r = dst) (be_routes e w))) (route_msg dst (payload_copy data len)) \<and>
      snd (fold (route_callback S) calls s) =
        (OnRouteCtl (Some (payload_copy data len)) ^^ length (filter (\<lambda>r. route_ep r = dst) (be_control_routes e))) (snd s))"
proof -
  note D = subs_deliver [OF assms(2,3,4), of s w]
  have E: "S = expected_subs e" if "Ready (c_transport c)" "\<forall>ep \<in> route_eps e. willing_reader d ep"
    unfolding assms(3)
    by (rule all_routes_subs [of fd_participant])
      (use that fastdds_opens [OF that(2)] in \<open>simp_all add: assms(1) transport_in_def Ready_def split: option.splits\<close>)
  have sub: "subseq S (expected_subs e)" unfolding assms(3) by (rule all_routes_sub)
  have cnt: "length (filter (\<lambda>x. sb_thread x = Some w \<and> sb_ep x = dst) S) = length (filter (\<lambda>r. route_ep r = dst) (be_routes e w)) \<and>
      length (filter (\<lambda>x. sb_thread x = None \<and> sb_ep x = dst) S) = length (filter (\<lambda>r. route_ep r = dst) (be_control_routes e))"
    if "Ready (c_transport c)" "\<forall>ep \<in> route_eps e. willing_reader d ep"
    unfolding E [OF that] by (simp add: count_expected)
  have "fst (fold (route_callback S) calls s) w =
        fst s w @ replicate (length (filter (\<lambda>r. route_ep r = dst) (be_routes e w))) (route_msg dst (payload_copy data len)) \<and>
      snd (fold (route_callback S) calls s) =
        (OnRouteCtl (Some (payload_copy data len)) ^^ length (filter (\<lambda>r. route_ep r = dst) (be_control_routes e))) (snd s)"
    if "Ready (c_transport c)" "\<forall>ep \<in> route_eps e. willing_reader d ep"
    using D unfolding conjunct1 [OF cnt [OF that]] conjunct2 [OF cnt [OF that]] .
  with D sub show ?thesis by blast
qed

text \<open>A process with one route of the data thread and one control route.\<close>

definition obliging :: dds where
  "obliging = \<lparr>dds_topic = \<lambda>_ _. True, dds_reader = \<lambda>_. True, dds_writer = \<lambda>_. True, dds_loan = \<lambda>_ _. False, dds_write = \<lambda>_ _. True\<rparr>"

definition fastdds_comm :: "FastDdsState Communicator" where
  "fastdds_comm = empty_communicator\<lparr>c_transport :=
     CreateFastDdsTransport Map.empty True 0 (\<lambda>_. True) (\<lambda>_ _. True) 0 ''cpf'' '''' Map.empty\<rparr>"

definition fastdds_env :: "FastDdsState boot_env" where
  "fastdds_env = \<lparr>be_comm = \<lambda>_. fastdds_comm, be_ops = fastdds_ops obliging (LoadQos Map.empty), be_domain = True, be_thread = \<lambda>_. True,
     be_routes = (\<lambda>w. if w = Data then [\<lparr>rt_inst = SESSION_INST_DATA, rt_msgId = MSG_ID_AGENT_DATA\<rparr>] else []),
     be_control_routes = [\<lparr>rt_inst = SESSION_INST_OAM, rt_msgId = 4\<rparr>], be_sock = all_well, be_fresh = \<lambda>_. []\<rparr>"

theorem Routes_deliver_witness:
  "fst (fold (route_callback (fst (all_routes fastdds_env fastdds_comm)))
      (snd (snd (publish_internal (be_ops fastdds_env) (dts_endpoint SESSION_INST_DATA MSG_ID_AGENT_DATA) (Some [1, 2]) 2
        (snd (all_routes fastdds_env fastdds_comm))))) ((\<lambda>_. []), start_console [] False ())) Data =
    [route_msg (dts_endpoint SESSION_INST_DATA MSG_ID_AGENT_DATA) [1, 2]]"
proof -
  have r: "Ready (c_transport fastdds_comm)"
    by (simp add: fastdds_comm_def CreateFastDdsTransport_def participant_config_of_def bucket_config_def peers_config_def udp_config_def
        udp_mtu_def Detmw_Fastdds.default_config_def Ready_def)
  have w: "\<forall>ep \<in> route_eps fastdds_env. willing_reader obliging ep" by (simp add: willing_reader_def obliging_def)
  have o: "be_ops fastdds_env = fastdds_ops obliging (LoadQos Map.empty)" by (simp add: fastdds_env_def)
  have l: "\<forall>ep. c_localSubs fastdds_comm ep = []" by (simp add: fastdds_comm_def empty_communicator_def)
  have n: "length (filter (\<lambda>r. route_ep r = dts_endpoint SESSION_INST_DATA MSG_ID_AGENT_DATA) (be_routes fastdds_env Data)) = 1"
    by (simp add: fastdds_env_def route_ep_def)
  have p: "payload_copy (Some [1, 2]) 2 = [1, 2]" by (simp add: payload_copy_def)
  show ?thesis
    using Routes_deliver [OF o l refl refl, of "dts_endpoint SESSION_INST_DATA MSG_ID_AGENT_DATA" "Some [1, 2]" 2
        "((\<lambda>_. []), start_console [] False ())" Data, THEN conjunct2, THEN conjunct2, THEN conjunct2] r w
    unfolding n p by simp
qed

end
