(* ===== verification/Spec2Isabelle.thy ===== *)
theory Spec2Isabelle
  imports Bucket_Queue Bucket_Schedules Pipeline Td_Map Contexts Thread_Loop Detmw_Fastdds Agent_Timer Console Http_Sse
    Kafka_Client Web_Server Bootstrap System Run_Threads Bucket_Transport Agent_Life Route_Delivery
begin

text \<open>
  Verification development for dts-framework, the C++ process that takes raw measurement frames from a
  base station agent, cuts them into slices, and reports them over a publish-subscribe middleware, and for
  its web server, which passes the reports through Kafka to browsers.

  \<^bold>\<open>The program and its parts.\<close> A process (\<open>bootstrap/src/run.cpp\<close>) assembles the
  communicator (\<open>thirdparty/detmw\<close>), three business threads task, data and log (\<open>contexts/*\<close>), each a loop
  over its mailbox (\<open>infrastructure/src/dts_thread.cpp\<close>), and an operations side, a console socket and a
  control thread (\<open>infrastructure/src/console.cpp\<close>, \<open>ctl.cpp\<close>). Threads are made by a scheduler
  (\<open>thirdparty/detsched\<close>). The communicator calls local subscribers itself and hands everything else to a
  transport over FastDDS, which may carry its packets through rings in shared memory
  (\<open>thirdparty/bucket\<close>). A frame arrives as a message, is routed into the data thread's mailbox, is given a
  block of the processing cache, is cut by the registered extractors into slices, and the slices leave as one
  report. The web server (\<open>webserver/src\<close>) subscribes to reports, produces them to Kafka, consumes
  them again, keeps statistics and writes events to browsers. An agent library (\<open>agent/src\<close>) lets the
  sending process hand over bytes through a ping-pong buffer.

  \<^bold>\<open>How the code is modelled.\<close> Every theory translates its sources function by function, in the
  order of the files, under the functions' names (suffixed where HOL has the name). Unsigned integers are
  words of their width; buffers are lists of bytes, a pointer into a pool is a region and an offset, and a
  copy that would leave its buffer is a result of its own; \<open>char*\<close> that may be null is \<open>cstr\<close>; structures
  are records, enumerations datatypes (or their byte, where the code casts without a check). A method is
  a function of the object's state that returns the new state; an early return or a failure is a
  branch of it. Concurrency is a step relation or an explicit list of events; time is a natural number that
  any step may advance. Loops over tables are structural recursions, loops with a bound recur
  over that bound (the probe loops of the cache over the number of slots, the parser over the length of the
  report, both as in the code), the others have a termination proof; no model carries fuel of its own.
  Log lines are left out except where the code reads them again or where they are what is asked about.

  \<^bold>\<open>Theories.\<close>
  \<^item> \<open>Prelude_DTS\<close>, \<open>Prelude_Text\<close>: machine words, byte buffers, little-endian scalars, C strings, decimal
    printing and parsing, \<open>snprintf\<close>, substring search; the collections \<open>mem_simps\<close> and \<open>unat_simps\<close>.
  \<^item> \<open>Interfaces\<close>: the locales. \<open>fifo\<close> is an ordered channel and is interpreted by the ring, by a writer and
    a reader joined by the bucket transport, and by the mailbox. \<open>registry\<close> and \<open>open_registry\<close> are tables
    that refuse a second entry, interpreted by the task table, the extractor table and the command table.
    \<open>transport\<close> (in \<open>Detmw\<close>) is what the communicator needs of a transport, interpreted by \<open>Detmw_Fastdds\<close>.
  \<^item> \<open>Bucket_Segment\<close>, \<open>Bucket_Queue\<close>: \<open>BucketSegment.cpp\<close>, the ring of one reader and many writers, and the
    queue of messages it stands for: refinement and order, overrun of unread bytes, take-over of a segment.
  \<^item> \<open>Bucket_Race\<close>, \<open>Bucket_Schedules\<close>: the same ring under its real schedule: writers that may die at any step
    and the reader, one access to the shared memory or one call of the mutex or the futex per step. An
    invariant over every schedule in which a writer that passes its wait has room for its entry (which every
    schedule gives whose messages fit into the ring together), what a thread does that is not disturbed (there the steps give what \<open>Write\<close>
    and \<open>Read\<close> of \<open>Bucket_Segment\<close> give at once), and the wake-up that can be lost.
  \<^item> \<open>Bucket_Transport\<close>: \<open>BucketTransport.cpp\<close>: segments have an identity behind their names, so that a removed
    name and a cached mapping can differ. Delivery, the stale cache, two readers of one port.
  \<^item> \<open>Detmw\<close>, \<open>Detmw_Fastdds\<close>: \<open>detmw.cpp\<close> and \<open>detmw_fastdds.cpp\<close>: publication, subscription, the plan of
    topics, types, quality of service, the participant's configuration from the environment.
  \<^item> \<open>Data_Model\<close>, \<open>Data_Mem\<close>, \<open>Report_Agg\<close>, \<open>Td_Map\<close>, \<open>Data_Factory\<close>: \<open>contexts/data/domain\<close>: data ids and
    extractors, the processing cache (hash probing, ageing, slots), the report, the task base, and
    \<open>DataFactory::Process\<close> with its budget and its counters.
  \<^item> \<open>Routing\<close>, \<open>Contexts\<close>, \<open>Thread_Loop\<close>: \<open>msg_table.h\<close> and its compile-time checks, the handlers of the three
    threads, mailbox and loop: order, tick, and the end of a stopped thread.
  \<^item> \<open>Detsched\<close>, \<open>Run_Threads\<close>: the scheduler's domains and registry, the fall-back without real-time permission,
    and the threads that \<open>Start\<close> and \<open>Stop\<close> create and destroy.
  \<^item> \<open>Log_Sink\<close>: \<open>log.cpp\<close> and \<open>ts_rotating_sink.cpp\<close> over a disk that is a list of files.
  \<^item> \<open>Agent_Timer\<close>, \<open>Agent_Life\<close>: the ping-pong buffer whole; writer and reader of it access by access, in
    any order, with the reader thread's life; the timer wheel.
  \<^item> \<open>Control\<close>, \<open>Console\<close>, \<open>Console_Socket\<close>: \<open>ctl.cpp\<close> and \<open>console.cpp\<close>: commands and their execution, sessions
    and the control thread as a step relation, the listening socket's path, the sessions' handles.
  \<^item> \<open>Web_Report\<close>, \<open>Http_Sse\<close>, \<open>Kafka_Client\<close>, \<open>Web_Server\<close>: the parser and the statistics, requests and event
    streams, the wrapper of librdkafka, and the server's process.
  \<^item> \<open>Bootstrap\<close>: \<open>run.cpp\<close>: the six commands' functions, subscriptions, assembly, exit codes, shutdown.
    \<open>Route_Delivery\<close>: its subscriptions on the FastDDS transport, and where messages land.
  \<^item> \<open>Pipeline\<close>, \<open>System\<close>: the path of a report across components, and of one frame from the middleware's callback
    to the browser's event.

  \<^bold>\<open>What is proved.\<close> For the data path: what \<open>Process\<close> publishes, that the slices tile the frame, that the cache
  is a map as long as nothing is evicted, that slots are disjoint, that report and parser fit, and their
  composition into one statement about a frame (C1). For the transports: that rings, channels and
  routes deliver whole messages in order, under which conditions (room in the ring for each entry, also with several
  writers that may die; a channel on a fresh name and a writer without a stale mapping; readers that
  FastDDS creates), and where they do not. For the threads: order and rate of
  handling, bounded termination after a stop, the registry of threads, the scheduling that is granted.
  For the agent: what it publishes as
  long as no flip falls inside a write, and that its end comes in every run.
  For the process and the web server: every early return and exit code, what is taken down and that the console's
  detached sessions are not, what any request is answered with, and that every answer of the console belongs to its
  line. Several properties state what the code
  does where it departs from its comments or its purpose; these are the findings of the manifest: among
  them the overrun of the ring, its lost wake-up, keys lost after an eviction, the bucket cache that outlives its reader, the
  second reader that resets a living one's segment, the misread task activation, the session that waits
  for ever, the sessions that nobody joins, the bytes that the agent publishes twice.

  \<^bold>\<open>Bounds and assumptions.\<close> The hypotheses of a property are stated in it: sizes below the wrap of their
  words, messages that fit. What is not part of the sources is an argument: the FastDDS library (the
  record \<open>dds\<close>, the locator's setters), cJSON's parsed configuration, librdkafka's results (\<open>Kafka_Client\<close>),
  \<open>pthread_create\<close> (\<open>Detsched\<close>), the outcome of system calls on shared memory, sockets and files, the iteration
  order of unordered maps, the addresses that fresh memory has, the generated route tables. The commands' effect on the process is an
  argument of the console's step relation, filled in by the executor where progress is claimed. Each
  property that depends on such an argument has a witness with a concrete one.

  \<^bold>\<open>Not modelled.\<close> The task strategy (\<open>task_strategy.cpp\<close>) only writes a log line. Log lines and their
  formatting, thread names and CPU affinity have no effect that the code reads. The shut-down of the sessions' sockets at
  the end of the console, which makes a blocked \<open>recv\<close> return, is left out. The two
  floating-point rates of the statistics are exact sums before the division. Mutexes are not steps of their
  own: an operation that holds its lock for its whole body is one step, and the ones that do not are split where
  other threads can come between (the ring's accesses, the ping-pong buffer's, console jobs, event streams). Weak memory
  effects are outside the model. Tests, mock processes, code generators, scripts, vendored libraries and the
  web page are not part of the program's own logic.
\<close>

end
